(* ===== verification/Pipeline_Prelude.thy ===== *)
theory Pipeline_Prelude
  imports Main "HOL-Library.Word"
begin

text \<open>
  What every component of the development shares: transition systems given by a step
  function over explicit scheduling choices, their reachable states and the invariant rule
  (the locale \<open>machine\<close>, which every concurrent component interprets), and the facts on
  machine words that the index arithmetic of the ring buffer rests on.
\<close>

unbundle bit_operations_syntax

named_theorems word_index \<comment> \<open>free-running indices, moved between words and naturals\<close>

section \<open>Transition systems over scheduling choices\<close>

text \<open>
  A machine is a function \<open>nxt\<close>: from a choice (which thread moves, which value a
  relaxed read returns, whether a weak compare-exchange fails) and a state to the next
  state, \<open>None\<close> where the choice is not possible there.  Every theorem about a machine
  quantifies over all choices, so over every interleaving.
\<close>

inductive reach :: "('c \<Rightarrow> 's \<Rightarrow> 's option) \<Rightarrow> 's \<Rightarrow> 's \<Rightarrow> bool" for nxt s0 where
  reach_start: "reach nxt s0 s0"
| reach_step: "reach nxt s0 s \<Longrightarrow> nxt c s = Some t \<Longrightarrow> reach nxt s0 t"

primrec run :: "('c \<Rightarrow> 's \<Rightarrow> 's option) \<Rightarrow> 'c list \<Rightarrow> 's \<Rightarrow> 's option" where
  "run nxt [] s = Some s"
| "run nxt (c # cs) s = (case nxt c s of None \<Rightarrow> None | Some t \<Rightarrow> run nxt cs t)"

lemma run_append: "run nxt (cs @ ds) s = Option.bind (run nxt cs s) (run nxt ds)"
  by (induction cs arbitrary: s) (auto split: option.splits)

lemma run_appendI: "run nxt cs s = Some t \<Longrightarrow> run nxt ds t = Some u \<Longrightarrow> run nxt (cs @ ds) s = Some u"
  by (simp add: run_append)

lemma reach_run: "reach nxt s0 s \<Longrightarrow> run nxt cs s = Some t \<Longrightarrow> reach nxt s0 t"
  by (induction cs arbitrary: s) (auto split: option.splits intro: reach_step)

lemma run_reach: "run nxt cs s = Some t \<Longrightarrow> reach nxt s t"
  by (rule reach_run [OF reach_start])

lemma reach_iff_run: "reach nxt s t \<longleftrightarrow> (\<exists>cs. run nxt cs s = Some t)"
proof
  assume "reach nxt s t"
  then show "\<exists>cs. run nxt cs s = Some t"
  proof (induction rule: reach.induct)
    case reach_start
    have "run nxt [] s = Some s" by simp
    then show ?case by blast
  next
    case (reach_step u c t)
    then obtain cs where "run nxt cs s = Some u" by blast
    moreover have "run nxt [c] u = Some t" using reach_step by simp
    ultimately show ?case by (blast intro: run_appendI)
  qed
qed (auto intro: run_reach)

lemma reach_trans: "reach nxt s t \<Longrightarrow> reach nxt t u \<Longrightarrow> reach nxt s u"
  by (auto simp: reach_iff_run intro: run_appendI)

text \<open>A machine that another one contains, seen through \<open>f\<close>.\<close>

lemma reach_lift:
  assumes "reach nxt a b" and "\<And>c x y. nxt c x = Some y \<Longrightarrow> \<exists>d. nxt' d (f x) = Some (f y)"
  shows "reach nxt' (f a) (f b)"
  using assms(1)
proof (induction rule: reach.induct)
  case (reach_step s c t)
  then show ?case using assms(2) [of c s t] by (blast intro: reach.reach_step)
qed (rule reach.reach_start)

lemma reach_one: "nxt c s = Some t \<Longrightarrow> reach nxt s t"
  by (rule reach.reach_step [OF reach.reach_start])

text \<open>
  A run that exists and ends in a state with a given property, as an executable test: this
  is how the development exhibits concrete executions.
\<close>

definition run_to :: "('c \<Rightarrow> 's \<Rightarrow> 's option) \<Rightarrow> 'c list \<Rightarrow> 's \<Rightarrow> ('s \<Rightarrow> bool) \<Rightarrow> bool" where
  "run_to nxt cs s0 P = (case run nxt cs s0 of None \<Rightarrow> False | Some s \<Rightarrow> P s)"

lemma run_toD: "run_to nxt cs s0 P \<Longrightarrow> \<exists>s. reach nxt s0 s \<and> P s"
  by (auto simp: run_to_def split: option.splits intro: run_reach)

lemma case_Some_pairD:
  "(case x of None \<Rightarrow> False | Some (a, b) \<Rightarrow> P a b) \<Longrightarrow> \<exists>a b. x = Some (a, b) \<and> P a b"
  by (auto split: option.splits)

lemma run_single [simp]: "run nxt [c] s = nxt c s"
  by (simp split: option.splits)

lemma run_to_run: "run_to nxt cs s0 P \<Longrightarrow> \<exists>s. run nxt cs s0 = Some s \<and> P s"
  by (auto simp: run_to_def split: option.splits)

definition run_step_to ::
    "('c \<Rightarrow> 's \<Rightarrow> 's option) \<Rightarrow> 'c list \<Rightarrow> 's \<Rightarrow> ('s \<Rightarrow> bool) \<Rightarrow> 'c \<Rightarrow> ('s \<Rightarrow> bool) \<Rightarrow> bool" where
  "run_step_to nxt cs s0 P c Q = run_to nxt cs s0 (\<lambda>s. P s \<and> run_to nxt [c] s Q)"

lemma run_step_toD:
  "run_step_to nxt cs s0 P c Q \<Longrightarrow> \<exists>s t. reach nxt s0 s \<and> P s \<and> nxt c s = Some t \<and> Q t"
  by (fastforce simp: run_step_to_def run_to_def split: option.splits intro: run_reach)

text \<open>
  The contract between a machine and its safety proof: an invariant that holds initially and
  that every possible step keeps.  It then holds in every reachable state.
\<close>

locale machine =
  fixes nxt :: "'c \<Rightarrow> 's \<Rightarrow> 's option"
    and init :: 's
    and inv :: "'s \<Rightarrow> bool"
  assumes inv_init: "inv init"
    and inv_step: "inv s \<Longrightarrow> nxt c s = Some t \<Longrightarrow> inv t"
begin

lemma inv_reach: "reach nxt init s \<Longrightarrow> inv s"
  by (induction rule: reach.induct) (auto intro: inv_init inv_step)

lemma inv_run: "run nxt cs init = Some s \<Longrightarrow> inv s"
  by (rule inv_reach) (rule run_reach)

lemma inv_run_from: "inv s \<Longrightarrow> run nxt cs s = Some t \<Longrightarrow> inv t"
  by (induction cs arbitrary: s) (auto split: option.splits intro: inv_step)

end

text \<open>
  A machine that cannot run forever: every step uses up work, and before the end there is a
  step to make.  So every schedule comes to the end, whatever choices it makes.
\<close>

locale terminating_machine = machine nxt init inv
  for nxt :: "'c \<Rightarrow> 's \<Rightarrow> 's option" and init :: 's and inv :: "'s \<Rightarrow> bool" +
  fixes work :: "'s \<Rightarrow> nat"
    and final :: "'s \<Rightarrow> bool"
  assumes work_step: "inv s \<Longrightarrow> nxt c s = Some t \<Longrightarrow> work t < work s"
    and not_stuck: "inv s \<Longrightarrow> \<not> final s \<Longrightarrow> \<exists>c t. nxt c s = Some t"
begin

lemma run_bound: "inv s \<Longrightarrow> run nxt cs s = Some t \<Longrightarrow> length cs + work t \<le> work s"
proof (induction cs arbitrary: s)
  case (Cons c cs)
  then obtain u where u: "nxt c s = Some u" "run nxt cs u = Some t" by (auto split: option.splits)
  with Cons.IH [OF inv_step [OF Cons.prems(1) u(1)]] work_step [OF Cons.prems(1) u(1)] show ?case by simp
qed simp

lemma run_finishes: "inv s \<Longrightarrow> \<exists>cs t. run nxt cs s = Some t \<and> final t"
proof (induction "work s" arbitrary: s rule: less_induct)
  case less
  show ?case
  proof (cases "final s")
    case True
    then have "run nxt [] s = Some s \<and> final s" by simp
    then show ?thesis by blast
  next
    case False
    then obtain c t where t: "nxt c s = Some t" using not_stuck [OF less.prems] by blast
    obtain cs u where "run nxt cs t = Some u" "final u"
      using less.hyps [OF work_step [OF less.prems t] inv_step [OF less.prems t]] by blast
    with t have "run nxt (c # cs) s = Some u \<and> final u" by simp
    then show ?thesis by blast
  qed
qed

end

section \<open>Sums over the threads\<close>

lemma sum_keep:
  fixes f :: "nat \<Rightarrow> nat"
  assumes "\<And>u. u < T \<Longrightarrow> f' u = f u"
  shows "(\<Sum>u<T. f' u) = (\<Sum>u<T. f u)"
  using assms by (intro sum.cong) auto

lemma sum_bump:
  fixes f :: "nat \<Rightarrow> nat"
  assumes "t < T" and "f' t = Suc (f t)" and "\<And>u. u \<noteq> t \<Longrightarrow> f' u = f u"
  shows "(\<Sum>u<T. f' u) = Suc (\<Sum>u<T. f u)"
proof -
  have split: "(\<Sum>u<T. g u) = g t + (\<Sum>u \<in> {..<T} - {t}. g u)" for g :: "nat \<Rightarrow> nat"
    by (rule sum.remove) (use assms(1) in simp_all)
  have "(\<Sum>u \<in> {..<T} - {t}. f' u) = (\<Sum>u \<in> {..<T} - {t}. f u)"
    using assms(3) by (intro sum.cong) auto
  then show ?thesis using split [of f'] split [of f] assms(2) by linarith
qed

lemma sum_decrease:
  fixes f :: "nat \<Rightarrow> nat"
  assumes "t < T" and "f' t < f t" and "\<And>u. u \<noteq> t \<Longrightarrow> f' u = f u"
  shows "(\<Sum>u<T. f' u) < (\<Sum>u<T. f u)"
proof (rule sum_strict_mono_ex1)
  show "\<forall>u\<in>{..<T}. f' u \<le> f u" using assms(2,3) by (metis le_refl less_imp_le)
qed (use assms in auto)

section \<open>Machine integers of the source\<close>

type_synonym u64 = "64 word" \<comment> \<open>\<open>std::size_t\<close> and \<open>uint64_t\<close> on the 64-bit targets\<close>
type_synonym i64 = "64 word" \<comment> \<open>\<open>int64_t\<close> and \<open>long long\<close>, read with \<open>sint\<close>\<close>
type_synonym i32 = "32 word" \<comment> \<open>\<open>int\<close>, read with \<open>sint\<close>\<close>

lemma of_nat_u64_eq_iff [word_index]:
  "a < 2 ^ 64 \<Longrightarrow> b < 2 ^ 64 \<Longrightarrow> (of_nat a :: u64) = of_nat b \<longleftrightarrow> a = b"
  by (simp add: word_of_nat_eq_iff take_bit_nat_eq_self)

lemma unat_u64_less: "unat (x :: u64) < 2 ^ 64"
  using unsigned_less [of x] by simp

text \<open>
  The distance of two free-running indices, computed in wrapping 64-bit arithmetic, is the
  true distance, whatever the indices themselves have grown to.
\<close>

lemma unat_of_nat_diff_u64 [word_index]:
  assumes "b \<le> a" and "a - b < 2 ^ 64"
  shows "unat (of_nat a - of_nat b :: u64) = a - b"
proof -
  have "(of_nat a - of_nat b :: u64) = of_nat (a - b)"
    using assms(1) by simp
  then show ?thesis
    using assms(2) by (simp only: unat_of_nat) simp
qed

lemma diff_u64_eq_iff [word_index]:
  assumes "b \<le> a" and "a - b < 2 ^ 64"
  shows "(of_nat a - of_nat b :: u64) = C \<longleftrightarrow> a - b = unat C"
  using unat_of_nat_diff_u64 [OF assms] by (metis word_unat_eq_iff)

lemma of_nat_u64_eq_shift [word_index]:
  assumes "b \<le> a" and "a - b < 2 ^ 64"
  shows "(of_nat b :: u64) = of_nat a \<longleftrightarrow> a = b"
proof -
  have "(of_nat b :: u64) = of_nat a \<longleftrightarrow> (of_nat a - of_nat b :: u64) = 0"
    by auto
  also have "\<dots> \<longleftrightarrow> a - b = 0"
    using diff_u64_eq_iff [OF assms, of 0] by simp
  finally show ?thesis using assms(1) by simp
qed

section \<open>Powers of two and bit masks\<close>

lemma and_pred_nat: "n > 0 \<Longrightarrow> n AND (n - 1) = (0::nat) \<Longrightarrow> \<exists>k. n = 2 ^ k"
proof (induction n rule: less_induct)
  case (less n)
  show ?case
  proof (cases "even n")
    case True
    then obtain m where m: "n = 2 * m" by blast
    with less.prems have mpos: "m > 0" by simp
    have e: "n - 1 = 2 * (m - 1) + 1" using m mpos by simp
    have "n AND (n - 1) = 2 * (m AND (m - 1))"
      using m mpos e by (subst and_nat_unfold) auto
    with less.prems less.IH [of m] m mpos obtain k where "m = 2 ^ k" by auto
    then have "n = 2 ^ Suc k" using m by simp
    then show ?thesis by blast
  next
    case False
    then obtain m where m: "n = 2 * m + 1" by (auto elim: oddE)
    have "n AND (n - 1) = 2 * m"
      using m by (subst and_nat_unfold) auto
    with less.prems m have "n = 2 ^ 0" by simp
    then show ?thesis by blast
  qed
qed

lemma unat_and_mask: "unat ((w :: u64) AND (2 ^ k - 1)) = unat w mod 2 ^ k"
proof -
  have "w AND (2 ^ k - 1) = take_bit k w"
    by (simp add: take_bit_eq_mask mask_eq_exp_minus_1)
  then have "unat (w AND (2 ^ k - 1)) = take_bit k (unat w)"
    by (simp add: unsigned_take_bit_eq)
  then show ?thesis
    by (simp add: take_bit_eq_mod)
qed

lemma and_pred_u64_iff:
  "(C :: u64) AND (C - 1) = 0 \<longleftrightarrow> C = 0 \<or> (\<exists>k < 64. unat C = 2 ^ k)"
proof (cases "C = 0")
  case False
  have un: "unat (C AND (C - 1)) = unat C AND (unat C - 1)"
    using False by (simp add: unsigned_and_eq unat_minus_one)
  have pos: "unat C > 0" using False by (simp add: unat_gt_0)
  show ?thesis
  proof
    assume "C AND (C - 1) = 0"
    then have "unat C AND (unat C - 1) = 0" using un by simp
    then obtain k where k: "unat C = 2 ^ k" using and_pred_nat pos by blast
    then have "2 ^ k < (2::nat) ^ 64" by (metis unat_u64_less)
    then have "k < 64" by (rule power_less_imp_less_exp [rotated]) simp
    with k show "C = 0 \<or> (\<exists>k < 64. unat C = 2 ^ k)" by blast
  next
    assume "C = 0 \<or> (\<exists>k < 64. unat C = 2 ^ k)"
    then obtain k where k: "unat C = 2 ^ k" using False by blast
    have "unat C AND (unat C - 1) = take_bit k (2 ^ k)"
      by (simp add: k take_bit_eq_mask mask_eq_exp_minus_1)
    then have "unat (C AND (C - 1)) = 0" by (simp add: un)
    then show "C AND (C - 1) = 0" by (simp only: unat_eq_zero)
  qed
qed simp

end
