(* ===== verification/Cxx_Memory.thy ===== *)
theory Cxx_Memory
  imports Pipeline_Prelude
begin

text \<open>
  The part of the C++20 memory model that the sources use, as an executable operational
  semantics shared by every concurrent component: atomics with relaxed, acquire and release
  orders, compare-exchange, fetch-add, plain (non-atomic) objects with data-race detection,
  thread start and join, and \<open>std::mutex\<close>.

  Each atomic object keeps its modification order, a list of messages.  A thread's view says
  how far into each modification order it has been carried by coherence (\<open>seen\<close>) and, as
  a vector clock, which plain accesses of which thread happen before its current point
  (\<open>clock\<close>).  A load may return any message at or after the thread's \<open>seen\<close> index, so
  stale values are possible; an acquire load joins the view a release store attached to the
  message.  A plain access that is not ordered after the conflicting accesses sets \<open>race\<close>:
  the C++ program then has undefined behaviour.

  New messages are appended to the modification order.  For an object with one writing
  thread (the two indices of the queue) coherence forces that; for the others it restricts
  modification orders to those that agree with the interleaving.  Fences, consume and
  sequentially consistent orders do not occur in the sources and are left out.
\<close>

section \<open>Views\<close>

type_synonym tid = nat

datatype memory_order = Relaxed | Acquire | Release

record 'a view =
  seen :: "'a \<Rightarrow> nat"
  clock :: "tid \<Rightarrow> nat"

definition vbot :: "'a view" where
  "vbot = \<lparr>seen = (\<lambda>_. 0), clock = (\<lambda>_. 0)\<rparr>"

definition vjoin :: "'a view \<Rightarrow> 'a view \<Rightarrow> 'a view" where
  "vjoin v w = \<lparr>seen = (\<lambda>a. max (seen v a) (seen w a)), clock = (\<lambda>i. max (clock v i) (clock w i))\<rparr>"

definition see :: "'a \<Rightarrow> nat \<Rightarrow> 'a view \<Rightarrow> 'a view" where
  "see a k v = v\<lparr>seen := (seen v)(a := k)\<rparr>"

definition tick :: "tid \<Rightarrow> 'a view \<Rightarrow> 'a view" where
  "tick i v = v\<lparr>clock := (clock v)(i := Suc (clock v i))\<rparr>"

lemma view_simps [simp]:
  "seen vbot a = 0" "clock vbot i = 0"
  "seen (vjoin v w) a = max (seen v a) (seen w a)"
  "clock (vjoin v w) i = max (clock v i) (clock w i)"
  "seen (see a k v) b = (if b = a then k else seen v b)"
  "clock (see a k v) i = clock v i"
  "seen (tick j v) a = seen v a"
  "clock (tick j v) i = (if i = j then Suc (clock v i) else clock v i)"
  by (simp_all add: vbot_def vjoin_def see_def tick_def)

section \<open>Memory\<close>

record ('v, 'a) message =
  mval :: 'v
  mview :: "'a view"

record ('v, 'a, 'w, 'n) memory =
  hist :: "'a \<Rightarrow> ('v, 'a) message list"
  tview :: "tid \<Rightarrow> 'a view"
  cell :: "'n \<Rightarrow> 'w"
  wrote :: "'n \<Rightarrow> tid \<times> nat"
  reads :: "'n \<Rightarrow> (tid \<times> nat) list"
  race :: bool

text \<open>
  Initialisation happens before every thread of the program starts: one message for each
  atomic, and plain objects whose initialising write is ordered before everything.
\<close>

definition mem_init :: "('a \<Rightarrow> 'v) \<Rightarrow> ('n \<Rightarrow> 'w) \<Rightarrow> ('v, 'a, 'w, 'n) memory" where
  "mem_init a0 c0 =
     \<lparr>hist = (\<lambda>a. [\<lparr>mval = a0 a, mview = vbot\<rparr>]), tview = (\<lambda>_. vbot), cell = c0,
      wrote = (\<lambda>_. (0, 0)), reads = (\<lambda>_. []), race = False\<rparr>"

definition set_tview :: "tid \<Rightarrow> 'a view \<Rightarrow> ('v, 'a, 'w, 'n) memory \<Rightarrow> ('v, 'a, 'w, 'n) memory" where
  "set_tview i v m = m\<lparr>tview := (tview m)(i := v)\<rparr>"

text \<open>\<open>a.load(mo)\<close> by thread \<open>i\<close>; \<open>k\<close> chooses the message it reads.\<close>

definition a_load :: "memory_order \<Rightarrow> tid \<Rightarrow> 'a \<Rightarrow> nat \<Rightarrow> ('v, 'a, 'w, 'n) memory
    \<Rightarrow> ('v \<times> ('v, 'a, 'w, 'n) memory) option" where
  "a_load mo i a k m =
     (if seen (tview m i) a \<le> k \<and> k < length (hist m a) then
        let msg = hist m a ! k;
            v = see a k (tview m i)
        in Some (mval msg, set_tview i (if mo = Acquire then vjoin v (mview msg) else v) m)
      else None)"

text \<open>\<open>a.store(x, mo)\<close>.\<close>

definition a_store :: "memory_order \<Rightarrow> tid \<Rightarrow> 'a \<Rightarrow> 'v \<Rightarrow> ('v, 'a, 'w, 'n) memory
    \<Rightarrow> ('v, 'a, 'w, 'n) memory" where
  "a_store mo i a x m =
     (let v = see a (length (hist m a)) (tview m i);
          msg = \<lparr>mval = x, mview = (if mo = Release then v else vbot)\<rparr>
      in (set_tview i v m)\<lparr>hist := (hist m)(a := hist m a @ [msg])\<rparr>)"

text \<open>
  An atomic read-modify-write: it reads the last message and its own message follows
  immediately; a release sequence headed by the message it read continues through it.
\<close>

definition a_rmw :: "memory_order \<Rightarrow> tid \<Rightarrow> 'a \<Rightarrow> ('v \<Rightarrow> 'v) \<Rightarrow> ('v, 'a, 'w, 'n) memory
    \<Rightarrow> 'v \<times> ('v, 'a, 'w, 'n) memory" where
  "a_rmw mo i a f m =
     (let old = last (hist m a);
          v0 = (if mo = Acquire then vjoin (tview m i) (mview old) else tview m i);
          v = see a (length (hist m a)) v0;
          w = (if mo = Release then vjoin v (mview old) else mview old);
          msg = \<lparr>mval = f (mval old), mview = w\<rparr>
      in (mval old, (set_tview i v m)\<lparr>hist := (hist m)(a := hist m a @ [msg])\<rparr>))"

text \<open>\<open>a.fetch_add(n, mo)\<close>.\<close>

definition a_fetch_add :: "memory_order \<Rightarrow> tid \<Rightarrow> 'a \<Rightarrow> 'v :: plus \<Rightarrow> ('v, 'a, 'w, 'n) memory
    \<Rightarrow> 'v \<times> ('v, 'a, 'w, 'n) memory" where
  "a_fetch_add mo i a n m = a_rmw mo i a (\<lambda>x. x + n) m"

text \<open>
  \<open>a.compare_exchange_weak/strong(expected, desired, success, failure)\<close>.  The choice says
  whether it succeeds (possible only if the last message holds the expected value) or fails
  reading message \<open>k\<close>: the strong form only on a value other than the expected one, the
  weak form also spuriously.  The result is the returned flag, the value \<open>expected\<close> holds
  afterwards, and the memory.
\<close>

datatype cas_choice = Cas_Succeed | Cas_Fail nat

definition a_cas :: "bool \<Rightarrow> memory_order \<Rightarrow> memory_order \<Rightarrow> tid \<Rightarrow> 'a \<Rightarrow> 'v \<Rightarrow> 'v \<Rightarrow> cas_choice
    \<Rightarrow> ('v, 'a, 'w, 'n) memory \<Rightarrow> (bool \<times> 'v \<times> ('v, 'a, 'w, 'n) memory) option" where
  "a_cas weak success failure i a expected desired ch m =
     (case ch of
        Cas_Succeed \<Rightarrow>
          (if mval (last (hist m a)) = expected
           then Some (True, expected, snd (a_rmw success i a (\<lambda>_. desired) m)) else None)
      | Cas_Fail k \<Rightarrow>
          (case a_load failure i a k m of
             None \<Rightarrow> None
           | Some (v, m') \<Rightarrow> if weak \<or> v \<noteq> expected then Some (False, v, m') else None))"

text \<open>
  Plain accesses.  A read must be ordered after the last write; a write also after all the
  reads since.  Each access advances the thread's own clock, which identifies it.
\<close>

definition ordered :: "'a view \<Rightarrow> tid \<times> nat \<Rightarrow> bool" where
  "ordered v e \<longleftrightarrow> snd e \<le> clock v (fst e)"

definition na_read :: "tid \<Rightarrow> 'n \<Rightarrow> ('v, 'a, 'w, 'n) memory \<Rightarrow> 'w \<times> ('v, 'a, 'w, 'n) memory" where
  "na_read i x m =
     (let v = tick i (tview m i) in
      (cell m x,
       (set_tview i v m)\<lparr>reads := (reads m)(x := (i, clock v i) # reads m x),
          race := race m \<or> \<not> ordered (tview m i) (wrote m x)\<rparr>))"

definition na_write :: "tid \<Rightarrow> 'n \<Rightarrow> 'w \<Rightarrow> ('v, 'a, 'w, 'n) memory \<Rightarrow> ('v, 'a, 'w, 'n) memory" where
  "na_write i x y m =
     (let v = tick i (tview m i) in
      (set_tview i v m)\<lparr>cell := (cell m)(x := y), wrote := (wrote m)(x := (i, clock v i)),
          reads := (reads m)(x := []),
          race := race m \<or> \<not> (ordered (tview m i) (wrote m x)
                              \<and> list_all (ordered (tview m i)) (reads m x))\<rparr>)"

text \<open>
  \<open>std::thread\<close>: the constructor orders the parent before the child, \<open>join\<close> the child
  before the continuation of the parent.
\<close>

definition t_start :: "tid \<Rightarrow> tid \<Rightarrow> ('v, 'a, 'w, 'n) memory \<Rightarrow> ('v, 'a, 'w, 'n) memory" where
  "t_start parent child m = set_tview child (vjoin (tview m child) (tview m parent)) m"

definition t_join :: "tid \<Rightarrow> tid \<Rightarrow> ('v, 'a, 'w, 'n) memory \<Rightarrow> ('v, 'a, 'w, 'n) memory" where
  "t_join parent child m = set_tview parent (vjoin (tview m parent) (tview m child)) m"

section \<open>Well-formed memories\<close>

text \<open>
  Every view points into the modification orders, and no thread or message knows more
  accesses of a thread than that thread has made.
\<close>

definition view_ok :: "('v, 'a, 'w, 'n) memory \<Rightarrow> 'a view \<Rightarrow> bool" where
  "view_ok m v \<longleftrightarrow>
     (\<forall>a. seen v a < length (hist m a)) \<and> (\<forall>j. clock v j \<le> clock (tview m j) j)"

definition mem_ok :: "('v, 'a, 'w, 'n) memory \<Rightarrow> bool" where
  "mem_ok m \<longleftrightarrow>
     (\<forall>i. view_ok m (tview m i)) \<and> (\<forall>a. \<forall>msg \<in> set (hist m a). view_ok m (mview msg))"

text \<open>
  Every operation only extends: modification orders get longer and clocks advance, so a view
  that was well formed stays so.
\<close>

definition mem_extends :: "('v, 'a, 'w, 'n) memory \<Rightarrow> ('v, 'a, 'w, 'n) memory \<Rightarrow> bool" where
  "mem_extends m m' \<longleftrightarrow>
     (\<forall>a. length (hist m a) \<le> length (hist m' a)) \<and>
     (\<forall>j. clock (tview m j) j \<le> clock (tview m' j) j)"

lemma view_ok_extends: "mem_extends m m' \<Longrightarrow> view_ok m v \<Longrightarrow> view_ok m' v"
  unfolding mem_extends_def view_ok_def by (meson le_trans less_le_trans)

lemma view_ok_vjoin: "view_ok m v \<Longrightarrow> view_ok m w \<Longrightarrow> view_ok m (vjoin v w)"
  by (simp add: view_ok_def)

lemma view_ok_see: "view_ok m v \<Longrightarrow> k < length (hist m a) \<Longrightarrow> view_ok m (see a k v)"
  by (simp add: view_ok_def)

lemma mem_okI:
  assumes "\<And>i. view_ok m (tview m i)"
    and "\<And>a msg. msg \<in> set (hist m a) \<Longrightarrow> view_ok m (mview msg)"
  shows "mem_ok m"
  using assms by (simp add: mem_ok_def)

lemma mem_ok_tview: "mem_ok m \<Longrightarrow> view_ok m (tview m i)"
  by (simp add: mem_ok_def)

lemma mem_ok_message: "mem_ok m \<Longrightarrow> msg \<in> set (hist m a) \<Longrightarrow> view_ok m (mview msg)"
  by (auto simp: mem_ok_def)

lemma mem_ok_hist: "mem_ok m \<Longrightarrow> hist m a \<noteq> []"
  using mem_ok_tview [of m 0] unfolding view_ok_def by (metis less_zeroE list.size(3))

lemma mem_ok_init: "mem_ok (mem_init a0 c0)"
  by (rule mem_okI) (simp_all add: mem_init_def view_ok_def)

section \<open>What each operation does\<close>

lemma set_tview_simps [simp]:
  "hist (set_tview i v m) = hist m" "cell (set_tview i v m) = cell m"
  "wrote (set_tview i v m) = wrote m" "reads (set_tview i v m) = reads m"
  "race (set_tview i v m) = race m"
  "tview (set_tview i v m) j = (if j = i then v else tview m j)"
  by (simp_all add: set_tview_def)

lemma mem_init_simps [simp]:
  "hist (mem_init a0 c0) a = [\<lparr>mval = a0 a, mview = vbot\<rparr>]"
  "tview (mem_init a0 c0) i = vbot" "cell (mem_init a0 c0) x = c0 x"
  "wrote (mem_init a0 c0) x = (0, 0)" "reads (mem_init a0 c0) x = []"
  "race (mem_init a0 c0) = False"
  by (simp_all add: mem_init_def)

lemma a_load_Some:
  "a_load mo i a k m = Some (x, m') \<longleftrightarrow>
     seen (tview m i) a \<le> k \<and> k < length (hist m a) \<and> x = mval (hist m a ! k) \<and>
     m' = set_tview i (if mo = Acquire then vjoin (see a k (tview m i)) (mview (hist m a ! k))
                       else see a k (tview m i)) m"
  by (auto simp: a_load_def Let_def)

text \<open>
  A load by the only thread that has seen the newest message returns it: the source's relaxed
  loads of an index by the thread that owns it.
\<close>

lemma a_load_newest:
  assumes "a_load mo i a k m = Some (x, m')" and "Suc (seen (tview m i) a) = length (hist m a)"
  shows "k = seen (tview m i) a"
  using assms by (auto simp: a_load_Some)

lemma a_store_simps [simp]:
  "hist (a_store mo i a x m) b =
     (if b = a
      then hist m a @ [\<lparr>mval = x, mview =
              (if mo = Release then see a (length (hist m a)) (tview m i) else vbot)\<rparr>]
      else hist m b)"
  "tview (a_store mo i a x m) j =
     (if j = i then see a (length (hist m a)) (tview m i) else tview m j)"
  "cell (a_store mo i a x m) = cell m" "wrote (a_store mo i a x m) = wrote m"
  "reads (a_store mo i a x m) = reads m" "race (a_store mo i a x m) = race m"
  by (simp_all add: a_store_def Let_def)

lemma na_write_simps [simp]:
  "hist (na_write i x y m) = hist m"
  "tview (na_write i x y m) j = (if j = i then tick i (tview m i) else tview m j)"
  "cell (na_write i x y m) = (cell m)(x := y)"
  "wrote (na_write i x y m) = (wrote m)(x := (i, Suc (clock (tview m i) i)))"
  "reads (na_write i x y m) = (reads m)(x := [])"
  "race (na_write i x y m) \<longleftrightarrow> race m \<or> \<not> (ordered (tview m i) (wrote m x)
      \<and> list_all (ordered (tview m i)) (reads m x))"
  by (simp_all add: na_write_def Let_def)

lemma na_read_simps [simp]:
  "fst (na_read i x m) = cell m x"
  "hist (snd (na_read i x m)) = hist m"
  "tview (snd (na_read i x m)) j = (if j = i then tick i (tview m i) else tview m j)"
  "cell (snd (na_read i x m)) = cell m" "wrote (snd (na_read i x m)) = wrote m"
  "reads (snd (na_read i x m)) = (reads m)(x := (i, Suc (clock (tview m i) i)) # reads m x)"
  "race (snd (na_read i x m)) \<longleftrightarrow> race m \<or> \<not> ordered (tview m i) (wrote m x)"
  by (simp_all add: na_read_def Let_def)

lemma a_rmw_simps [simp]:
  "fst (a_rmw mo i a f m) = mval (last (hist m a))"
  "hist (snd (a_rmw mo i a f m)) b =
     (if b = a then hist m a @ [\<lparr>mval = f (mval (last (hist m a))), mview =
        (if mo = Release
         then vjoin (see a (length (hist m a)) (tview m i)) (mview (last (hist m a)))
         else mview (last (hist m a)))\<rparr>]
      else hist m b)"
  "tview (snd (a_rmw mo i a f m)) j =
     (if j = i
      then see a (length (hist m a))
             (if mo = Acquire then vjoin (tview m i) (mview (last (hist m a))) else tview m i)
      else tview m j)"
  "cell (snd (a_rmw mo i a f m)) = cell m" "wrote (snd (a_rmw mo i a f m)) = wrote m"
  "reads (snd (a_rmw mo i a f m)) = reads m" "race (snd (a_rmw mo i a f m)) = race m"
  by (cases mo; simp add: a_rmw_def Let_def)+

section \<open>Every operation keeps memories well formed\<close>

lemma set_tview_ok:
  assumes "mem_ok m" and "view_ok m v" and "clock (tview m i) i \<le> clock v i"
  shows "mem_ok (set_tview i v m)"
proof (rule mem_okI)
  have ext: "mem_extends m (set_tview i v m)"
    using assms(3) by (simp add: mem_extends_def)
  show "view_ok (set_tview i v m) (tview (set_tview i v m) j)" for j
    using assms mem_ok_tview [OF assms(1)] by (auto intro: view_ok_extends [OF ext])
  show "view_ok (set_tview i v m) (mview msg)" if "msg \<in> set (hist (set_tview i v m) a)" for a msg
    using that mem_ok_message [OF assms(1)] by (auto intro: view_ok_extends [OF ext])
qed

lemma a_load_ok:
  assumes "mem_ok m" and "a_load mo i a k m = Some (x, m')"
  shows "mem_ok m'"
proof -
  from assms(2) have k: "k < length (hist m a)"
    and m': "m' = set_tview i (if mo = Acquire
        then vjoin (see a k (tview m i)) (mview (hist m a ! k)) else see a k (tview m i)) m"
    by (simp_all add: a_load_Some)
  have "view_ok m (mview (hist m a ! k))" "view_ok m (see a k (tview m i))"
    using mem_ok_message [OF assms(1) nth_mem [OF k]] mem_ok_tview [OF assms(1)] k
    by (simp_all add: view_ok_see)
  then show ?thesis
    unfolding m' by (intro set_tview_ok [OF assms(1)]) (simp_all add: view_ok_vjoin)
qed

text \<open>Appending a message: both the new view of the thread and the message may point to it.\<close>

definition bounded_view :: "('v, 'a, 'w, 'n) memory \<Rightarrow> 'a \<Rightarrow> tid \<Rightarrow> nat \<Rightarrow> 'a view \<Rightarrow> bool" where
  "bounded_view m a i n v \<longleftrightarrow>
     (\<forall>b. b \<noteq> a \<longrightarrow> seen v b < length (hist m b)) \<and> seen v a \<le> length (hist m a) \<and>
     (\<forall>j. j \<noteq> i \<longrightarrow> clock v j \<le> clock (tview m j) j) \<and> clock v i \<le> n"

lemma view_ok_bounded:
  "view_ok m v \<Longrightarrow> clock (tview m i) i \<le> n \<Longrightarrow> bounded_view m a i n v"
  unfolding view_ok_def bounded_view_def by (auto intro: less_imp_le order_trans)

lemma bounded_view_see:
  "bounded_view m a i n v \<Longrightarrow> k \<le> length (hist m a) \<Longrightarrow> bounded_view m a i n (see a k v)"
  by (auto simp: bounded_view_def)

lemma bounded_view_vjoin:
  "bounded_view m a i n v \<Longrightarrow> bounded_view m a i n w \<Longrightarrow> bounded_view m a i n (vjoin v w)"
  by (simp add: bounded_view_def)

lemma append_message_ok:
  assumes "mem_ok m" and "bounded_view m a i (clock v i) v" and "bounded_view m a i (clock v i) (mview msg)"
    and "clock (tview m i) i \<le> clock v i"
  shows "mem_ok ((set_tview i v m)\<lparr>hist := (hist m)(a := hist m a @ [msg])\<rparr>)" (is "mem_ok ?m")
proof (rule mem_okI)
  have ext: "mem_extends m ?m"
    using assms(4) by (simp add: mem_extends_def)
  have new: "view_ok ?m v" "view_ok ?m (mview msg)"
    using assms(2,3) by (auto simp: view_ok_def bounded_view_def less_Suc_eq_le)
  show "view_ok ?m (tview ?m j)" for j
    using new mem_ok_tview [OF assms(1), of j] by (auto intro: view_ok_extends [OF ext])
  show "view_ok ?m (mview c)" if "c \<in> set (hist ?m b)" for b c
    using that new mem_ok_message [OF assms(1), of c b]
    by (auto split: if_splits intro: view_ok_extends [OF ext])
qed

lemma vbot_bounded: "mem_ok m \<Longrightarrow> bounded_view m a i n vbot"
  by (simp add: bounded_view_def mem_ok_hist)

lemma a_store_ok:
  assumes "mem_ok m"
  shows "mem_ok (a_store mo i a x m)"
proof -
  have "bounded_view m a i (clock (tview m i) i) (tview m i)"
    by (rule view_ok_bounded [OF mem_ok_tview [OF assms]]) simp
  then show ?thesis
    unfolding a_store_def Let_def
    by (intro append_message_ok [OF assms])
      (simp_all add: bounded_view_see vbot_bounded [OF assms])
qed

lemma a_rmw_ok:
  assumes "mem_ok m"
  shows "mem_ok (snd (a_rmw mo i a f m))"
proof -
  let ?old = "mview (last (hist m a))"
  have "last (hist m a) \<in> set (hist m a)"
    using mem_ok_hist [OF assms] by simp
  then have vo: "view_ok m ?old" "view_ok m (tview m i)"
    using mem_ok_message [OF assms] mem_ok_tview [OF assms] by blast+
  have cl: "clock (vjoin (tview m i) ?old) i = clock (tview m i) i"
    using vo(1) by (simp add: view_ok_def max_absorb1)
  have b: "bounded_view m a i (clock (tview m i) i) ?old"
    "bounded_view m a i (clock (tview m i) i) (tview m i)"
    using vo by (simp_all add: view_ok_bounded)
  show ?thesis
    unfolding a_rmw_def Let_def snd_conv
    by (intro append_message_ok [OF assms])
      (cases mo; use b cl in \<open>simp add: bounded_view_see bounded_view_vjoin\<close>)+
qed

lemma a_fetch_add_ok: "mem_ok m \<Longrightarrow> mem_ok (snd (a_fetch_add mo i a n m))"
  by (simp add: a_fetch_add_def a_rmw_ok)

lemma a_cas_ok:
  assumes "mem_ok m" and "a_cas weak mos mof i a e d ch m = Some (b, v, m')"
  shows "mem_ok m'"
  using assms
  by (auto simp: a_cas_def a_rmw_ok a_load_ok split: cas_choice.splits if_splits option.splits)

lemma plain_access_ok:
  fixes m m' :: "('v, 'a, 'w, 'n) memory"
  assumes "mem_ok m" and "hist m' = hist m"
    and "\<And>j. tview m' j = (if j = i then tick i (tview m i) else tview m j)"
  shows "mem_ok m'"
proof (rule mem_okI)
  have ext: "mem_extends m m'"
    using assms(2,3) by (simp add: mem_extends_def)
  show "view_ok m' (tview m' j)" for j
    using mem_ok_tview [OF assms(1), of j] assms(2,3) by (auto simp: view_ok_def le_SucI)
  show "view_ok m' (mview msg)" if "msg \<in> set (hist m' a)" for a msg
    using that assms(2) mem_ok_message [OF assms(1)] by (auto intro: view_ok_extends [OF ext])
qed

lemma na_read_ok: "mem_ok m \<Longrightarrow> mem_ok (snd (na_read i x m))"
  by (rule plain_access_ok [where i = i and m = m]) simp_all

lemma na_write_ok: "mem_ok m \<Longrightarrow> mem_ok (na_write i x y m)"
  by (rule plain_access_ok [where i = i and m = m]) simp_all

lemma t_start_ok: "mem_ok m \<Longrightarrow> mem_ok (t_start p c m)"
  unfolding t_start_def by (rule set_tview_ok) (simp_all add: view_ok_vjoin mem_ok_tview)

lemma t_join_ok: "mem_ok m \<Longrightarrow> mem_ok (t_join p c m)"
  unfolding t_join_def by (rule set_tview_ok) (simp_all add: view_ok_vjoin mem_ok_tview)

lemmas memory_ok =
  mem_ok_init a_load_ok a_store_ok a_rmw_ok a_fetch_add_ok a_cas_ok na_read_ok na_write_ok
  t_start_ok t_join_ok

section \<open>What a load brings\<close>

text \<open>
  The facts a client needs of one load: it changes only the reading thread's view, and only
  forwards; an acquire load brings in everything the message's writer knew when it released.
\<close>

lemma view_clock_le: "mem_ok m \<Longrightarrow> k < length (hist m a) \<Longrightarrow>
    clock (mview (hist m a ! k)) j \<le> clock (tview m j) j"
  by (meson mem_ok_message nth_mem view_ok_def)

lemma load_view:
  assumes "mem_ok m" and "a_load mo i a k m = Some (x, m')"
  shows "hist m' = hist m" "cell m' = cell m" "wrote m' = wrote m" "reads m' = reads m"
    "race m' = race m" "j \<noteq> i \<Longrightarrow> tview m' j = tview m j"
    "clock (tview m' i) i = clock (tview m i) i"
    "clock (tview m i) j \<le> clock (tview m' i) j"
    "seen (tview m i) b \<le> seen (tview m' i) b"
    "seen (tview m' i) b < length (hist m b)"
    "k \<le> seen (tview m' i) a" "k < length (hist m a)" "seen (tview m i) a \<le> k"
    "x = mval (hist m a ! k)" "mem_ok m'"
    "mo = Acquire \<Longrightarrow> clock (mview (hist m a ! k)) j \<le> clock (tview m' i) j"
  using assms(2) view_clock_le [OF assms(1), of k a i] mem_ok_tview [OF a_load_ok [OF assms], of i]
    a_load_ok [OF assms]
  by (auto simp: a_load_Some view_ok_def)

lemma a_cas_cases:
  assumes "a_cas weak success failure i a expected desired ch m = Some (b, v, m')"
  obtains (succeed) "b" "mval (last (hist m a)) = expected" "m' = snd (a_rmw success i a (\<lambda>_. desired) m)"
    | (fail) k where "\<not> b" "a_load failure i a k m = Some (v, m')"
  using assms by (auto simp: a_cas_def split: cas_choice.splits option.splits if_splits)

lemma cas_view:
  assumes "mem_ok m" and "a_cas weak success failure i a expected desired ch m = Some (b, v, m')"
  shows "cell m' = cell m" "wrote m' = wrote m" "reads m' = reads m" "race m' = race m"
    "j \<noteq> i \<Longrightarrow> tview m' j = tview m j" "clock (tview m j) j \<le> clock (tview m' j) j" "mem_ok m'"
proof -
  show "mem_ok m'" by (rule a_cas_ok [OF assms])
  from assms(2) have "cell m' = cell m \<and> wrote m' = wrote m \<and> reads m' = reads m \<and> race m' = race m \<and>
      (j \<noteq> i \<longrightarrow> tview m' j = tview m j) \<and> clock (tview m j) j \<le> clock (tview m' j) j"
  proof (cases rule: a_cas_cases)
    case succeed
    then show ?thesis by simp
  next
    case (fail k)
    note l = load_view [OF assms(1) fail(2)]
    then show ?thesis by (cases "j = i") simp_all
  qed
  then show "cell m' = cell m" "wrote m' = wrote m" "reads m' = reads m" "race m' = race m"
    "j \<noteq> i \<Longrightarrow> tview m' j = tview m j" "clock (tview m j) j \<le> clock (tview m' j) j" by simp_all
qed

section \<open>Knowing all accesses\<close>

text \<open>
  A view knows a memory if it is ordered after every recorded plain access: a thread with such
  a view can access anything without a race.  This is what a lock hands from holder to holder.
\<close>

definition accesses :: "('v, 'a, 'w, 'n) memory \<Rightarrow> (tid \<times> nat) set" where
  "accesses m = (\<Union>x. insert (wrote m x) (set (reads m x)))"

definition knows :: "('v, 'a, 'w, 'n) memory \<Rightarrow> 'a view \<Rightarrow> bool" where
  "knows m v \<longleftrightarrow> (\<forall>e \<in> accesses m. ordered v e)"

lemma accesses_same: "wrote m' = wrote m \<Longrightarrow> reads m' = reads m \<Longrightarrow> accesses m' = accesses m"
  unfolding accesses_def by (simp only:)

lemma accesses_init: "accesses (mem_init a0 c0) = {(0, 0)}"
  by (auto simp: accesses_def)

lemma accesses_na_read: "accesses (snd (na_read i x m)) \<subseteq> insert (i, Suc (clock (tview m i) i)) (accesses m)"
  by (auto simp: accesses_def split: if_splits)

lemma accesses_na_write: "accesses (na_write i x y m) \<subseteq> insert (i, Suc (clock (tview m i) i)) (accesses m)"
  by (auto simp: accesses_def split: if_splits)

lemma ordered_mono: "ordered v e \<Longrightarrow> (\<And>j. clock v j \<le> clock w j) \<Longrightarrow> ordered w e"
  unfolding ordered_def by (meson le_trans)

lemma knows_mono: "knows m v \<Longrightarrow> (\<And>j. clock v j \<le> clock w j) \<Longrightarrow> knows m w"
  unfolding knows_def by (blast intro: ordered_mono)

lemma knows_same: "wrote m' = wrote m \<Longrightarrow> reads m' = reads m \<Longrightarrow> knows m' v = knows m v"
  using accesses_same [of m' m] by (simp add: knows_def)

lemma knows_init: "knows (mem_init a0 c0) v"
  unfolding knows_def accesses_init by (simp add: ordered_def)

lemma knows_tick:
  assumes "knows m (tview m i)" and "accesses m' \<subseteq> insert (i, Suc (clock (tview m i) i)) (accesses m)"
  shows "knows m' (tick i (tview m i))"
proof -
  have "ordered (tick i (tview m i)) e" if "e \<in> accesses m" for e
    using assms(1) that by (auto simp: knows_def ordered_def intro: le_SucI)
  moreover have "ordered (tick i (tview m i)) (i, Suc (clock (tview m i) i))"
    by (simp add: ordered_def)
  ultimately show ?thesis using assms(2) by (auto simp: knows_def)
qed

lemmas knows_na_read = knows_tick [OF _ accesses_na_read]
lemmas knows_na_write = knows_tick [OF _ accesses_na_write]

lemma knows_no_race:
  assumes "knows m (tview m i)"
  shows "race (snd (na_read i x m)) = race m" and "race (na_write i x y m) = race m"
proof -
  have "wrote m x \<in> accesses m" "set (reads m x) \<subseteq> accesses m" by (auto simp: accesses_def)
  with assms have "ordered (tview m i) (wrote m x)" "list_all (ordered (tview m i)) (reads m x)"
    by (auto simp: knows_def list_all_iff)
  then show "race (snd (na_read i x m)) = race m" "race (na_write i x y m) = race m" by simp_all
qed

text \<open>
  Every recorded access was made by its thread before that thread's present: so a thread that
  has joined all threads that made accesses knows the memory.
\<close>

definition made_by :: "tid set \<Rightarrow> ('v, 'a, 'w, 'n) memory \<Rightarrow> bool" where
  "made_by I m \<longleftrightarrow>
     (\<forall>(i, e) \<in> accesses m. e = 0 \<or> i \<in> I \<and> e \<le> clock (tview m i) i)"

lemma made_by_init: "made_by I (mem_init a0 c0)"
  by (simp add: made_by_def accesses_init)

lemma made_by_knows: "made_by I m \<Longrightarrow> (\<And>j. j \<in> I \<Longrightarrow> clock (tview m j) j \<le> clock v j) \<Longrightarrow> knows m v"
  unfolding made_by_def knows_def ordered_def by (fastforce intro: le_trans)

lemma made_by_extends:
  assumes "made_by I m" and "accesses m' \<subseteq> accesses m" and "\<And>j. clock (tview m j) j \<le> clock (tview m' j) j"
  shows "made_by I m'"
  using assms(1,2) le_trans [OF _ assms(3)] unfolding made_by_def by blast

lemma made_by_tick:
  assumes "made_by I m" and "i \<in> I" and "accesses m' \<subseteq> insert (i, Suc (clock (tview m i) i)) (accesses m)"
    and "\<And>j. tview m' j = (if j = i then tick i (tview m i) else tview m j)"
  shows "made_by I m'"
  unfolding made_by_def
proof (intro ballI, clarify)
  fix j e assume je: "(j, e) \<in> accesses m'" and no: "\<not> (j \<in> I \<and> e \<le> clock (tview m' j) j)"
  show "e = 0"
  proof (cases "(j, e) = (i, Suc (clock (tview m i) i))")
    case True
    with no assms(2,4) show ?thesis by simp
  next
    case False
    with je assms(3) have "(j, e) \<in> accesses m" by blast
    with assms(1) have "e = 0 \<or> j \<in> I \<and> e \<le> clock (tview m j) j" by (auto simp: made_by_def)
    with no assms(4) show ?thesis by (auto split: if_splits)
  qed
qed

lemma made_by_na_read: "made_by I m \<Longrightarrow> i \<in> I \<Longrightarrow> made_by I (snd (na_read i x m))"
  by (erule made_by_tick [OF _ _ accesses_na_read]) simp_all

lemma made_by_na_write: "made_by I m \<Longrightarrow> i \<in> I \<Longrightarrow> made_by I (na_write i x y m)"
  by (erule made_by_tick [OF _ _ accesses_na_write]) simp_all

lemma t_join_simps [simp]:
  "hist (t_join p c m) = hist m" "cell (t_join p c m) = cell m" "wrote (t_join p c m) = wrote m"
  "reads (t_join p c m) = reads m" "race (t_join p c m) = race m"
  "tview (t_join p c m) i = (if i = p then vjoin (tview m p) (tview m c) else tview m i)"
  by (simp_all add: t_join_def)

lemma t_start_simps [simp]:
  "hist (t_start p c m) = hist m" "cell (t_start p c m) = cell m" "wrote (t_start p c m) = wrote m"
  "reads (t_start p c m) = reads m" "race (t_start p c m) = race m"
  "tview (t_start p c m) i = (if i = c then vjoin (tview m c) (tview m p) else tview m i)"
  by (simp_all add: t_start_def)

section \<open>Mutexes\<close>

text \<open>
  \<open>std::mutex\<close>: at most one owner, and each unlock is ordered before the next lock.  A
  thread that finds it owned is blocked: it has no step.
\<close>

record 'a mutex =
  owner :: "tid option"
  released :: "'a view"

definition mutex_init :: "'a mutex" where
  "mutex_init = \<lparr>owner = None, released = vbot\<rparr>"

definition m_lock :: "tid \<Rightarrow> 'a mutex \<Rightarrow> ('v, 'a, 'w, 'n) memory
    \<Rightarrow> ('a mutex \<times> ('v, 'a, 'w, 'n) memory) option" where
  "m_lock i l m =
     (if owner l = None
      then Some (l\<lparr>owner := Some i\<rparr>, set_tview i (vjoin (tview m i) (released l)) m) else None)"

definition m_unlock :: "tid \<Rightarrow> 'a mutex \<Rightarrow> ('v, 'a, 'w, 'n) memory \<Rightarrow> 'a mutex" where
  "m_unlock i l m = l\<lparr>owner := None, released := tview m i\<rparr>"

lemma m_lock_ok: "mem_ok m \<Longrightarrow> view_ok m (released l) \<Longrightarrow> m_lock i l m = Some (l', m') \<Longrightarrow> mem_ok m'"
  by (auto simp: m_lock_def view_ok_vjoin mem_ok_tview intro!: set_tview_ok split: if_splits)

end
