(* ===== verification/Bounded_Fifo.thy ===== *)
theory Bounded_Fifo
  imports Pipeline_Prelude
begin

text \<open>
  The contract of a bounded first-in first-out queue, as the benchmark code uses one: the
  template parameter \<open>Queue\<close> of \<open>bench/spsc_head_to_head.cpp\<close> is any type with the two
  members \<open>try_push(const T&) -> bool\<close> and \<open>try_pop(T&) -> bool\<close>.  \<open>try_pop\<close> takes
  the variable its reference argument names and gives it back, changed only on success.
  The locale states what a provider promises over the list of queued items; the lemmas in
  it are what a client may conclude.
\<close>

locale bounded_fifo =
  fixes push :: "'a \<Rightarrow> 'q \<Rightarrow> bool \<times> 'q"
    and pop :: "'a \<Rightarrow> 'q \<Rightarrow> bool \<times> 'a \<times> 'q"
    and items :: "'q \<Rightarrow> 'a list"
    and ok :: "'q \<Rightarrow> bool"
    and limit :: nat
  assumes items_limit: "ok q \<Longrightarrow> length (items q) \<le> limit"
    and push_ok: "ok q \<Longrightarrow> ok (snd (push x q))"
    and push_ret: "ok q \<Longrightarrow> fst (push x q) \<longleftrightarrow> length (items q) < limit"
    and push_items: "ok q \<Longrightarrow>
          items (snd (push x q)) = (if fst (push x q) then items q @ [x] else items q)"
    and pop_ok: "ok q \<Longrightarrow> ok (snd (snd (pop y q)))"
    and pop_ret: "ok q \<Longrightarrow> fst (pop y q) \<longleftrightarrow> items q \<noteq> []"
    and pop_items: "ok q \<Longrightarrow>
          (if fst (pop y q) then fst (snd (pop y q)) # items (snd (snd (pop y q))) = items q
           else fst (snd (pop y q)) = y \<and> items (snd (snd (pop y q))) = items q)"

section \<open>The queue as a labelled transition system\<close>

text \<open>
  The abstract queue of at most \<open>c\<close> items, one label for each event a client can see; a
  concurrent implementation is correct when each of its steps is one of these.
\<close>

datatype 'a event = Enqueue 'a | Dequeue 'a | Internal

inductive fifo_step :: "nat \<Rightarrow> 'a list \<Rightarrow> 'a event \<Rightarrow> 'a list \<Rightarrow> bool" for c where
  fifo_enqueue: "length xs < c \<Longrightarrow> fifo_step c xs (Enqueue x) (xs @ [x])"
| fifo_dequeue: "fifo_step c (x # xs) (Dequeue x) xs"
| fifo_internal: "fifo_step c xs Internal xs"

inductive_simps fifo_step_Enqueue: "fifo_step c xs (Enqueue x) ys"
inductive_simps fifo_step_Dequeue: "fifo_step c xs (Dequeue x) ys"
inductive_simps fifo_step_Internal: "fifo_step c xs Internal ys"

lemmas fifo_step_simps = fifo_step_Enqueue fifo_step_Dequeue fifo_step_Internal

section \<open>Sequences of calls\<close>

datatype 'a call = Push 'a | Pop

text \<open>
  Any sequence of calls on one queue: the items the queue accepted and the items it handed
  out, both in order, and the queue at the end.  The popped value is the one found in the
  caller's variable, here initialised with \<open>y\<close>.
\<close>

primrec calls :: "('a \<Rightarrow> 'q \<Rightarrow> bool \<times> 'q) \<Rightarrow> ('a \<Rightarrow> 'q \<Rightarrow> bool \<times> 'a \<times> 'q) \<Rightarrow> 'a
    \<Rightarrow> 'a call list \<Rightarrow> 'q \<Rightarrow> 'a list \<times> 'a list \<times> 'q" where
  "calls push pop y [] q = ([], [], q)"
| "calls push pop y (c # cs) q =
     (case c of
        Push x \<Rightarrow>
          (let (b, q') = push x q; (ins, outs, r) = calls push pop y cs q'
           in (if b then x # ins else ins, outs, r))
      | Pop \<Rightarrow>
          (let (b, out, q') = pop y q; (ins, outs, r) = calls push pop y cs q'
           in (ins, if b then out # outs else outs, r)))"

context bounded_fifo
begin

lemma push_accepted:
  "ok q \<Longrightarrow> push x q = (True, q') \<Longrightarrow>
     ok q' \<and> items q' = items q @ [x] \<and> length (items q) < limit"
  using push_ok [of q x] push_items [of q x] push_ret [of q x] by simp

lemma push_rejected:
  "ok q \<Longrightarrow> push x q = (False, q') \<Longrightarrow>
     ok q' \<and> items q' = items q \<and> length (items q) = limit"
  using push_ok [of q x] push_items [of q x] push_ret [of q x] items_limit [of q]
  by simp

lemma pop_delivered:
  "ok q \<Longrightarrow> pop y q = (True, out, q') \<Longrightarrow> ok q' \<and> items q = out # items q'"
  using pop_ok [of q y] pop_items [of q y] by simp

lemma pop_refused:
  "ok q \<Longrightarrow> pop y q = (False, out, q') \<Longrightarrow>
     ok q' \<and> out = y \<and> items q' = items q \<and> items q = []"
  using pop_ok [of q y] pop_items [of q y] pop_ret [of q y] by simp

text \<open>
  First in, first out, nothing lost and nothing invented, over any sequence of calls: what
  was in the queue followed by what was accepted is what was handed out followed by what is
  still there.
\<close>

lemma calls_fifo:
  "ok q \<Longrightarrow> calls push pop y cs q = (ins, outs, r) \<Longrightarrow>
     ok r \<and> items q @ ins = outs @ items r"
proof (induction cs arbitrary: q ins outs r)
  case Nil
  then show ?case by simp
next
  case (Cons c cs)
  show ?case
  proof (cases c)
    case (Push x)
    obtain b q' where p: "push x q = (b, q')" by (cases "push x q")
    obtain i o' r' where rest: "calls push pop y cs q' = (i, o', r')"
      by (cases "calls push pop y cs q'")
    have q': "ok q'" "items q' = (if b then items q @ [x] else items q)"
      using push_ok [OF Cons.prems(1), of x] push_items [OF Cons.prems(1), of x] p by simp_all
    from Cons.IH [OF q'(1) rest] q'(2) Cons.prems(2) Push p rest show ?thesis
      by (auto split: if_splits)
  next
    case Pop
    obtain b out q' where p: "pop y q = (b, out, q')" by (cases "pop y q")
    obtain i o' r' where rest: "calls push pop y cs q' = (i, o', r')"
      by (cases "calls push pop y cs q'")
    have q': "ok q'" "items q = (if b then out # items q' else items q')"
      using pop_ok [OF Cons.prems(1), of y] pop_items [OF Cons.prems(1), of y] p
      by (auto split: if_splits)
    from Cons.IH [OF q'(1) rest] q'(2) Cons.prems(2) Pop p rest show ?thesis
      by (auto split: if_splits)
  qed
qed

end

end
