(* ===== verification/Spsc_Queue.thy ===== *)
theory Spsc_Queue
  imports Bounded_Fifo
begin

text \<open>
  \<open>spsc/SpscQueue.h\<close>, one call at a time: the class \<open>SpscQueue<T, Capacity>\<close> as a
  record with the source's fields
  (an Isabelle name cannot end in an underscore, so \<open>head_\<close> is the field \<open>head\<close>), its member functions as functions on that record, the
  representation invariant, and the proof that the cached-index ring buffer is a bounded
  first-in first-out queue.  Indices are 64-bit words and are never reset, so all statements
  hold across the wrap-around of \<open>head_\<close> and \<open>tail_\<close>.  The interleaved execution of
  the two threads, with the memory orders of the source, is in \<open>Spsc_Concurrent\<close>.
\<close>

section \<open>Capacity\<close>

text \<open>The \<open>static_assert\<close> on the template parameter.\<close>

definition capacity_ok :: "u64 \<Rightarrow> bool" where
  "capacity_ok C \<longleftrightarrow> C AND (C - 1) = 0"

text \<open>The subscript of \<open>buf\<close>: the index masked with \<open>Capacity - 1\<close>.\<close>

definition slot :: "u64 \<Rightarrow> u64 \<Rightarrow> nat" where
  "slot C i = unat (i AND (C - 1))"

lemma capacity_ok_0 [simp]: "capacity_ok 0"
  by (simp add: capacity_ok_def)

lemma capacity_pow2:
  assumes "capacity_ok C" and "C \<noteq> 0"
  obtains k where "k < 64" and "C = 2 ^ k" and "unat C = 2 ^ k"
proof -
  from assms obtain k where k: "k < 64" "unat C = 2 ^ k"
    by (auto simp: capacity_ok_def and_pred_u64_iff)
  have "unat (2 ^ k :: u64) = 2 ^ k"
  proof -
    have "(2::nat) ^ k < 2 ^ 64"
      using k(1) by (rule power_strict_increasing) simp
    then show ?thesis
      using unat_of_nat [of "2 ^ k", where 'a = 64] by simp
  qed
  then have "C = 2 ^ k"
    using k(2) by (metis word_unat_eq_iff)
  with k that show thesis by blast
qed

lemma slot_of_nat [word_index]:
  assumes "capacity_ok C" and "C \<noteq> 0"
  shows "slot C (of_nat n) = n mod unat C"
proof -
  from assms obtain k where k: "k < 64" "C = 2 ^ k" "unat C = 2 ^ k"
    by (rule capacity_pow2)
  have "(2::nat) ^ k dvd 2 ^ 64"
    using k(1) by (intro le_imp_power_dvd) simp
  then have "n mod 2 ^ 64 mod 2 ^ k = n mod 2 ^ k"
    by (rule mod_mod_cancel)
  then show ?thesis
    unfolding slot_def k(3) by (simp only: k(2) unat_and_mask unat_of_nat) simp
qed

lemma slot_less: "capacity_ok C \<Longrightarrow> C \<noteq> 0 \<Longrightarrow> slot C i < unat C"
  using slot_of_nat [of C "unat i"] by (simp add: unat_gt_0)

lemma unat_capacity_le: "capacity_ok C \<Longrightarrow> unat C \<le> 2 ^ 63"
proof (cases "C = 0")
  case False
  assume "capacity_ok C"
  then obtain k where "k < 64" "unat C = 2 ^ k"
    using False by (rule capacity_pow2)
  moreover from this have "(2::nat) ^ k \<le> 2 ^ 63"
    by (intro power_increasing) simp_all
  ultimately show ?thesis by simp
qed simp

section \<open>The class and its members\<close>

record 'T Slot =
  slot_value :: 'T

record 'T spsc_queue =
  buf :: "'T Slot list"
  head :: u64
  tail_cache :: u64
  tail :: u64
  head_cache :: u64

text \<open>
  The implicit constructor: the four indices have initialisers, the slots have none, so the
  buffer starts with arbitrary contents (the argument), one slot for each unit of capacity.
\<close>

definition spsc_new :: "'T list \<Rightarrow> 'T spsc_queue" where
  "spsc_new garbage =
     \<lparr>buf = map (\<lambda>g. \<lparr>slot_value = g\<rparr>) garbage, head = 0, tail_cache = 0,
      tail = 0, head_cache = 0\<rparr>"

text \<open>The last three lines of \<open>try_push\<close>, reached from both branches of the full test.\<close>

definition push_item :: "u64 \<Rightarrow> u64 \<Rightarrow> 'T \<Rightarrow> 'T spsc_queue \<Rightarrow> bool \<times> 'T spsc_queue" where
  "push_item C t item q =
     (True, q\<lparr>buf := (buf q)[slot C t := (buf q ! slot C t)\<lparr>slot_value := item\<rparr>],
              tail := t + 1\<rparr>)"

definition try_push :: "u64 \<Rightarrow> 'T \<Rightarrow> 'T spsc_queue \<Rightarrow> bool \<times> 'T spsc_queue" where
  "try_push C item q =
     (let t = tail q in
      if t - head_cache q = C then
        (let q = q\<lparr>head_cache := head q\<rparr> in
         if t - head_cache q = C then (False, q)
         else push_item C t item q)
      else push_item C t item q)"

text \<open>The last three lines of \<open>try_pop\<close>.\<close>

definition pop_item :: "u64 \<Rightarrow> u64 \<Rightarrow> 'T \<Rightarrow> 'T spsc_queue \<Rightarrow> bool \<times> 'T \<times> 'T spsc_queue" where
  "pop_item C h out q =
     (True, slot_value (buf q ! slot C h), q\<lparr>head := h + 1\<rparr>)"

definition try_pop :: "u64 \<Rightarrow> 'T \<Rightarrow> 'T spsc_queue \<Rightarrow> bool \<times> 'T \<times> 'T spsc_queue" where
  "try_pop C out q =
     (let h = head q in
      if h = tail_cache q then
        (let q = q\<lparr>tail_cache := tail q\<rparr> in
         if h = tail_cache q then (False, out, q)
         else pop_item C h out q)
      else pop_item C h out q)"

definition spsc_size :: "'T spsc_queue \<Rightarrow> u64" where
  "spsc_size q = tail q - head q"

definition spsc_empty :: "'T spsc_queue \<Rightarrow> bool" where
  "spsc_empty q \<longleftrightarrow> head q = tail q"

section \<open>The representation invariant and the queue it represents\<close>

text \<open>
  The invariant, over the fields alone: the producer's cached head is at most a full
  capacity behind \<open>tail_\<close>, the true head lies between it and \<open>tail_\<close>, and the
  consumer's cached tail lies between the true head and \<open>tail_\<close>.  All distances are
  taken in wrapping arithmetic.
\<close>

definition spsc_ok :: "u64 \<Rightarrow> 'T spsc_queue \<Rightarrow> bool" where
  "spsc_ok C q \<longleftrightarrow>
     capacity_ok C \<and> length (buf q) = unat C \<and>
     unat (tail q - head_cache q) \<le> unat C \<and>
     unat (tail q - head q) \<le> unat (tail q - head_cache q) \<and>
     unat (tail_cache q - head q) \<le> unat (tail q - head q)"

text \<open>The queued items, oldest first.\<close>

definition contents :: "u64 \<Rightarrow> 'T spsc_queue \<Rightarrow> 'T list" where
  "contents C q =
     map (\<lambda>i. slot_value (buf q ! slot C (head q + of_nat i))) [0 ..< unat (tail q - head q)]"

text \<open>The four indices read as unbounded counters.\<close>

definition counters :: "u64 \<Rightarrow> 'T spsc_queue \<Rightarrow> nat \<Rightarrow> nat \<Rightarrow> nat \<Rightarrow> nat \<Rightarrow> bool" where
  "counters C q hc H tc T \<longleftrightarrow>
     head_cache q = of_nat hc \<and> head q = of_nat H \<and> tail_cache q = of_nat tc \<and>
     tail q = of_nat T \<and> hc \<le> H \<and> H \<le> tc \<and> tc \<le> T \<and> T - hc \<le> unat C"

lemma spsc_ok_counters:
  assumes "spsc_ok C q"
  obtains hc H tc T where "counters C q hc H tc T"
proof -
  define hc where "hc = unat (head_cache q)"
  define T where "T = hc + unat (tail q - head_cache q)"
  define H where "H = T - unat (tail q - head q)"
  define tc where "tc = H + unat (tail_cache q - head q)"
  note ok = assms [unfolded spsc_ok_def]
  have le: "unat (tail q - head q) \<le> T" "hc \<le> H"
    using ok unfolding T_def H_def by linarith+
  have "tail q = of_nat T"
    by (simp add: T_def hc_def)
  moreover from this have "head q = of_nat H"
    using le by (simp add: H_def)
  moreover from this have "tail_cache q = of_nat tc"
    by (simp add: tc_def)
  moreover have "head_cache q = of_nat hc"
    by (simp add: hc_def)
  moreover have "H \<le> tc" "tc \<le> T" "T - hc \<le> unat C"
    using ok le unfolding T_def tc_def H_def by linarith+
  ultimately have "counters C q hc H tc T"
    using le by (simp add: counters_def)
  then show thesis by (rule that)
qed

lemma counters_spsc_ok:
  assumes "capacity_ok C" and "length (buf q) = unat C" and "counters C q hc H tc T"
  shows "spsc_ok C q"
proof -
  note c = assms(3) [unfolded counters_def]
  have le: "hc \<le> T" "H \<le> T" "H \<le> tc"
    using c by linarith+
  have lt: "T - hc < 2 ^ 64" "T - H < 2 ^ 64" "tc - H < 2 ^ 64"
    using c unat_u64_less [of C] by linarith+
  have "unat (tail q - head_cache q) = T - hc" "unat (tail q - head q) = T - H"
    "unat (tail_cache q - head q) = tc - H"
    using c le lt by (simp_all only: c unat_of_nat_diff_u64)
  moreover have "T - H \<le> T - hc" "tc - H \<le> T - H"
    using c by linarith+
  ultimately show ?thesis
    using assms(1,2) c by (simp add: spsc_ok_def)
qed

lemma mod_ring_distinct:
  assumes "H \<le> n" and "n < T" and "T < H + (C::nat)"
  shows "n mod C \<noteq> T mod C"
proof
  assume "n mod C = T mod C"
  then have "C dvd T - n"
    using assms(2) by (metis less_imp_le mod_eq_dvd_iff_nat)
  with assms show False
    by (auto dest: dvd_imp_le)
qed

lemma contents_counters:
  assumes "capacity_ok C" and "counters C q hc H tc T"
  shows "contents C q = map (\<lambda>n. slot_value (buf q ! (n mod unat C))) [H ..< T]"
proof -
  note c = assms(2) [unfolded counters_def]
  have "H \<le> T" "T - H < 2 ^ 64"
    using c unat_u64_less [of C] by linarith+
  then have len: "unat (tail q - head q) = T - H"
    using c by (simp only: c unat_of_nat_diff_u64)
  have idx: "slot C (head q + of_nat i) = (H + i) mod unat C" if "i < T - H" for i
  proof -
    have "C \<noteq> 0"
      using that c by (auto simp: unat_eq_zero)
    then show ?thesis
      using slot_of_nat [OF assms(1), of "H + i"] c by simp
  qed
  have "[H ..< T] = map (\<lambda>i. H + i) [0 ..< T - H]"
    by (rule nth_equalityI) auto
  then show ?thesis
    using idx by (simp add: contents_def len)
qed

text \<open>The tests of the two members, read on the counters.\<close>

lemma counters_tests:
  assumes "counters C q hc H tc T"
  shows "tail q - head_cache q = C \<longleftrightarrow> T - hc = unat C"
    and "tail q - head q = C \<longleftrightarrow> T - H = unat C"
    and "head q = tail_cache q \<longleftrightarrow> tc = H"
    and "head q = tail q \<longleftrightarrow> T = H"
    and "unat (tail q - head q) = T - H"
proof -
  note c = assms [unfolded counters_def]
  have le: "hc \<le> T" "H \<le> T" "H \<le> tc"
    using c by linarith+
  have lt: "T - hc < 2 ^ 64" "T - H < 2 ^ 64" "tc - H < 2 ^ 64"
    using c unat_u64_less [of C] by linarith+
  show "tail q - head_cache q = C \<longleftrightarrow> T - hc = unat C"
    "tail q - head q = C \<longleftrightarrow> T - H = unat C"
    "head q = tail_cache q \<longleftrightarrow> tc = H"
    "head q = tail q \<longleftrightarrow> T = H"
    "unat (tail q - head q) = T - H"
    using c le lt by (simp_all only: c diff_u64_eq_iff of_nat_u64_eq_shift unat_of_nat_diff_u64)
qed

lemma length_contents: "length (contents C q) = unat (tail q - head q)"
  by (simp add: contents_def)

section \<open>The members refine a bounded queue\<close>

text \<open>Writing the next slot appends to the queue, provided there is a free slot.\<close>

lemma push_item_refines:
  assumes "capacity_ok C" and "length (buf q) = unat C" and c: "counters C q hc H tc T"
    and room: "T - hc < unat C"
  shows "spsc_ok C (snd (push_item C (tail q) x q))"
    and "contents C (snd (push_item C (tail q) x q)) = contents C q @ [x]"
proof -
  let ?q = "snd (push_item C (tail q) x q)"
  note c' = c [unfolded counters_def]
  have Cn: "C \<noteq> 0" using room by auto
  have sl: "slot C (tail q) = T mod unat C"
    using c' slot_of_nat [OF assms(1) Cn, of T] by simp
  have bound: "T mod unat C < length (buf q)"
    using assms(2) Cn by (simp add: unat_gt_0)
  have c2: "counters C ?q hc H tc (Suc T)"
    using c' room by (simp add: counters_def push_item_def add.commute)
  show "spsc_ok C ?q"
    using assms(1,2) c2 by (intro counters_spsc_ok) (simp_all add: push_item_def)
  have other: False if "T mod unat C = n mod unat C" "H \<le> n" "n < T" for n
  proof -
    have "T < H + unat C"
      using room c' by linarith
    then show False
      using that mod_ring_distinct [of H n T "unat C"] by simp
  qed
  show "contents C ?q = contents C q @ [x]"
    unfolding contents_counters [OF assms(1) c2] contents_counters [OF assms(1) c]
    using c' sl bound by (auto simp: push_item_def nth_list_update dest: other)
qed

text \<open>Refreshing a cached index changes neither the invariant nor the queue.\<close>

lemma refresh_head_cache:
  assumes "spsc_ok C q"
  shows "spsc_ok C (q\<lparr>head_cache := head q\<rparr>)" "contents C (q\<lparr>head_cache := head q\<rparr>) = contents C q"
  using assms by (auto simp: spsc_ok_def contents_def)

lemma refresh_tail_cache:
  assumes "spsc_ok C q"
  shows "spsc_ok C (q\<lparr>tail_cache := tail q\<rparr>)" "contents C (q\<lparr>tail_cache := tail q\<rparr>) = contents C q"
  using assms by (auto simp: spsc_ok_def contents_def)

lemma try_push_refines:
  assumes "spsc_ok C q"
  shows "spsc_ok C (snd (try_push C x q))"
    and "fst (try_push C x q) \<longleftrightarrow> length (contents C q) < unat C"
    and "contents C (snd (try_push C x q)) =
           (if fst (try_push C x q) then contents C q @ [x] else contents C q)"
proof -
  obtain hc H tc T where c: "counters C q hc H tc T"
    using assms by (rule spsc_ok_counters)
  note c' = c [unfolded counters_def] and t = counters_tests [OF c]
  have base: "capacity_ok C" "length (buf q) = unat C"
    using assms by (simp_all add: spsc_ok_def)
  let ?q = "q\<lparr>head_cache := head q\<rparr>"
  have cr: "counters C ?q H H tc T" and baser: "length (buf ?q) = unat C"
    using c' base by (auto simp: counters_def)
  consider (cached) "T - hc < unat C" | (reload) "T - hc = unat C" "T - H < unat C"
    | (full) "T - hc = unat C" "T - H = unat C"
    using c' by linarith
  then have "spsc_ok C (snd (try_push C x q)) \<and>
      (fst (try_push C x q) \<longleftrightarrow> length (contents C q) < unat C) \<and>
      contents C (snd (try_push C x q)) =
        (if fst (try_push C x q) then contents C q @ [x] else contents C q)"
  proof cases
    case cached
    then have "try_push C x q = push_item C (tail q) x q"
      using t by (simp add: try_push_def)
    then show ?thesis
      using push_item_refines [OF base c cached, of x] cached c' t(5)
      by (auto simp: length_contents push_item_def)
  next
    case reload
    then have "try_push C x q = push_item C (tail ?q) x ?q"
      using t by (simp add: try_push_def)
    then show ?thesis
      using push_item_refines [OF base(1) baser cr reload(2), of x] reload t(5)
        refresh_head_cache [OF assms]
      by (simp add: length_contents push_item_def)
  next
    case full
    then have "try_push C x q = (False, ?q)"
      using t by (simp add: try_push_def)
    then show ?thesis
      using full t(5) refresh_head_cache [OF assms] by (simp add: length_contents)
  qed
  then show "spsc_ok C (snd (try_push C x q))"
    and "fst (try_push C x q) \<longleftrightarrow> length (contents C q) < unat C"
    and "contents C (snd (try_push C x q)) =
           (if fst (try_push C x q) then contents C q @ [x] else contents C q)"
    by blast+
qed

lemma pop_item_refines:
  assumes "capacity_ok C" and "length (buf q) = unat C" and c: "counters C q hc H tc T"
    and item: "H < tc"
  shows "spsc_ok C (snd (snd (pop_item C (head q) y q)))"
    and "contents C q =
           fst (snd (pop_item C (head q) y q)) # contents C (snd (snd (pop_item C (head q) y q)))"
proof -
  let ?q = "snd (snd (pop_item C (head q) y q))"
  note c' = c [unfolded counters_def]
  have Cn: "C \<noteq> 0" using item c' by auto
  have sl: "slot C (head q) = H mod unat C"
    using c' slot_of_nat [OF assms(1) Cn, of H] by simp
  have c2: "counters C ?q hc (Suc H) tc T"
    using c' item by (simp add: counters_def pop_item_def add.commute)
  show "spsc_ok C ?q"
    using assms(1,2) c2 by (intro counters_spsc_ok) (simp_all add: pop_item_def)
  have "H < T" using c' item by linarith
  then have "[H ..< T] = H # [Suc H ..< T]"
    by (rule upt_conv_Cons)
  then show "contents C q = fst (snd (pop_item C (head q) y q)) # contents C ?q"
    unfolding contents_counters [OF assms(1) c2] contents_counters [OF assms(1) c]
    by (simp add: pop_item_def sl)
qed

lemma try_pop_refines:
  assumes "spsc_ok C q"
  shows "spsc_ok C (snd (snd (try_pop C y q)))"
    and "fst (try_pop C y q) \<longleftrightarrow> contents C q \<noteq> []"
    and "if fst (try_pop C y q)
         then fst (snd (try_pop C y q)) # contents C (snd (snd (try_pop C y q))) = contents C q
         else fst (snd (try_pop C y q)) = y \<and> contents C (snd (snd (try_pop C y q))) = contents C q"
proof -
  obtain hc H tc T where c: "counters C q hc H tc T"
    using assms by (rule spsc_ok_counters)
  note c' = c [unfolded counters_def] and t = counters_tests [OF c]
  have base: "capacity_ok C" "length (buf q) = unat C"
    using assms by (simp_all add: spsc_ok_def)
  let ?q = "q\<lparr>tail_cache := tail q\<rparr>"
  have cr: "counters C ?q hc H T T" and baser: "length (buf ?q) = unat C"
    using c' base by (auto simp: counters_def)
  have nonempty: "contents C q \<noteq> [] \<longleftrightarrow> H < T"
    using t(5) c' by (metis diff_is_0_eq length_0_conv length_contents not_less)
  consider (cached) "H < tc" | (reload) "tc = H" "H < T" | (empty) "tc = H" "T = H"
    using c' by linarith
  then have "spsc_ok C (snd (snd (try_pop C y q))) \<and>
      (fst (try_pop C y q) \<longleftrightarrow> contents C q \<noteq> []) \<and>
      (if fst (try_pop C y q)
       then fst (snd (try_pop C y q)) # contents C (snd (snd (try_pop C y q))) = contents C q
       else fst (snd (try_pop C y q)) = y \<and> contents C (snd (snd (try_pop C y q))) = contents C q)"
  proof cases
    case cached
    then have "try_pop C y q = pop_item C (head q) y q"
      using t by (simp add: try_pop_def)
    then show ?thesis
      using pop_item_refines [OF base c cached, of y] cached c' nonempty
      by (simp add: pop_item_def)
  next
    case reload
    then have "try_pop C y q = pop_item C (head ?q) y ?q"
      using t by (simp add: try_pop_def)
    then show ?thesis
      using pop_item_refines [OF base(1) baser cr reload(2), of y] reload nonempty
        refresh_tail_cache [OF assms]
      by (simp add: pop_item_def)
  next
    case empty
    then have "try_pop C y q = (False, y, ?q)"
      using t by (simp add: try_pop_def)
    then show ?thesis
      using empty nonempty refresh_tail_cache [OF assms] by simp
  qed
  then show "spsc_ok C (snd (snd (try_pop C y q)))"
    and "fst (try_pop C y q) \<longleftrightarrow> contents C q \<noteq> []"
    and "if fst (try_pop C y q)
         then fst (snd (try_pop C y q)) # contents C (snd (snd (try_pop C y q))) = contents C q
         else fst (snd (try_pop C y q)) = y \<and> contents C (snd (snd (try_pop C y q))) = contents C q"
    by blast+
qed

lemma contents_limit: "spsc_ok C q \<Longrightarrow> length (contents C q) \<le> unat C"
  by (simp add: spsc_ok_def length_contents)

interpretation spsc: bounded_fifo "try_push C" "try_pop C" "contents C" "spsc_ok C" "unat C" for C
  by unfold_locales (rule contents_limit try_push_refines try_pop_refines, assumption)+

lemma spsc_new_ok: "capacity_ok C \<Longrightarrow> length g = unat C \<Longrightarrow> spsc_ok C (spsc_new g)"
  by (simp add: spsc_ok_def spsc_new_def)

lemma contents_new [simp]: "contents C (spsc_new g) = []"
  by (simp add: contents_def spsc_new_def)

section \<open>Properties of the sequential class\<close>

text \<open>A queue of four slots whose indices are about to wrap: both are at \<open>2 ^ 64 - 1\<close>.\<close>

definition wrapping_queue :: "nat spsc_queue" where
  "wrapping_queue =
     \<lparr>buf = map (\<lambda>v. \<lparr>slot_value = v\<rparr>) [0, 0, 0, 0], head = - 1, tail_cache = - 1, tail = - 1,
      head_cache = - 1\<rparr>"

text \<open>
  The \<open>static_assert\<close> accepts exactly the powers of two that fit in a
  \<open>std::size_t\<close>, and zero.  With capacity zero every push and every pop answers false, so no
  slot of the empty array is ever touched.
\<close>

theorem static_assert_accepts:
  "(capacity_ok C \<longleftrightarrow> C = 0 \<or> (\<exists>k < 64. unat C = 2 ^ k)) \<and>
   fst (try_push 0 x (spsc_new [])) = False \<and> fst (try_pop 0 y (spsc_new [])) = False"
  by (simp add: capacity_ok_def and_pred_u64_iff try_push_def try_pop_def spsc_new_def)

text \<open>
  Property C22. \<open>try_push\<close> on a well-formed queue succeeds exactly when there is a free slot; it
  then appends the item, and otherwise leaves the queued items alone; it keeps the queue well
  formed.
\<close>

theorem try_push_spec:
  assumes "spsc_ok C q" and "try_push C x q = (b, q')"
  shows "spsc_ok C q' \<and> (b \<longleftrightarrow> length (contents C q) < unat C) \<and>
         contents C q' = (if b then contents C q @ [x] else contents C q)"
  using spsc.push_ok [OF assms(1), of x] spsc.push_ret [OF assms(1), of x]
    spsc.push_items [OF assms(1), of x] assms(2) by simp

theorem try_push_spec_witness:
  "\<exists>q'. try_push 4 7 wrapping_queue = (True, q') \<and> tail q' = 0 \<and> contents 4 q' = [7]"
proof -
  have ok: "spsc_ok 4 wrapping_queue" by code_simp
  have e: "fst (try_push 4 7 wrapping_queue) \<and> tail (snd (try_push 4 7 wrapping_queue)) = 0 \<and>
      contents 4 wrapping_queue = []"
    by code_simp
  obtain q' where q': "try_push 4 7 wrapping_queue = (True, q')"
    using e by (metis prod.collapse)
  with e try_push_spec [OF ok q'] show ?thesis by simp
qed

text \<open>
  Property C23. \<open>try_pop\<close> on a well-formed queue succeeds exactly when it is not empty; it then
  stores the oldest item to \<open>out\<close> and removes it, and otherwise leaves \<open>out\<close> and the queued
  items alone; it keeps the queue well formed.
\<close>

theorem try_pop_spec:
  assumes "spsc_ok C q" and "try_pop C y q = (b, out, q')"
  shows "spsc_ok C q' \<and> (b \<longleftrightarrow> contents C q \<noteq> []) \<and>
         (if b then contents C q = out # contents C q' else out = y \<and> contents C q' = contents C q)"
  using spsc.pop_ok [OF assms(1), of y] spsc.pop_ret [OF assms(1), of y]
    spsc.pop_items [OF assms(1), of y] assms(2) by (auto split: if_splits)

theorem try_pop_spec_witness:
  "\<exists>q'. try_pop 4 0 (snd (try_push 4 7 wrapping_queue)) = (True, 7, q') \<and> head q' = 0 \<and>
        contents 4 q' = []"
proof -
  let ?q = "snd (try_push 4 7 wrapping_queue)"
  have ok: "spsc_ok 4 ?q" by code_simp
  have e: "fst (try_pop 4 0 ?q) \<and> fst (snd (try_pop 4 0 ?q)) = 7 \<and>
      head (snd (snd (try_pop 4 0 ?q))) = 0 \<and> contents 4 ?q = [7]"
    by code_simp
  obtain q' where q': "try_pop 4 0 ?q = (True, 7, q')"
    using e by (metis prod.collapse)
  with e try_pop_spec [OF ok q'] show ?thesis by simp
qed

text \<open>
  The members without the cached indices, as the paper design
  (\<open>notes/Designs/SPSC_Paper_Design.md\<close>) has them: both indices are loaded on every call.
\<close>

definition try_push_uncached :: "u64 \<Rightarrow> 'T \<Rightarrow> 'T spsc_queue \<Rightarrow> bool \<times> 'T spsc_queue" where
  "try_push_uncached C item q =
     (if tail q - head q = C then (False, q) else push_item C (tail q) item q)"

definition try_pop_uncached :: "u64 \<Rightarrow> 'T \<Rightarrow> 'T spsc_queue \<Rightarrow> bool \<times> 'T \<times> 'T spsc_queue" where
  "try_pop_uncached C out q =
     (if head q = tail q then (False, out, q) else pop_item C (head q) out q)"

definition without_caches :: "'T spsc_queue \<Rightarrow> 'T spsc_queue" where
  "without_caches q = q\<lparr>head_cache := 0, tail_cache := 0\<rparr>"

lemma without_caches_item:
  "without_caches (snd (push_item C t x (q\<lparr>head_cache := h\<rparr>))) = without_caches (snd (push_item C t x q))"
  "without_caches (snd (snd (pop_item C i y (q\<lparr>tail_cache := t\<rparr>)))) =
     without_caches (snd (snd (pop_item C i y q)))"
  by (simp_all add: without_caches_def push_item_def pop_item_def)

text \<open>
  Property C24. The cached indices are an optimisation only: on a well-formed queue both members
  answer, deliver and leave behind exactly what the members that load both indices on every
  call do, up to the caches themselves.
\<close>

theorem cached_members_equal_uncached:
  assumes "spsc_ok C q"
  shows "fst (try_push C x q) = fst (try_push_uncached C x q) \<and>
         without_caches (snd (try_push C x q)) = without_caches (snd (try_push_uncached C x q)) \<and>
         fst (try_pop C y q) = fst (try_pop_uncached C y q) \<and>
         fst (snd (try_pop C y q)) = fst (snd (try_pop_uncached C y q)) \<and>
         without_caches (snd (snd (try_pop C y q))) = without_caches (snd (snd (try_pop_uncached C y q)))"
proof -
  obtain hc H tc T where c: "counters C q hc H tc T"
    using assms by (rule spsc_ok_counters)
  have T: "T - hc = unat C" if "T - H = unat C"
    using that c unfolding counters_def by linarith
  have E: "tc = H" if "T = H"
    using that c by (simp add: counters_def)
  have "without_caches (q\<lparr>head_cache := head q\<rparr>) = without_caches q"
    "without_caches (q\<lparr>tail_cache := tail q\<rparr>) = without_caches q"
    by (simp_all add: without_caches_def)
  then show ?thesis
    using T E counters_tests [OF c] without_caches_item
    by (auto simp: try_push_def try_push_uncached_def try_pop_def try_pop_uncached_def Let_def
        push_item_def pop_item_def)
qed

theorem cached_members_equal_uncached_witness:
  "without_caches (snd (try_push 4 7 wrapping_queue)) =
     without_caches (snd (try_push_uncached 4 7 wrapping_queue))"
proof -
  have "spsc_ok 4 wrapping_queue" by code_simp
  from cached_members_equal_uncached [OF this] show ?thesis by blast
qed

text \<open>
  Over any sequence of pushes and pops on a new queue, whatever the uninitialised
  slots hold, the accepted items come out in order, once each, and the queue stays well formed.
\<close>

theorem spsc_calls_fifo:
  assumes "capacity_ok C" and "length garbage = unat C"
    and "calls (try_push C) (try_pop C) y cs (spsc_new garbage) = (accepted, delivered, q)"
  shows "spsc_ok C q \<and> accepted = delivered @ contents C q"
  using spsc.calls_fifo [OF spsc_new_ok [OF assms(1,2)] assms(3)] by simp

theorem spsc_calls_fifo_witness:
  "\<exists>q. calls (try_push 2) (try_pop 2) 0 [Push 1, Push 2, Push 3, Pop, Push 4, Pop, Pop, Pop]
         (spsc_new [9, 9 :: nat]) = ([1, 2, 4], [1, 2, 4], q) \<and> contents 2 q = []"
proof -
  let ?r = "calls (try_push 2) (try_pop 2) 0 [Push 1, Push 2, Push 3, Pop, Push 4, Pop, Pop, Pop]
         (spsc_new [9, 9 :: nat])"
  have e: "fst ?r = [1, 2, 4] \<and> fst (snd ?r) = [1, 2, 4]" by code_simp
  then obtain q where q: "?r = ([1, 2, 4], [1, 2, 4], q)"
    by (metis prod.collapse)
  have "capacity_ok 2" "length [9, 9 :: nat] = unat (2 :: u64)" by (code_simp, simp)
  from spsc_calls_fifo [OF this q] q show ?thesis by simp
qed

text \<open>
  With no call in progress \<open>size()\<close> is the number of queued items, at most the
  capacity, and \<open>empty()\<close> says whether there are none.
\<close>

theorem size_and_empty_at_rest:
  assumes "spsc_ok C q"
  shows "unat (spsc_size q) = length (contents C q) \<and> unat (spsc_size q) \<le> unat C \<and>
         (spsc_empty q \<longleftrightarrow> contents C q = [])"
proof -
  obtain hc H tc T where c: "counters C q hc H tc T"
    using assms by (rule spsc_ok_counters)
  have "T = H \<longleftrightarrow> T - H = 0"
    using c by (auto simp: counters_def)
  then have "spsc_empty q \<longleftrightarrow> length (contents C q) = 0"
    using counters_tests(4,5) [OF c] by (simp add: spsc_empty_def length_contents)
  then have "spsc_empty q \<longleftrightarrow> contents C q = []"
    by (simp only: length_0_conv)
  then show ?thesis
    using spsc.items_limit [OF assms] by (simp add: spsc_size_def length_contents)
qed

theorem size_and_empty_at_rest_witness:
  "unat (spsc_size (snd (try_push 4 7 wrapping_queue))) = length [7 :: nat] \<and>
   \<not> spsc_empty (snd (try_push 4 7 wrapping_queue))"
proof -
  let ?q = "snd (try_push 4 7 wrapping_queue)"
  have ok: "spsc_ok 4 ?q" by code_simp
  have "contents 4 ?q = [7]" by code_simp
  with size_and_empty_at_rest [OF ok] show ?thesis by simp
qed

end
