(* ===== verification/Spsc_Concurrent.thy ===== *)
theory Spsc_Concurrent
  imports Cxx_Memory Spsc_Queue
begin

text \<open>
  \<open>spsc/SpscQueue.h\<close> under concurrency: one producer thread calling \<open>try_push\<close> and one
  consumer thread calling \<open>try_pop\<close>, every access of a shared member a step of its own,
  with the memory orders of the source, on the memory of \<open>Cxx_Memory\<close>.  The theory proves
  that the queue has no data race, delivers the pushed items in order and exactly once, and
  never holds more than its capacity, in every execution and across index wrap-around.
\<close>

section \<open>State and steps\<close>

text \<open>
  The two atomic members; the slots of \<open>buf_\<close> are the plain objects, numbered by their
  subscript.  \<open>head_cache_\<close> is used by \<open>try_push\<close> only and \<open>tail_cache_\<close> by
  \<open>try_pop\<close> only, so they are local to the one thread that calls it.
\<close>

datatype index = Head | Tail

type_synonym 'T queue_memory = "(u64, index, 'T, nat) memory"

abbreviation producer :: tid where "producer \<equiv> 0"
abbreviation consumer :: tid where "consumer \<equiv> Suc 0"

text \<open>
  Where a thread stands inside its call: the access it makes next, with the values of its
  local variables.  \<open>P_Done b\<close> and \<open>C_Done r\<close> are the return, with the result;
  \<open>C_Done (Some v)\<close> has stored \<open>v\<close> to \<open>out\<close> and returns true.
\<close>

datatype 'T producer_pc =
    P_Idle | P_Load_Tail 'T | P_Load_Head 'T u64 | P_Write 'T u64 | P_Store_Tail 'T u64 | P_Done bool

datatype 'T consumer_pc =
    C_Idle | C_Load_Head | C_Load_Tail u64 | C_Read u64 | C_Store_Head u64 'T | C_Done "'T option"

text \<open>
  \<open>pushed\<close> and \<open>popped\<close> are history variables: the items of the calls that have
  published them, in order.
\<close>

record 'T spsc_sys =
  qmem :: "'T queue_memory"
  p_head_cache :: u64
  c_tail_cache :: u64
  ppc :: "'T producer_pc"
  cpc :: "'T consumer_pc"
  pushed :: "'T list"
  popped :: "'T list"

definition spsc_init :: "(nat \<Rightarrow> 'T) \<Rightarrow> 'T spsc_sys" where
  "spsc_init garbage =
     \<lparr>qmem = mem_init (\<lambda>_. 0) garbage, p_head_cache = 0, c_tail_cache = 0,
      ppc = P_Idle, cpc = C_Idle, pushed = [], popped = []\<rparr>"

text \<open>The accesses of \<open>try_push\<close>; \<open>k\<close> chooses the message a load reads.\<close>

definition push_step :: "u64 \<Rightarrow> nat \<Rightarrow> 'T spsc_sys \<Rightarrow> 'T spsc_sys option" where
  "push_step C k s =
     (case ppc s of
        P_Idle \<Rightarrow> None
      | P_Load_Tail item \<Rightarrow>
          (case a_load Relaxed producer Tail k (qmem s) of
             None \<Rightarrow> None
           | Some (t, m) \<Rightarrow>
               Some (s\<lparr>qmem := m,
                       ppc := if t - p_head_cache s = C then P_Load_Head item t
                              else P_Write item t\<rparr>))
      | P_Load_Head item t \<Rightarrow>
          (case a_load Acquire producer Head k (qmem s) of
             None \<Rightarrow> None
           | Some (h, m) \<Rightarrow>
               Some (s\<lparr>qmem := m, p_head_cache := h,
                       ppc := if t - h = C then P_Done False else P_Write item t\<rparr>))
      | P_Write item t \<Rightarrow>
          Some (s\<lparr>qmem := na_write producer (slot C t) item (qmem s), ppc := P_Store_Tail item t\<rparr>)
      | P_Store_Tail item t \<Rightarrow>
          Some (s\<lparr>qmem := a_store Release producer Tail (t + 1) (qmem s),
                  pushed := pushed s @ [item], ppc := P_Done True\<rparr>)
      | P_Done b \<Rightarrow> None)"

text \<open>The accesses of \<open>try_pop\<close>.\<close>

definition pop_step :: "u64 \<Rightarrow> nat \<Rightarrow> 'T spsc_sys \<Rightarrow> 'T spsc_sys option" where
  "pop_step C k s =
     (case cpc s of
        C_Idle \<Rightarrow> None
      | C_Load_Head \<Rightarrow>
          (case a_load Relaxed consumer Head k (qmem s) of
             None \<Rightarrow> None
           | Some (h, m) \<Rightarrow>
               Some (s\<lparr>qmem := m,
                       cpc := if h = c_tail_cache s then C_Load_Tail h else C_Read h\<rparr>))
      | C_Load_Tail h \<Rightarrow>
          (case a_load Acquire consumer Tail k (qmem s) of
             None \<Rightarrow> None
           | Some (t, m) \<Rightarrow>
               Some (s\<lparr>qmem := m, c_tail_cache := t,
                       cpc := if h = t then C_Done None else C_Read h\<rparr>))
      | C_Read h \<Rightarrow>
          (let (out, m) = na_read consumer (slot C h) (qmem s)
           in Some (s\<lparr>qmem := m, cpc := C_Store_Head h out\<rparr>))
      | C_Store_Head h out \<Rightarrow>
          Some (s\<lparr>qmem := a_store Release consumer Head (h + 1) (qmem s),
                  popped := popped s @ [out], cpc := C_Done (Some out)\<rparr>)
      | C_Done r \<Rightarrow> None)"

text \<open>
  The scheduler's choices: a call or a return of either member, one access of either thread,
  or a relaxed load of an index by any thread (the accesses that \<open>size\<close> and \<open>empty\<close> are
  made of).
\<close>

datatype 'T action =
    Call_Push 'T | Step_Push nat | Ret_Push
  | Call_Pop | Step_Pop nat | Ret_Pop
  | Observe tid index nat

definition spsc_next :: "u64 \<Rightarrow> 'T action \<Rightarrow> 'T spsc_sys \<Rightarrow> 'T spsc_sys option" where
  "spsc_next C a s =
     (case a of
        Call_Push item \<Rightarrow> if ppc s = P_Idle then Some (s\<lparr>ppc := P_Load_Tail item\<rparr>) else None
      | Step_Push k \<Rightarrow> push_step C k s
      | Ret_Push \<Rightarrow> (case ppc s of P_Done b \<Rightarrow> Some (s\<lparr>ppc := P_Idle\<rparr>) | _ \<Rightarrow> None)
      | Call_Pop \<Rightarrow> if cpc s = C_Idle then Some (s\<lparr>cpc := C_Load_Head\<rparr>) else None
      | Step_Pop k \<Rightarrow> pop_step C k s
      | Ret_Pop \<Rightarrow> (case cpc s of C_Done r \<Rightarrow> Some (s\<lparr>cpc := C_Idle\<rparr>) | _ \<Rightarrow> None)
      | Observe i x k \<Rightarrow>
          (case a_load Relaxed i x k (qmem s) of
             None \<Rightarrow> None | Some (_, m) \<Rightarrow> Some (s\<lparr>qmem := m\<rparr>)))"

section \<open>The invariant\<close>

text \<open>Slot writes and slot reads made so far, the one not yet published included.\<close>

definition slot_writes :: "'T spsc_sys \<Rightarrow> nat" where
  "slot_writes s = length (pushed s) + (case ppc s of P_Store_Tail _ _ \<Rightarrow> 1 | _ \<Rightarrow> 0)"

definition slot_reads :: "'T spsc_sys \<Rightarrow> nat" where
  "slot_reads s = length (popped s) + (case cpc s of C_Store_Head _ _ \<Rightarrow> 1 | _ \<Rightarrow> 0)"

text \<open>
  The index objects: message number \<open>k\<close> of each holds \<open>k\<close> (as a word), and the thread
  that stored it had made at least \<open>k\<close> slot accesses before.
\<close>

definition index_inv :: "'T spsc_sys \<Rightarrow> bool" where
  "index_inv s \<longleftrightarrow>
     mem_ok (qmem s) \<and>
     map mval (hist (qmem s) Head) = map of_nat [0 ..< Suc (length (popped s))] \<and>
     map mval (hist (qmem s) Tail) = map of_nat [0 ..< Suc (length (pushed s))] \<and>
     (\<forall>k \<le> length (popped s). k \<le> clock (mview (hist (qmem s) Head ! k)) consumer) \<and>
     (\<forall>k \<le> length (pushed s). k \<le> clock (mview (hist (qmem s) Tail ! k)) producer)"

text \<open>
  The slots: the queued items are in place, every slot was last written by the producer's
  most recent visit, and the reads recorded since are the consumer's visits to that slot.
\<close>

definition slot_inv :: "nat \<Rightarrow> 'T spsc_sys \<Rightarrow> bool" where
  "slot_inv c s \<longleftrightarrow>
     popped s = take (length (popped s)) (pushed s) \<and>
     (\<forall>n. length (popped s) \<le> n \<and> n < length (pushed s) \<longrightarrow> cell (qmem s) (n mod c) = pushed s ! n) \<and>
     clock (tview (qmem s) producer) producer = slot_writes s \<and>
     clock (tview (qmem s) consumer) consumer = slot_reads s \<and>
     (\<forall>i. fst (wrote (qmem s) i) = producer \<and> snd (wrote (qmem s) i) \<le> slot_writes s) \<and>
     (\<forall>n. n < slot_writes s \<and> slot_writes s \<le> n + c \<longrightarrow> wrote (qmem s) (n mod c) = (producer, Suc n)) \<and>
     (\<forall>i j e. (j, e) \<in> set (reads (qmem s) i) \<longrightarrow>
        j = consumer \<and> (\<exists>n. n < slot_reads s \<and> e = Suc n \<and> n mod c = i)) \<and>
     \<not> race (qmem s)"

text \<open>
  The producer: its cached head is a head index it has acquired, so it knows of all slot
  reads before that one; it is at most the capacity behind the tail.
\<close>

definition producer_inv :: "nat \<Rightarrow> nat \<Rightarrow> 'T spsc_sys \<Rightarrow> bool" where
  "producer_inv c hc s \<longleftrightarrow>
     p_head_cache s = of_nat hc \<and> hc \<le> length (popped s) \<and>
     seen (tview (qmem s) producer) Tail = length (pushed s) \<and>
     hc \<le> seen (tview (qmem s) producer) Head \<and>
     hc \<le> clock (tview (qmem s) producer) consumer \<and>
     length (pushed s) \<le> hc + c \<and>
     (case ppc s of
        P_Load_Head _ t \<Rightarrow> t = of_nat (length (pushed s)) \<and> length (pushed s) = hc + c
      | P_Write _ t \<Rightarrow> t = of_nat (length (pushed s)) \<and> length (pushed s) < hc + c
      | P_Store_Tail x t \<Rightarrow> t = of_nat (length (pushed s)) \<and> length (pushed s) < hc + c \<and>
          cell (qmem s) (length (pushed s) mod c) = x
      | P_Done False \<Rightarrow> length (pushed s) = hc + c
      | _ \<Rightarrow> True)"

text \<open>The consumer, symmetrically.\<close>

definition consumer_inv :: "nat \<Rightarrow> nat \<Rightarrow> 'T spsc_sys \<Rightarrow> bool" where
  "consumer_inv c tc s \<longleftrightarrow>
     c_tail_cache s = of_nat tc \<and> length (popped s) \<le> tc \<and> tc \<le> length (pushed s) \<and>
     seen (tview (qmem s) consumer) Head = length (popped s) \<and>
     tc \<le> seen (tview (qmem s) consumer) Tail \<and>
     tc \<le> clock (tview (qmem s) consumer) producer \<and>
     (case cpc s of
        C_Load_Tail h \<Rightarrow> h = of_nat (length (popped s)) \<and> tc = length (popped s)
      | C_Read h \<Rightarrow> h = of_nat (length (popped s)) \<and> length (popped s) < tc
      | C_Store_Head h v \<Rightarrow> h = of_nat (length (popped s)) \<and> length (popped s) < tc \<and>
          v = pushed s ! length (popped s)
      | C_Done None \<Rightarrow> tc = length (popped s)
      | _ \<Rightarrow> True)"

definition spsc_inv :: "u64 \<Rightarrow> 'T spsc_sys \<Rightarrow> bool" where
  "spsc_inv C s \<longleftrightarrow>
     (\<exists>hc tc. index_inv s \<and> slot_inv (unat C) s \<and> producer_inv (unat C) hc s \<and> consumer_inv (unat C) tc s)"

section \<open>Every step keeps the invariant\<close>

lemma index_inv_Head:
  assumes "index_inv s"
  shows "length (hist (qmem s) Head) = Suc (length (popped s))"
    and "k \<le> length (popped s) \<Longrightarrow> mval (hist (qmem s) Head ! k) = of_nat k"
    and "k \<le> length (popped s) \<Longrightarrow> k \<le> clock (mview (hist (qmem s) Head ! k)) consumer"
proof -
  have m: "map mval (hist (qmem s) Head) = map of_nat [0 ..< Suc (length (popped s))]"
    using assms by (simp add: index_inv_def)
  from m show l: "length (hist (qmem s) Head) = Suc (length (popped s))"
    by (metis length_map length_upt diff_zero)
  show "mval (hist (qmem s) Head ! k) = of_nat k" if "k \<le> length (popped s)"
    using that l arg_cong [OF m, of "\<lambda>xs. xs ! k"] by (simp del: upt_Suc)
  show "k \<le> length (popped s) \<Longrightarrow> k \<le> clock (mview (hist (qmem s) Head ! k)) consumer"
    using assms by (simp add: index_inv_def)
qed

lemma index_inv_Tail:
  assumes "index_inv s"
  shows "length (hist (qmem s) Tail) = Suc (length (pushed s))"
    and "k \<le> length (pushed s) \<Longrightarrow> mval (hist (qmem s) Tail ! k) = of_nat k"
    and "k \<le> length (pushed s) \<Longrightarrow> k \<le> clock (mview (hist (qmem s) Tail ! k)) producer"
proof -
  have m: "map mval (hist (qmem s) Tail) = map of_nat [0 ..< Suc (length (pushed s))]"
    using assms by (simp add: index_inv_def)
  from m show l: "length (hist (qmem s) Tail) = Suc (length (pushed s))"
    by (metis length_map length_upt diff_zero)
  show "mval (hist (qmem s) Tail ! k) = of_nat k" if "k \<le> length (pushed s)"
    using that l arg_cong [OF m, of "\<lambda>xs. xs ! k"] by (simp del: upt_Suc)
  show "k \<le> length (pushed s) \<Longrightarrow> k \<le> clock (mview (hist (qmem s) Tail ! k)) producer"
    using assms by (simp add: index_inv_def)
qed

text \<open>A load keeps the memory part of the invariant, whichever thread makes it.\<close>

lemma index_inv_load:
  assumes "index_inv s" and "a_load mo i a k (qmem s) = Some (x, m)"
    and "qmem t = m" "pushed t = pushed s" "popped t = popped s"
  shows "index_inv t"
proof -
  have "mem_ok (qmem s)" using assms(1) by (simp add: index_inv_def)
  note l = load_view [OF this assms(2)]
  show ?thesis using assms(1,3-5) l(1,15) by (simp add: index_inv_def)
qed

lemma slot_inv_load:
  assumes "index_inv s" and "slot_inv c s" and "a_load mo i a k (qmem s) = Some (x, m)"
    and "qmem t = m" "pushed t = pushed s" "popped t = popped s"
    and "slot_writes t = slot_writes s" "slot_reads t = slot_reads s"
  shows "slot_inv c t"
proof -
  have "mem_ok (qmem s)" using assms(1) by (simp add: index_inv_def)
  note l = load_view [OF this assms(3)]
  have "clock (tview m j) j = clock (tview (qmem s) j) j" for j
    using l(6,7) by (cases "j = i") auto
  then show ?thesis
    using assms(2) l(2-5) unfolding slot_inv_def assms(4-8) by simp
qed

text \<open>What a step of one thread leaves alone is enough for the other thread's invariant.\<close>

lemma producer_inv_frame:
  assumes "producer_inv c hc s" and "ppc t = ppc s" "p_head_cache t = p_head_cache s"
    and "pushed t = pushed s" "length (popped s) \<le> length (popped t)" "cell (qmem t) = cell (qmem s)"
    and "seen (tview (qmem t) producer) Tail = seen (tview (qmem s) producer) Tail"
    and "seen (tview (qmem s) producer) Head \<le> seen (tview (qmem t) producer) Head"
    and "clock (tview (qmem s) producer) consumer \<le> clock (tview (qmem t) producer) consumer"
  shows "producer_inv c hc t"
  using assms(1) le_trans [OF _ assms(5)] le_trans [OF _ assms(8)] le_trans [OF _ assms(9)]
  unfolding producer_inv_def assms(2-4,6,7) by blast

lemma consumer_inv_frame:
  assumes "consumer_inv c tc s" and "cpc t = cpc s" "c_tail_cache t = c_tail_cache s"
    and "popped t = popped s" "pushed t = pushed s @ xs"
    and "seen (tview (qmem t) consumer) Head = seen (tview (qmem s) consumer) Head"
    and "seen (tview (qmem s) consumer) Tail \<le> seen (tview (qmem t) consumer) Tail"
    and "clock (tview (qmem s) consumer) producer \<le> clock (tview (qmem t) consumer) producer"
  shows "consumer_inv c tc t"
proof -
  note c = assms(1) [unfolded consumer_inv_def]
  have "v = pushed t ! length (popped s)" if "cpc s = C_Store_Head h v" for h v
    using that c by (simp add: assms(5) nth_append)
  then show ?thesis
    using c le_trans [OF _ assms(7)] le_trans [OF _ assms(8)]
    unfolding consumer_inv_def assms(2-4,6)
    by (auto simp: assms(5) split: consumer_pc.splits option.splits)
qed

lemma slot_inv_le: "slot_inv c s \<Longrightarrow> length (popped s) \<le> length (pushed s)"
  unfolding slot_inv_def by (metis length_take min.cobounded1 nat_le_linear take_all)

lemma push_load_tail_inv:
  assumes "index_inv s" "slot_inv (unat C) s" "producer_inv (unat C) hc s" "consumer_inv (unat C) tc s"
    and pc: "ppc s = P_Load_Tail x" and step: "push_step C k s = Some t"
  shows "index_inv t \<and> slot_inv (unat C) t \<and> producer_inv (unat C) hc t \<and> consumer_inv (unat C) tc t"
proof -
  let ?T = "length (pushed s)"
  obtain v m where load: "a_load Relaxed producer Tail k (qmem s) = Some (v, m)"
    and t: "t = s\<lparr>qmem := m, ppc := if v - p_head_cache s = C then P_Load_Head x v else P_Write x v\<rparr>"
    using step pc by (auto simp: push_step_def split: option.splits)
  have ok: "mem_ok (qmem s)" using assms(1) by (simp add: index_inv_def)
  note l = load_view [OF ok load] and idx = index_inv_Tail [OF assms(1)]
  note p = assms(3) [unfolded producer_inv_def]
  have k: "k = ?T" using l(12,13) idx(1) p by simp
  have v: "v = of_nat ?T" using l(14) idx(2) k by simp
  have "seen (tview m producer) Tail = ?T"
    using l(10,11) idx(1) k by (metis le_antisym less_Suc_eq_le)
  moreover have "hc \<le> ?T" "?T - hc < 2 ^ 64"
    using p slot_inv_le [OF assms(2)] unat_u64_less [of C] by linarith+
  then have "v - p_head_cache s = C \<longleftrightarrow> ?T = hc + unat C"
    using p v by (auto simp: diff_u64_eq_iff)
  ultimately have "producer_inv (unat C) hc t"
    using p v l(8) [of consumer] l(9) [of Head] unfolding t
    by (auto simp: producer_inv_def)
  moreover have "index_inv t"
    by (rule index_inv_load [OF assms(1) load]) (simp_all add: t)
  moreover have "slot_inv (unat C) t"
    by (rule slot_inv_load [OF assms(1,2) load]) (simp_all add: t pc slot_writes_def slot_reads_def)
  moreover have "consumer_inv (unat C) tc t"
    by (rule consumer_inv_frame [OF assms(4), where xs = "[]"]) (simp_all add: t l(6))
  ultimately show ?thesis by simp
qed

lemma push_load_head_inv:
  assumes "index_inv s" "slot_inv (unat C) s" "producer_inv (unat C) hc s" "consumer_inv (unat C) tc s"
    and pc: "ppc s = P_Load_Head x t0" and step: "push_step C k s = Some t"
  shows "index_inv t \<and> slot_inv (unat C) t \<and> producer_inv (unat C) k t \<and> consumer_inv (unat C) tc t"
proof -
  let ?T = "length (pushed s)"
  obtain h m where load: "a_load Acquire producer Head k (qmem s) = Some (h, m)"
    and t: "t = s\<lparr>qmem := m, p_head_cache := h,
                 ppc := if t0 - h = C then P_Done False else P_Write x t0\<rparr>"
    using step pc by (auto simp: push_step_def split: option.splits)
  have ok: "mem_ok (qmem s)" using assms(1) by (simp add: index_inv_def)
  note l = load_view [OF ok load] and idx = index_inv_Head [OF assms(1)]
  note p = assms(3) [unfolded producer_inv_def]
  have T: "t0 = of_nat ?T" "?T = hc + unat C" using p pc by simp_all
  have k: "hc \<le> k" "k \<le> length (popped s)" using l(12,13) idx(1) p by simp_all
  have h: "h = of_nat k" using l(14) idx(2) k by simp
  have "k \<le> ?T" "?T - k < 2 ^ 64"
    using k T slot_inv_le [OF assms(2)] unat_u64_less [of C] by linarith+
  then have "t0 - h = C \<longleftrightarrow> ?T - k = unat C"
    unfolding T(1) h by (rule diff_u64_eq_iff)
  then have "t0 - h = C \<longleftrightarrow> ?T = k + unat C"
    using \<open>k \<le> ?T\<close> by (metis le_add_diff_inverse diff_add_inverse)
  moreover have "?T \<le> k + unat C" using T k by simp
  moreover have "k \<le> clock (tview m producer) consumer"
    using l(16) [of consumer] idx(3) [OF k(2)] by simp
  moreover have "seen (tview m producer) Tail = ?T"
    using l(9,10) [of Tail] index_inv_Tail(1) [OF assms(1)] p by (metis le_antisym less_Suc_eq_le)
  ultimately have "producer_inv (unat C) k t"
    using p k T h l(11) unfolding t by (auto simp: producer_inv_def)
  moreover have "index_inv t"
    by (rule index_inv_load [OF assms(1) load]) (simp_all add: t)
  moreover have "slot_inv (unat C) t"
    by (rule slot_inv_load [OF assms(1,2) load]) (simp_all add: t pc slot_writes_def slot_reads_def)
  moreover have "consumer_inv (unat C) tc t"
    by (rule consumer_inv_frame [OF assms(4), where xs = "[]"]) (simp_all add: t l(6))
  ultimately show ?thesis by simp
qed

lemma pop_load_head_inv:
  assumes "index_inv s" "slot_inv (unat C) s" "producer_inv (unat C) hc s" "consumer_inv (unat C) tc s"
    and pc: "cpc s = C_Load_Head" and step: "pop_step C k s = Some t"
  shows "index_inv t \<and> slot_inv (unat C) t \<and> producer_inv (unat C) hc t \<and> consumer_inv (unat C) tc t"
proof -
  let ?H = "length (popped s)"
  obtain v m where load: "a_load Relaxed consumer Head k (qmem s) = Some (v, m)"
    and t: "t = s\<lparr>qmem := m, cpc := if v = c_tail_cache s then C_Load_Tail v else C_Read v\<rparr>"
    using step pc by (auto simp: pop_step_def split: option.splits)
  have ok: "mem_ok (qmem s)" using assms(1) by (simp add: index_inv_def)
  note l = load_view [OF ok load] and idx = index_inv_Head [OF assms(1)]
  note c = assms(4) [unfolded consumer_inv_def] and p = assms(3) [unfolded producer_inv_def]
  have k: "k = ?H" using l(12,13) idx(1) c by simp
  have v: "v = of_nat ?H" using l(14) idx(2) k by simp
  have "seen (tview m consumer) Head = ?H"
    using l(10,11) idx(1) k by (metis le_antisym less_Suc_eq_le)
  moreover have "?H \<le> tc" "tc - ?H < 2 ^ 64"
    using c p unat_u64_less [of C] by linarith+
  then have "v = c_tail_cache s \<longleftrightarrow> tc = ?H"
    using c v by (simp add: of_nat_u64_eq_shift)
  ultimately have "consumer_inv (unat C) tc t"
    using c v l(8) [of producer] l(9) [of Tail] unfolding t
    by (auto simp: consumer_inv_def)
  moreover have "index_inv t"
    by (rule index_inv_load [OF assms(1) load]) (simp_all add: t)
  moreover have "slot_inv (unat C) t"
    by (rule slot_inv_load [OF assms(1,2) load]) (simp_all add: t pc slot_writes_def slot_reads_def)
  moreover have "producer_inv (unat C) hc t"
    by (rule producer_inv_frame [OF assms(3)]) (simp_all add: t l(2,6))
  ultimately show ?thesis by simp
qed

lemma pop_load_tail_inv:
  assumes "index_inv s" "slot_inv (unat C) s" "producer_inv (unat C) hc s" "consumer_inv (unat C) tc s"
    and pc: "cpc s = C_Load_Tail h" and step: "pop_step C k s = Some t"
  shows "index_inv t \<and> slot_inv (unat C) t \<and> producer_inv (unat C) hc t \<and> consumer_inv (unat C) k t"
proof -
  let ?H = "length (popped s)"
  obtain v m where load: "a_load Acquire consumer Tail k (qmem s) = Some (v, m)"
    and t: "t = s\<lparr>qmem := m, c_tail_cache := v, cpc := if h = v then C_Done None else C_Read h\<rparr>"
    using step pc by (auto simp: pop_step_def split: option.splits)
  have ok: "mem_ok (qmem s)" using assms(1) by (simp add: index_inv_def)
  note l = load_view [OF ok load] and idx = index_inv_Tail [OF assms(1)]
  note c = assms(4) [unfolded consumer_inv_def] and p = assms(3) [unfolded producer_inv_def]
  have h: "h = of_nat ?H" "tc = ?H" using c pc by simp_all
  have k: "?H \<le> k" "k \<le> length (pushed s)" using l(12,13) idx(1) c h by simp_all
  have v: "v = of_nat k" using l(14) idx(2) k by simp
  have "k - ?H < 2 ^ 64"
    using k p unat_u64_less [of C] by linarith
  then have "h = v \<longleftrightarrow> k = ?H"
    using h v k by (simp add: of_nat_u64_eq_shift)
  moreover have "k \<le> clock (tview m consumer) producer"
    using l(16) [of producer] idx(3) [OF k(2)] by simp
  moreover have "seen (tview m consumer) Head = ?H"
    using l(9,10) [of Head] index_inv_Head(1) [OF assms(1)] c by (metis le_antisym less_Suc_eq_le)
  ultimately have "consumer_inv (unat C) k t"
    using c k h v l(11) unfolding t by (auto simp: consumer_inv_def)
  moreover have "index_inv t"
    by (rule index_inv_load [OF assms(1) load]) (simp_all add: t)
  moreover have "slot_inv (unat C) t"
    by (rule slot_inv_load [OF assms(1,2) load]) (simp_all add: t pc slot_writes_def slot_reads_def)
  moreover have "producer_inv (unat C) hc t"
    by (rule producer_inv_frame [OF assms(3)]) (simp_all add: t l(2,6))
  ultimately show ?thesis by simp
qed

lemma push_write_inv:
  assumes "capacity_ok C"
    and "index_inv s" "slot_inv (unat C) s" "producer_inv (unat C) hc s" "consumer_inv (unat C) tc s"
    and pc: "ppc s = P_Write x t0" and step: "push_step C k s = Some t"
  shows "index_inv t \<and> slot_inv (unat C) t \<and> producer_inv (unat C) hc t \<and> consumer_inv (unat C) tc t"
proof -
  let ?T = "length (pushed s)" and ?m = "qmem s" and ?c = "unat C"
  note p = assms(4) [unfolded producer_inv_def] and si = assms(3) [unfolded slot_inv_def]
  note c = assms(5) [unfolded consumer_inv_def]
  have T: "t0 = of_nat ?T" "?T < hc + ?c" using p pc by simp_all
  have W: "slot_writes s = ?T" using pc by (simp add: slot_writes_def)
  have le: "hc \<le> length (popped s)" using p by simp
  have R: "slot_reads s \<le> ?T"
    using c slot_inv_le [OF assms(3)] by (auto simp: slot_reads_def split: consumer_pc.splits)
  have "C \<noteq> 0" using T(2) le slot_inv_le [OF assms(3)] by (auto simp: unat_eq_zero)
  then have sl: "slot C t0 = ?T mod ?c"
    using slot_of_nat [OF assms(1)] T(1) by simp
  have t: "t = s\<lparr>qmem := na_write producer (?T mod ?c) x ?m, ppc := P_Store_Tail x t0\<rparr>"
    using step pc sl by (simp add: push_step_def)
  have far: False if "?T mod ?c = n mod ?c" "n < ?T" "hc \<le> n" for n
    using that T(2) mod_ring_distinct [of hc n ?T ?c] by simp
  have old_reads: "e \<le> clock (tview ?m producer) j" if "(j, e) \<in> set (reads ?m (?T mod ?c))" for j e
  proof -
    from that si obtain n where n: "j = consumer" "n < slot_reads s" "e = Suc n" "n mod ?c = ?T mod ?c"
      by metis
    then have "n < hc" using far [of n] R by force
    then show ?thesis using n p by simp
  qed
  have "\<not> race (qmem t)"
    using si W old_reads unfolding t by (auto simp: ordered_def list_all_iff)
  moreover have "slot_writes t = Suc ?T" "slot_reads t = slot_reads s"
    using pc by (simp_all add: t slot_writes_def slot_reads_def)
  moreover have "cell (qmem t) (n mod ?c) = pushed s ! n" if "length (popped s) \<le> n" "n < ?T" for n
    using si that far [of n] le by (auto simp: t)
  moreover have "wrote (qmem t) (n mod ?c) = (producer, Suc n)" if "n < Suc ?T" "Suc ?T \<le> n + ?c" for n
  proof (cases "n = ?T")
    case False
    then have "n mod ?c \<noteq> ?T mod ?c"
      using that mod_ring_distinct [of n n ?T ?c] by simp
    then show ?thesis using si that False W by (simp add: t)
  qed (use si W in \<open>simp add: t\<close>)
  ultimately have "slot_inv ?c t"
    using si W unfolding slot_inv_def by (auto simp: t le_SucI)
  moreover have "index_inv t"
    using assms(2) by (simp add: t index_inv_def na_write_ok)
  moreover have "producer_inv ?c hc t"
    using p T by (simp add: t producer_inv_def)
  moreover have "consumer_inv ?c tc t"
    by (rule consumer_inv_frame [OF assms(5), where xs = "[]"]) (simp_all add: t)
  ultimately show ?thesis by simp
qed

lemma push_store_tail_inv:
  assumes "index_inv s" "slot_inv c s" "producer_inv c hc s" "consumer_inv c tc s"
    and pc: "ppc s = P_Store_Tail x t0" and step: "push_step C k s = Some t"
  shows "index_inv t \<and> slot_inv c t \<and> producer_inv c hc t \<and> consumer_inv c tc t"
proof -
  let ?T = "length (pushed s)" and ?m = "qmem s"
  note p = assms(3) [unfolded producer_inv_def] and si = assms(2) [unfolded slot_inv_def]
  have T: "t0 = of_nat ?T" "?T < hc + c" "cell ?m (?T mod c) = x" using p pc by simp_all
  have W: "slot_writes s = Suc ?T" using pc by (simp add: slot_writes_def)
  have t: "t = s\<lparr>qmem := a_store Release producer Tail (of_nat (Suc ?T)) ?m,
                 pushed := pushed s @ [x], ppc := P_Done True\<rparr>"
    using step pc T(1) by (simp add: push_step_def add.commute)
  have Wt: "slot_writes t = slot_writes s" "slot_reads t = slot_reads s"
    using pc by (simp_all add: t slot_writes_def slot_reads_def)
  have len: "length (hist ?m Tail) = Suc ?T" by (rule index_inv_Tail [OF assms(1)])
  have "index_inv t"
    using assms(1) len W si a_store_ok [of ?m]
    unfolding index_inv_def t by (auto simp: nth_append le_Suc_eq)
  moreover have "slot_inv c t"
    using si T slot_inv_le [OF assms(2)] unfolding slot_inv_def Wt
    by (auto simp: t nth_append less_Suc_eq)
  moreover have "producer_inv c hc t"
    using p T len by (simp add: t producer_inv_def)
  moreover have "consumer_inv c tc t"
    by (rule consumer_inv_frame [OF assms(4), where xs = "[x]"]) (simp_all add: t)
  ultimately show ?thesis by simp
qed

lemma pop_read_inv:
  assumes "capacity_ok C"
    and "index_inv s" "slot_inv (unat C) s" "producer_inv (unat C) hc s" "consumer_inv (unat C) tc s"
    and pc: "cpc s = C_Read h" and step: "pop_step C k s = Some t"
  shows "index_inv t \<and> slot_inv (unat C) t \<and> producer_inv (unat C) hc t \<and> consumer_inv (unat C) tc t"
proof -
  let ?H = "length (popped s)" and ?m = "qmem s" and ?c = "unat C"
  note p = assms(4) [unfolded producer_inv_def] and si = assms(3) [unfolded slot_inv_def]
  note c = assms(5) [unfolded consumer_inv_def]
  have H: "h = of_nat ?H" "?H < tc" using c pc by simp_all
  have R: "slot_reads s = ?H" using pc by (simp add: slot_reads_def)
  have W: "?H < slot_writes s" "slot_writes s \<le> ?H + ?c"
    using H c p by (auto simp: slot_writes_def split: producer_pc.splits)
  then have "C \<noteq> 0" by auto
  then have sl: "slot C h = ?H mod ?c"
    using slot_of_nat [OF assms(1)] H(1) by simp
  have v: "cell ?m (?H mod ?c) = pushed s ! ?H" using si H c by simp
  have t: "t = s\<lparr>qmem := snd (na_read consumer (?H mod ?c) ?m), cpc := C_Store_Head h (pushed s ! ?H)\<rparr>"
    using step pc sl v by (simp add: pop_step_def case_prod_beta)
  have wrote: "wrote ?m (?H mod ?c) = (producer, Suc ?H)" using si W by simp
  have "\<not> race (qmem t)"
    using si wrote H c by (simp add: t ordered_def)
  moreover have f: "slot_writes t = slot_writes s" "slot_reads t = Suc ?H" "popped t = popped s"
    "pushed t = pushed s" "cell (qmem t) = cell ?m" "wrote (qmem t) = wrote ?m"
    "clock (tview (qmem t) producer) producer = clock (tview ?m producer) producer"
    "clock (tview (qmem t) consumer) consumer = Suc (clock (tview ?m consumer) consumer)"
    using pc by (simp_all add: t slot_writes_def slot_reads_def)
  moreover have "j = consumer \<and> (\<exists>n. n < Suc ?H \<and> e = Suc n \<and> n mod ?c = i)"
    if "(j, e) \<in> set (reads (qmem t) i)" for i j e
  proof (cases "(j, e) \<in> set (reads ?m i)")
    case True
    then show ?thesis using si R by (metis less_SucI)
  next
    case False
    then have "j = consumer" "e = Suc ?H" "?H mod ?c = i"
      using that si R by (auto simp: t split: if_splits)
    then show ?thesis by blast
  qed
  ultimately have "slot_inv ?c t"
    using si R unfolding slot_inv_def f by simp
  moreover have "index_inv t"
    using assms(2) by (simp add: t index_inv_def na_read_ok)
  moreover have "producer_inv ?c hc t"
    by (rule producer_inv_frame [OF assms(4)]) (simp_all add: t)
  moreover have "consumer_inv ?c tc t"
    using c H by (simp add: t consumer_inv_def)
  ultimately show ?thesis by simp
qed

lemma pop_store_head_inv:
  assumes "index_inv s" "slot_inv c s" "producer_inv c hc s" "consumer_inv c tc s"
    and pc: "cpc s = C_Store_Head h v" and step: "pop_step C k s = Some t"
  shows "index_inv t \<and> slot_inv c t \<and> producer_inv c hc t \<and> consumer_inv c tc t"
proof -
  let ?H = "length (popped s)" and ?m = "qmem s"
  note co = assms(4) [unfolded consumer_inv_def] and si = assms(2) [unfolded slot_inv_def]
  have H: "h = of_nat ?H" "?H < tc" "v = pushed s ! ?H" "tc \<le> length (pushed s)"
    using co pc by simp_all
  have R: "slot_reads s = Suc ?H" using pc by (simp add: slot_reads_def)
  have t: "t = s\<lparr>qmem := a_store Release consumer Head (of_nat (Suc ?H)) ?m,
                 popped := popped s @ [v], cpc := C_Done (Some v)\<rparr>"
    using step pc H(1) by (simp add: pop_step_def add.commute)
  have Rt: "slot_writes t = slot_writes s" "slot_reads t = slot_reads s"
    using pc by (simp_all add: t slot_writes_def slot_reads_def)
  have len: "length (hist ?m Head) = Suc ?H" by (rule index_inv_Head [OF assms(1)])
  have "popped s @ [v] = take (Suc ?H) (pushed s)"
    using si H by (simp add: take_Suc_conv_app_nth)
  moreover from H have "min (length (pushed s)) (Suc ?H) = Suc ?H"
    by simp
  ultimately have "slot_inv c t"
    using si unfolding slot_inv_def Rt by (auto simp: t)
  moreover have "index_inv t"
    using assms(1) len R si a_store_ok [of ?m]
    unfolding index_inv_def t by (auto simp: nth_append le_Suc_eq)
  moreover have "producer_inv c hc t"
    by (rule producer_inv_frame [OF assms(3)]) (simp_all add: t)
  moreover have "consumer_inv c tc t"
    using co H len by (simp add: t consumer_inv_def)
  ultimately show ?thesis by simp
qed

lemma observe_inv:
  assumes "index_inv s" "slot_inv c s" "producer_inv c hc s" "consumer_inv c tc s"
    and load: "a_load Relaxed i a k (qmem s) = Some (x, m)"
  shows "index_inv (s\<lparr>qmem := m\<rparr>) \<and> slot_inv c (s\<lparr>qmem := m\<rparr>) \<and>
         producer_inv c hc (s\<lparr>qmem := m\<rparr>) \<and> consumer_inv c tc (s\<lparr>qmem := m\<rparr>)"
proof -
  have ok: "mem_ok (qmem s)" using assms(1) by (simp add: index_inv_def)
  note l = load_view [OF ok load]
  have mono: "seen (tview (qmem s) j) b \<le> seen (tview m j) b"
    "clock (tview (qmem s) j) j' \<le> clock (tview m j) j'" for j b j'
    using l(6,8,9) by (cases "j = i"; simp)+
  have bound: "seen (tview m j) b < length (hist (qmem s) b)" for j b
    using l(6,10) mem_ok_tview [OF ok, of j] by (cases "j = i") (auto simp: view_ok_def)
  have own: "seen (tview m producer) Tail = seen (tview (qmem s) producer) Tail"
    using mono(1) [of producer Tail] bound [of producer Tail] index_inv_Tail(1) [OF assms(1)] assms(3)
    by (simp add: producer_inv_def)
  have own': "seen (tview m consumer) Head = seen (tview (qmem s) consumer) Head"
    using mono(1) [where j = consumer and b = Head] bound [where j = consumer and b = Head]
      index_inv_Head(1) [OF assms(1)] assms(4)
    by (simp add: consumer_inv_def)
  have "index_inv (s\<lparr>qmem := m\<rparr>)"
    by (rule index_inv_load [OF assms(1) load]) simp_all
  moreover have "slot_inv c (s\<lparr>qmem := m\<rparr>)"
    by (rule slot_inv_load [OF assms(1,2) load]) (simp_all add: slot_writes_def slot_reads_def)
  moreover have "producer_inv c hc (s\<lparr>qmem := m\<rparr>)"
    by (rule producer_inv_frame [OF assms(3)]) (simp_all add: l(2) own mono)
  moreover have "consumer_inv c tc (s\<lparr>qmem := m\<rparr>)"
    by (rule consumer_inv_frame [OF assms(4), where xs = "[]"]) (simp_all add: own' mono)
  ultimately show ?thesis by simp
qed

text \<open>Calls and returns touch only the program counter.\<close>

lemma index_inv_cong:
  "qmem t = qmem s \<Longrightarrow> pushed t = pushed s \<Longrightarrow> popped t = popped s \<Longrightarrow> index_inv t = index_inv s"
  by (simp add: index_inv_def)

lemma slot_inv_cong:
  "qmem t = qmem s \<Longrightarrow> pushed t = pushed s \<Longrightarrow> popped t = popped s \<Longrightarrow>
     slot_writes t = slot_writes s \<Longrightarrow> slot_reads t = slot_reads s \<Longrightarrow> slot_inv c t = slot_inv c s"
  by (simp add: slot_inv_def)

lemma ppc_change_inv:
  assumes "spsc_inv C s" and "ppc s = P_Idle \<and> pc = P_Load_Tail x \<or> ppc s = P_Done b \<and> pc = P_Idle"
  shows "spsc_inv C (s\<lparr>ppc := pc\<rparr>)"
proof -
  obtain hc tc where i: "index_inv s" "slot_inv (unat C) s" "producer_inv (unat C) hc s"
    "consumer_inv (unat C) tc s"
    using assms(1) by (auto simp: spsc_inv_def)
  have "index_inv (s\<lparr>ppc := pc\<rparr>)"
    using i(1) index_inv_cong [of "s\<lparr>ppc := pc\<rparr>" s] by simp
  moreover have "slot_inv (unat C) (s\<lparr>ppc := pc\<rparr>)"
    using i(2) slot_inv_cong [of "s\<lparr>ppc := pc\<rparr>" s] assms(2)
    by (auto simp: slot_writes_def slot_reads_def)
  moreover have "producer_inv (unat C) hc (s\<lparr>ppc := pc\<rparr>)"
    using i(3) assms(2) by (auto simp: producer_inv_def)
  moreover have "consumer_inv (unat C) tc (s\<lparr>ppc := pc\<rparr>)"
    by (rule consumer_inv_frame [OF i(4), where xs = "[]"]) simp_all
  ultimately show ?thesis unfolding spsc_inv_def by blast
qed

lemma cpc_change_inv:
  assumes "spsc_inv C s" and "cpc s = C_Idle \<and> pc = C_Load_Head \<or> cpc s = C_Done r \<and> pc = C_Idle"
  shows "spsc_inv C (s\<lparr>cpc := pc\<rparr>)"
proof -
  obtain hc tc where i: "index_inv s" "slot_inv (unat C) s" "producer_inv (unat C) hc s"
    "consumer_inv (unat C) tc s"
    using assms(1) by (auto simp: spsc_inv_def)
  have "index_inv (s\<lparr>cpc := pc\<rparr>)"
    using i(1) index_inv_cong [of "s\<lparr>cpc := pc\<rparr>" s] by simp
  moreover have "slot_inv (unat C) (s\<lparr>cpc := pc\<rparr>)"
    using i(2) slot_inv_cong [of "s\<lparr>cpc := pc\<rparr>" s] assms(2)
    by (auto simp: slot_writes_def slot_reads_def)
  moreover have "producer_inv (unat C) hc (s\<lparr>cpc := pc\<rparr>)"
    by (rule producer_inv_frame [OF i(3)]) simp_all
  moreover have "consumer_inv (unat C) tc (s\<lparr>cpc := pc\<rparr>)"
    using i(4) assms(2) by (auto simp: consumer_inv_def)
  ultimately show ?thesis unfolding spsc_inv_def by blast
qed

lemma push_step_inv:
  assumes "capacity_ok C" and inv: "spsc_inv C s" and step: "push_step C k s = Some t"
  shows "spsc_inv C t"
proof -
  obtain hc tc where i: "index_inv s" "slot_inv (unat C) s" "producer_inv (unat C) hc s"
    "consumer_inv (unat C) tc s"
    using inv by (auto simp: spsc_inv_def)
  show ?thesis
  proof (cases "ppc s")
    case (P_Load_Tail x)
    from push_load_tail_inv [OF i this step] show ?thesis by (auto simp: spsc_inv_def)
  next
    case (P_Load_Head x t0)
    from push_load_head_inv [OF i this step] show ?thesis by (auto simp: spsc_inv_def)
  next
    case (P_Write x t0)
    from push_write_inv [OF assms(1) i this step] show ?thesis by (auto simp: spsc_inv_def)
  next
    case (P_Store_Tail x t0)
    from push_store_tail_inv [OF i this step] show ?thesis by (auto simp: spsc_inv_def)
  qed (use step in \<open>simp_all add: push_step_def\<close>)
qed

lemma pop_step_inv:
  assumes "capacity_ok C" and inv: "spsc_inv C s" and step: "pop_step C k s = Some t"
  shows "spsc_inv C t"
proof -
  obtain hc tc where i: "index_inv s" "slot_inv (unat C) s" "producer_inv (unat C) hc s"
    "consumer_inv (unat C) tc s"
    using inv by (auto simp: spsc_inv_def)
  show ?thesis
  proof (cases "cpc s")
    case C_Load_Head
    from pop_load_head_inv [OF i this step] show ?thesis by (auto simp: spsc_inv_def)
  next
    case (C_Load_Tail h)
    from pop_load_tail_inv [OF i this step] show ?thesis by (auto simp: spsc_inv_def)
  next
    case (C_Read h)
    from pop_read_inv [OF assms(1) i this step] show ?thesis by (auto simp: spsc_inv_def)
  next
    case (C_Store_Head h v)
    from pop_store_head_inv [OF i this step] show ?thesis by (auto simp: spsc_inv_def)
  qed (use step in \<open>simp_all add: pop_step_def\<close>)
qed

lemma observe_step_inv:
  assumes "spsc_inv C s" and "a_load Relaxed i a k (qmem s) = Some (x, m)"
  shows "spsc_inv C (s\<lparr>qmem := m\<rparr>)"
  using assms(1) observe_inv [OF _ _ _ _ assms(2)] unfolding spsc_inv_def by blast

lemma spsc_next_inv:
  assumes "capacity_ok C" and inv: "spsc_inv C s" and step: "spsc_next C a s = Some t"
  shows "spsc_inv C t"
proof (cases a)
  case (Step_Push k)
  with step push_step_inv [OF assms(1,2)] show ?thesis by (simp add: spsc_next_def)
next
  case (Step_Pop k)
  with step pop_step_inv [OF assms(1,2)] show ?thesis by (simp add: spsc_next_def)
next
  case (Observe j x k)
  with step observe_step_inv [OF inv] show ?thesis
    by (auto simp: spsc_next_def split: option.splits)
next
  case (Call_Push x)
  with step ppc_change_inv [OF inv, of "P_Load_Tail x" x] show ?thesis
    by (simp add: spsc_next_def split: if_splits)
next
  case Ret_Push
  with step ppc_change_inv [OF inv, of P_Idle] show ?thesis
    by (auto simp: spsc_next_def split: producer_pc.splits)
next
  case Call_Pop
  with step cpc_change_inv [OF inv, of C_Load_Head] show ?thesis
    by (simp add: spsc_next_def split: if_splits)
next
  case Ret_Pop
  with step cpc_change_inv [OF inv, of C_Idle] show ?thesis
    by (auto simp: spsc_next_def split: consumer_pc.splits)
qed

lemma spsc_inv_init: "spsc_inv C (spsc_init g)"
proof -
  have "index_inv (spsc_init g) \<and> slot_inv (unat C) (spsc_init g) \<and>
      producer_inv (unat C) 0 (spsc_init g) \<and> consumer_inv (unat C) 0 (spsc_init g)"
    by (simp add: spsc_init_def index_inv_def slot_inv_def producer_inv_def consumer_inv_def
        slot_writes_def slot_reads_def mem_ok_init)
  then show ?thesis unfolding spsc_inv_def by blast
qed

interpretation spsc_machine: machine "spsc_next C" "spsc_init g" "\<lambda>s. capacity_ok C \<longrightarrow> spsc_inv C s"
  for C g
  by unfold_locales (auto intro: spsc_inv_init spsc_next_inv)

end
