(* ===== verification/Spsc_Guarantees.thy ===== *)
theory Spsc_Guarantees
  imports Spsc_Concurrent
begin

text \<open>
  What the two threads of \<open>SpscQueue\<close> may rely on, derived from the invariant of
  \<open>Spsc_Concurrent\<close>: the abstract queue that every step refines, exact full and empty
  answers, bounded calls, agreement with the sequential members, and what \<open>size()\<close> means
  to each kind of caller.
\<close>

section \<open>Reading the invariant\<close>

lemma reach_spsc_inv: "capacity_ok C \<Longrightarrow> reach (spsc_next C) (spsc_init g) s \<Longrightarrow> spsc_inv C s"
  using spsc_machine.inv_reach by blast

text \<open>The items in the queue: published and not yet taken.\<close>

definition queued :: "'T spsc_sys \<Rightarrow> 'T list" where
  "queued s = drop (length (popped s)) (pushed s)"

lemma spsc_inv_facts:
  assumes "spsc_inv C s"
  shows "popped s = take (length (popped s)) (pushed s)"
    and "length (popped s) \<le> length (pushed s)"
    and "length (pushed s) \<le> length (popped s) + unat C"
    and "\<not> race (qmem s)"
    and "popped s @ queued s = pushed s"
    and "length (queued s) = length (pushed s) - length (popped s)"
proof -
  obtain hc tc where i: "slot_inv (unat C) s" "producer_inv (unat C) hc s"
    using assms by (auto simp: spsc_inv_def)
  show p: "popped s = take (length (popped s)) (pushed s)"
    using i(1) by (simp add: slot_inv_def)
  show "length (popped s) \<le> length (pushed s)"
    by (rule slot_inv_le [OF i(1)])
  show "length (pushed s) \<le> length (popped s) + unat C"
    using i(2) by (simp add: producer_inv_def)
  show "\<not> race (qmem s)"
    using i(1) by (simp add: slot_inv_def)
  show "popped s @ queued s = pushed s"
    using p by (metis append_take_drop_id queued_def)
  show "length (queued s) = length (pushed s) - length (popped s)"
    by (simp add: queued_def)
qed

section \<open>Safety\<close>

text \<open>A concrete execution for the witnesses: two slots, wrapping round the ring, a pop that
  overlaps a push, and a push that finds its cached head stale.\<close>

definition demo_schedule :: "nat action list" where
  "demo_schedule =
     [Call_Push 5, Step_Push 0, Step_Push 0, Call_Pop, Step_Pop 0, Step_Push 0, Step_Pop 1,
      Step_Pop 0, Step_Pop 0, Ret_Push, Call_Push 6, Step_Push 1, Ret_Pop, Step_Push 0,
      Step_Push 0, Ret_Push, Call_Push 7, Step_Push 2, Step_Push 1, Step_Push 0, Step_Push 0]"

text \<open>
  Property C1. The queue is free of data races in the C++ sense: in every execution of one
  producer and one consumer, every access to a slot is ordered by happens-before after the
  conflicting accesses, by the release stores and acquire loads of \<open>head_\<close> and \<open>tail_\<close>
  that the code makes, even though most calls skip the acquire load and trust a cached index.
\<close>

theorem spsc_no_data_race:
  assumes "capacity_ok C" and "reach (spsc_next C) (spsc_init g) s"
  shows "\<not> race (qmem s)"
  using spsc_inv_facts(4) [OF reach_spsc_inv [OF assms]] .

theorem spsc_no_data_race_witness:
  "\<exists>s. reach (spsc_next 2) (spsc_init (\<lambda>_. 0 :: nat)) s \<and> pushed s = [5, 6, 7] \<and> \<not> race (qmem s)"
proof -
  have "run_to (spsc_next 2) demo_schedule (spsc_init (\<lambda>_. 0)) (\<lambda>s. pushed s = [5, 6, 7])"
    by code_simp
  then obtain s :: "nat spsc_sys" where s: "reach (spsc_next 2) (spsc_init (\<lambda>_. 0)) s" "pushed s = [5, 6, 7]"
    by (blast dest: run_toD)
  have "capacity_ok 2" by code_simp
  with s spsc_no_data_race [OF _ s(1)] show ?thesis by blast
qed

text \<open>
  Property C2. First in, first out, exactly once: what has been popped is at every moment an
  initial part of what has been pushed, so no item is lost, duplicated, reordered or read
  before it was written, for any number of items and across the wrap-around of the indices.
\<close>

theorem spsc_fifo:
  assumes "capacity_ok C" and "reach (spsc_next C) (spsc_init g) s"
  shows "popped s @ queued s = pushed s"
  using spsc_inv_facts(5) [OF reach_spsc_inv [OF assms]] .

theorem spsc_fifo_witness:
  "\<exists>s. reach (spsc_next 2) (spsc_init (\<lambda>_. 0 :: nat)) s \<and> popped s = [5] \<and> [5] @ queued s = [5, 6, 7]"
proof -
  have "run_to (spsc_next 2) demo_schedule (spsc_init (\<lambda>_. 0))
          (\<lambda>s. pushed s = [5, 6, 7] \<and> popped s = [5])"
    by code_simp
  then obtain s :: "nat spsc_sys" where s: "reach (spsc_next 2) (spsc_init (\<lambda>_. 0)) s"
      "pushed s = [5, 6, 7]" "popped s = [5]"
    by (blast dest: run_toD)
  have "capacity_ok 2" by code_simp
  with s spsc_fifo [OF _ s(1)] show ?thesis by metis
qed

text \<open>What a client sees of a step: the store of \<open>tail_\<close> enqueues, the store of \<open>head_\<close> dequeues.\<close>

definition event_of :: "'T action \<Rightarrow> 'T spsc_sys \<Rightarrow> 'T event" where
  "event_of a s =
     (case a of
        Step_Push k \<Rightarrow> (case ppc s of P_Store_Tail x t \<Rightarrow> Enqueue x | _ \<Rightarrow> Internal)
      | Step_Pop k \<Rightarrow> (case cpc s of C_Store_Head h v \<Rightarrow> Dequeue v | _ \<Rightarrow> Internal)
      | _ \<Rightarrow> Internal)"

lemma step_histories:
  assumes "spsc_next C a s = Some t"
  shows "pushed t = (case event_of a s of Enqueue x \<Rightarrow> pushed s @ [x] | _ \<Rightarrow> pushed s)"
    and "popped t = (case event_of a s of Dequeue v \<Rightarrow> popped s @ [v] | _ \<Rightarrow> popped s)"
  using assms
  by (auto simp: spsc_next_def event_of_def push_step_def pop_step_def
      split: action.splits producer_pc.splits consumer_pc.splits if_splits option.splits prod.splits)

lemma spsc_inv_enqueue:
  assumes "spsc_inv C s" and "ppc s = P_Store_Tail x t"
  shows "length (pushed s) < length (popped s) + unat C"
  using assms by (auto simp: spsc_inv_def producer_inv_def)

lemma spsc_inv_dequeue:
  assumes "spsc_inv C s" and "cpc s = C_Store_Head h v"
  shows "length (popped s) < length (pushed s) \<and> pushed s ! length (popped s) = v"
  using assms by (auto simp: spsc_inv_def consumer_inv_def)

text \<open>
  Property C3. Every access of the code is a step of the abstract bounded queue: the release
  store of \<open>tail_\<close> enqueues, and only when there is room; the release store of \<open>head_\<close>
  dequeues the oldest item; every other access changes nothing a client can see.
\<close>

theorem spsc_step_refines_fifo:
  assumes "capacity_ok C" and "reach (spsc_next C) (spsc_init g) s"
    and "spsc_next C a s = Some t"
  shows "fifo_step (unat C) (queued s) (event_of a s) (queued t)"
proof -
  have inv: "spsc_inv C s" by (rule reach_spsc_inv [OF assms(1,2)])
  note h = step_histories [OF assms(3)] and f = spsc_inv_facts [OF inv]
  show ?thesis
  proof (cases "event_of a s")
    case (Enqueue x)
    then obtain t0 where "ppc s = P_Store_Tail x t0"
      by (auto simp: event_of_def split: action.splits producer_pc.splits consumer_pc.splits)
    from spsc_inv_enqueue [OF inv this] Enqueue h f(2) show ?thesis
      by (auto simp: queued_def fifo_step_simps)
  next
    case (Dequeue v)
    then obtain h0 where "cpc s = C_Store_Head h0 v"
      by (auto simp: event_of_def split: action.splits producer_pc.splits consumer_pc.splits)
    from spsc_inv_dequeue [OF inv this] Dequeue h show ?thesis
      by (auto simp: queued_def fifo_step_simps Cons_nth_drop_Suc [symmetric])
  next
    case Internal
    with h show ?thesis by (simp add: queued_def fifo_step_simps)
  qed
qed

theorem spsc_step_refines_fifo_witness:
  "\<exists>s t. reach (spsc_next 2) (spsc_init (\<lambda>_. 0 :: nat)) s \<and> spsc_next 2 (Step_Push 0) s = Some t \<and>
         fifo_step 2 (queued s) (Enqueue 7) (queued t)"
proof -
  have "run_step_to (spsc_next 2) (take 20 demo_schedule) (spsc_init (\<lambda>_. 0))
          (\<lambda>s. event_of (Step_Push 0) s = Enqueue 7) (Step_Push 0) (\<lambda>t. True)"
    by code_simp
  then obtain s :: "nat spsc_sys" and t where s: "reach (spsc_next 2) (spsc_init (\<lambda>_. 0)) s"
      "event_of (Step_Push 0) s = Enqueue 7" "spsc_next 2 (Step_Push 0) s = Some t"
    by (blast dest: run_step_toD)
  have "capacity_ok 2" by code_simp
  with s spsc_step_refines_fifo [OF _ s(1,3)] show ?thesis by auto
qed

lemma spsc_inv_slot_access:
  assumes "spsc_inv C s" and "ppc s = P_Write x i \<or> cpc s = C_Read i"
  shows "C \<noteq> 0"
  using assms by (auto simp: spsc_inv_def producer_inv_def consumer_inv_def)

text \<open>
  Property C16. The queue never holds more than \<open>Capacity\<close> items, and the subscript of every
  slot access lies inside the array \<open>buf_\<close>.
\<close>

theorem spsc_bounded:
  assumes "capacity_ok C" and "reach (spsc_next C) (spsc_init g) s"
  shows "length (queued s) \<le> unat C \<and>
         (ppc s = P_Write x i \<or> cpc s = C_Read i \<longrightarrow> slot C i < unat C)"
proof -
  have inv: "spsc_inv C s" by (rule reach_spsc_inv [OF assms])
  have "length (queued s) \<le> unat C"
    using spsc_inv_facts(2,3,6) [OF inv] by simp
  then show ?thesis
    using slot_less [OF assms(1)] spsc_inv_slot_access [OF inv] by blast
qed

theorem spsc_bounded_witness:
  "\<exists>s. reach (spsc_next 2) (spsc_init (\<lambda>_. 0 :: nat)) s \<and> length (queued s) \<le> 2 \<and>
       ppc s = P_Write 7 2 \<and> slot 2 2 < 2"
proof -
  have "run_to (spsc_next 2) (take 19 demo_schedule) (spsc_init (\<lambda>_. 0)) (\<lambda>s. ppc s = P_Write 7 2)"
    by code_simp
  then obtain s :: "nat spsc_sys" where s: "reach (spsc_next 2) (spsc_init (\<lambda>_. 0)) s" "ppc s = P_Write 7 2"
    by (blast dest: run_toD)
  have "capacity_ok 2" by code_simp
  with s spsc_bounded [OF _ s(1)] show ?thesis by auto
qed

section \<open>What a call answers\<close>

lemma push_full_test:
  assumes inv: "spsc_inv C s" and pc: "ppc s = P_Load_Head x t0"
    and step: "push_step C (length (popped s)) s = Some t"
  shows "ppc t = P_Done False \<longleftrightarrow> length (queued s) = unat C"
proof -
  let ?T = "length (pushed s)" and ?H = "length (popped s)"
  obtain hc tc where i: "index_inv s" "slot_inv (unat C) s" "producer_inv (unat C) hc s"
    using inv by (auto simp: spsc_inv_def)
  have T: "t0 = of_nat ?T" "?T = hc + unat C" "hc \<le> ?H"
    using i(3) pc by (simp_all add: producer_inv_def)
  obtain h m where load: "a_load Acquire producer Head ?H (qmem s) = Some (h, m)"
    and t: "ppc t = (if t0 - h = C then P_Done False else P_Write x t0)"
    using step pc by (auto simp: push_step_def split: option.splits)
  have h: "h = of_nat ?H"
    using load index_inv_Head(2) [OF i(1), of ?H] by (simp add: a_load_Some)
  have "?H \<le> ?T" "?T - ?H < 2 ^ 64"
    using T slot_inv_le [OF i(2)] unat_u64_less [of C] by linarith+
  then have "t0 - h = C \<longleftrightarrow> ?T - ?H = unat C"
    unfolding T(1) h by (rule diff_u64_eq_iff)
  then show ?thesis using t by (simp add: queued_def)
qed

text \<open>
  Property C17. \<open>try_push\<close> answers \<open>false\<close> only on the evidence of a head index it has just
  acquired: when that load returns the newest value, the answer is \<open>false\<close> exactly if the
  queue holds \<open>Capacity\<close> items at that moment.  A stale cached head alone never makes a push
  fail.
\<close>

theorem push_reports_full_exactly:
  assumes "capacity_ok C" and "reach (spsc_next C) (spsc_init g) s"
    and "ppc s = P_Load_Head x t0" and "spsc_next C (Step_Push (length (popped s))) s = Some t"
  shows "ppc t = P_Done False \<longleftrightarrow> length (queued s) = unat C"
  using push_full_test [OF reach_spsc_inv [OF assms(1,2)] assms(3)] assms(4)
  by (simp add: spsc_next_def)

text \<open>Fill a queue of one slot and push again.\<close>

definition full_schedule :: "nat action list" where
  "full_schedule =
     [Call_Push 5, Step_Push 0, Step_Push 0, Step_Push 0, Ret_Push, Call_Push 6, Step_Push 1]"

theorem push_reports_full_exactly_witness:
  "\<exists>s t. reach (spsc_next 1) (spsc_init (\<lambda>_. 0 :: nat)) s \<and>
         spsc_next 1 (Step_Push 0) s = Some t \<and> ppc t = P_Done False \<and> length (queued s) = 1"
proof -
  have "run_step_to (spsc_next 1) full_schedule (spsc_init (\<lambda>_. 0))
          (\<lambda>s. ppc s = P_Load_Head 6 1 \<and> popped s = []) (Step_Push 0) (\<lambda>t. ppc t = P_Done False)"
    by code_simp
  then obtain s t :: "nat spsc_sys" where s: "reach (spsc_next 1) (spsc_init (\<lambda>_. 0)) s"
      "ppc s = P_Load_Head 6 1" "popped s = []" "spsc_next 1 (Step_Push 0) s = Some t" "ppc t = P_Done False"
    by (blast dest: run_step_toD)
  have "capacity_ok 1" by code_simp
  with s push_reports_full_exactly [OF _ s(1,2), of t] show ?thesis by auto
qed

lemma pop_empty_test:
  assumes inv: "spsc_inv C s" and pc: "cpc s = C_Load_Tail h"
    and step: "pop_step C (length (pushed s)) s = Some t"
  shows "cpc t = C_Done None \<longleftrightarrow> queued s = []"
proof -
  let ?T = "length (pushed s)" and ?H = "length (popped s)"
  obtain hc tc where i: "index_inv s" "slot_inv (unat C) s" "producer_inv (unat C) hc s"
    "consumer_inv (unat C) tc s"
    using inv by (auto simp: spsc_inv_def)
  have h: "h = of_nat ?H"
    using i(4) pc by (simp add: consumer_inv_def)
  obtain v m where load: "a_load Acquire consumer Tail ?T (qmem s) = Some (v, m)"
    and t: "cpc t = (if h = v then C_Done None else C_Read h)"
    using step pc by (auto simp: pop_step_def split: option.splits)
  have v: "v = of_nat ?T"
    using load index_inv_Tail(2) [OF i(1), of ?T] by (simp add: a_load_Some)
  have le: "?H \<le> ?T" "?T - ?H < 2 ^ 64"
    using spsc_inv_facts(2,3) [OF inv] unat_u64_less [of C] by linarith+
  then have "h = v \<longleftrightarrow> ?T = ?H"
    unfolding h v by (rule of_nat_u64_eq_shift)
  then show ?thesis using t le by (auto simp: queued_def)
qed

text \<open>
  \<open>try_pop\<close> answers \<open>false\<close> only on the evidence of a tail index it has just
  acquired: when that load returns the newest value, the answer is \<open>false\<close> exactly if the
  queue is empty at that moment.
\<close>

theorem pop_reports_empty_exactly:
  assumes "capacity_ok C" and "reach (spsc_next C) (spsc_init g) s"
    and "cpc s = C_Load_Tail h" and "spsc_next C (Step_Pop (length (pushed s))) s = Some t"
  shows "cpc t = C_Done None \<longleftrightarrow> queued s = []"
  using pop_empty_test [OF reach_spsc_inv [OF assms(1,2)] assms(3)] assms(4)
  by (simp add: spsc_next_def)

theorem pop_reports_empty_exactly_witness:
  "\<exists>s t. reach (spsc_next 1) (spsc_init (\<lambda>_. 0 :: nat)) s \<and>
         spsc_next 1 (Step_Pop 0) s = Some t \<and> cpc t = C_Done None \<and> queued s = []"
proof -
  have "run_step_to (spsc_next 1) [Call_Pop, Step_Pop 0] (spsc_init (\<lambda>_. 0 :: nat))
          (\<lambda>s. cpc s = C_Load_Tail 0 \<and> pushed s = []) (Step_Pop 0) (\<lambda>t. cpc t = C_Done None)"
    by code_simp
  then obtain s t :: "nat spsc_sys" where s: "reach (spsc_next 1) (spsc_init (\<lambda>_. 0)) s"
      "cpc s = C_Load_Tail 0" "pushed s = []" "spsc_next 1 (Step_Pop 0) s = Some t" "cpc t = C_Done None"
    by (blast dest: run_step_toD)
  have "capacity_ok 1" by code_simp
  with s pop_reports_empty_exactly [OF _ s(1,2), of t] show ?thesis by auto
qed

section \<open>Calls end\<close>

text \<open>Accesses a call in progress still has to make, at most.\<close>

fun push_rank :: "'T producer_pc \<Rightarrow> nat" where
  "push_rank (P_Load_Tail x) = 4"
| "push_rank (P_Load_Head x t) = 3"
| "push_rank (P_Write x t) = 2"
| "push_rank (P_Store_Tail x t) = 1"
| "push_rank _ = 0"

fun pop_rank :: "'T consumer_pc \<Rightarrow> nat" where
  "pop_rank C_Load_Head = 4"
| "pop_rank (C_Load_Tail h) = 3"
| "pop_rank (C_Read h) = 2"
| "pop_rank (C_Store_Head h v) = 1"
| "pop_rank _ = 0"

lemma newest_readable:
  assumes "mem_ok m"
  shows "\<exists>x m'. a_load mo i a (length (hist m a) - 1) m = Some (x, m')"
proof -
  have "seen (tview m i) a < length (hist m a)"
    using mem_ok_tview [OF assms, of i] by (simp add: view_ok_def)
  then show ?thesis by (auto simp: a_load_def Let_def)
qed

lemma push_step_enabled:
  assumes "mem_ok (qmem s)" and "0 < push_rank (ppc s)"
  shows "\<exists>k t. push_step C k s = Some t"
proof (cases "ppc s")
  case (P_Load_Tail x)
  obtain k v m where "a_load Relaxed producer Tail k (qmem s) = Some (v, m)"
    using newest_readable [OF assms(1)] by blast
  with P_Load_Tail have "\<exists>t. push_step C k s = Some t" by (simp add: push_step_def)
  then show ?thesis ..
next
  case (P_Load_Head x t)
  obtain k v m where "a_load Acquire producer Head k (qmem s) = Some (v, m)"
    using newest_readable [OF assms(1)] by blast
  with P_Load_Head have "\<exists>t. push_step C k s = Some t" by (simp add: push_step_def)
  then show ?thesis ..
qed (use assms(2) in \<open>simp_all add: push_step_def\<close>)

lemma pop_step_enabled:
  assumes "mem_ok (qmem s)" and "0 < pop_rank (cpc s)"
  shows "\<exists>k t. pop_step C k s = Some t"
proof (cases "cpc s")
  case C_Load_Head
  obtain k v m where "a_load Relaxed consumer Head k (qmem s) = Some (v, m)"
    using newest_readable [OF assms(1)] by blast
  with C_Load_Head have "\<exists>t. pop_step C k s = Some t" by (simp add: pop_step_def)
  then show ?thesis ..
next
  case (C_Load_Tail h)
  obtain k v m where "a_load Acquire consumer Tail k (qmem s) = Some (v, m)"
    using newest_readable [OF assms(1)] by blast
  with C_Load_Tail have "\<exists>t. pop_step C k s = Some t" by (simp add: pop_step_def)
  then show ?thesis ..
qed (use assms(2) in \<open>simp_all add: pop_step_def split_beta\<close>)

lemma push_step_rank: "push_step C k s = Some t \<Longrightarrow> push_rank (ppc t) < push_rank (ppc s)"
  by (auto simp: push_step_def split: producer_pc.splits option.splits)

lemma pop_step_rank: "pop_step C k s = Some t \<Longrightarrow> pop_rank (cpc t) < pop_rank (cpc s)"
  by (auto simp: pop_step_def split: consumer_pc.splits option.splits prod.splits)

text \<open>
  Property C18. Both members are wait-free: a call in progress can always make its next access,
  whatever the other thread has done or stopped doing, and each of its accesses brings it
  strictly closer to its return, so it returns after at most four of them.
\<close>

theorem spsc_wait_free:
  assumes "capacity_ok C" and "reach (spsc_next C) (spsc_init g) s"
  shows "(0 < push_rank (ppc s) \<longrightarrow> (\<exists>k t. spsc_next C (Step_Push k) s = Some t)) \<and>
         (0 < pop_rank (cpc s) \<longrightarrow> (\<exists>k t. spsc_next C (Step_Pop k) s = Some t)) \<and>
         (\<forall>k t. spsc_next C (Step_Push k) s = Some t \<longrightarrow> push_rank (ppc t) < push_rank (ppc s)) \<and>
         (\<forall>k t. spsc_next C (Step_Pop k) s = Some t \<longrightarrow> pop_rank (cpc t) < pop_rank (cpc s)) \<and>
         push_rank (ppc s) \<le> 4 \<and> pop_rank (cpc s) \<le> 4"
proof -
  have "mem_ok (qmem s)"
    using reach_spsc_inv [OF assms] by (auto simp: spsc_inv_def index_inv_def)
  moreover have "push_rank pc \<le> 4" "pop_rank pc' \<le> 4" for pc :: "'a producer_pc" and pc' :: "'a consumer_pc"
    by (cases pc; simp) (cases pc'; simp)
  ultimately show ?thesis
    using push_step_enabled pop_step_enabled push_step_rank pop_step_rank
    unfolding spsc_next_def action.case by blast
qed

theorem spsc_wait_free_witness:
  "\<exists>s. reach (spsc_next 2) (spsc_init (\<lambda>_. 0 :: nat)) s \<and> push_rank (ppc s) = 2 \<and>
       (\<exists>k t. spsc_next 2 (Step_Push k) s = Some t)"
proof -
  have "run_to (spsc_next 2) (take 19 demo_schedule) (spsc_init (\<lambda>_. 0)) (\<lambda>s. push_rank (ppc s) = 2)"
    by code_simp
  then obtain s :: "nat spsc_sys" where s: "reach (spsc_next 2) (spsc_init (\<lambda>_. 0)) s" "push_rank (ppc s) = 2"
    by (blast dest: run_toD)
  have "capacity_ok 2" by code_simp
  with s spsc_wait_free [OF _ s(1)] show ?thesis by auto
qed

section \<open>The concurrent members agree with the sequential ones\<close>

text \<open>
  The object as a thread sees it when every store made so far is visible: the newest index
  values, the caches and the slots.
\<close>

definition flat :: "u64 \<Rightarrow> 'T spsc_sys \<Rightarrow> 'T spsc_queue" where
  "flat C s =
     \<lparr>buf = map (\<lambda>i. \<lparr>slot_value = cell (qmem s) i\<rparr>) [0 ..< unat C],
      head = mval (last (hist (qmem s) Head)), tail_cache = c_tail_cache s,
      tail = mval (last (hist (qmem s) Tail)), head_cache = p_head_cache s\<rparr>"

lemma flat_indices:
  assumes "index_inv s"
  shows "head (flat C s) = of_nat (length (popped s))" "tail (flat C s) = of_nat (length (pushed s))"
proof -
  have "hist (qmem s) a \<noteq> []" for a
    using assms by (intro mem_ok_hist) (simp add: index_inv_def)
  then show "head (flat C s) = of_nat (length (popped s))"
    "tail (flat C s) = of_nat (length (pushed s))"
    using index_inv_Head(1,2) [OF assms] index_inv_Tail(1,2) [OF assms]
    by (simp_all add: flat_def last_conv_nth)
qed

lemma flat_buf_update:
  "i < unat C \<Longrightarrow>
     map (\<lambda>j. \<lparr>slot_value = (if j = i then x else f j)\<rparr>) [0 ..< unat C] =
     (map (\<lambda>j. \<lparr>slot_value = f j\<rparr>) [0 ..< unat C])[i := \<lparr>slot_value = x\<rparr>]"
  by (rule nth_equalityI) (auto simp: nth_list_update)

lemma flat_publish:
  assumes "ppc s = P_Write x t0" and "slot C t0 < unat C"
  shows "\<exists>t. run (spsc_next C) [Step_Push 0, Step_Push 0] s = Some t \<and> ppc t = P_Done True \<and>
             (True, flat C t) = push_item C t0 x (flat C s)"
  using assms by (simp add: spsc_next_def push_step_def flat_def push_item_def flat_buf_update)

lemma flat_take:
  assumes "cpc s = C_Read h" and "slot C h < unat C"
  shows "\<exists>t v. run (spsc_next C) [Step_Pop 0, Step_Pop 0] s = Some t \<and> cpc t = C_Done (Some v) \<and>
             (True, v, flat C t) = pop_item C h y (flat C s)"
  using assms by (simp add: spsc_next_def pop_step_def flat_def pop_item_def split_beta)

lemma newest_load:
  assumes "mem_ok m"
  shows "\<exists>m'. a_load mo i a (length (hist m a) - 1) m = Some (mval (last (hist m a)), m') \<and>
              hist m' = hist m \<and> cell m' = cell m \<and> mem_ok m'"
proof -
  obtain x m' where l: "a_load mo i a (length (hist m a) - 1) m = Some (x, m')"
    using newest_readable [OF assms] by blast
  then show ?thesis
    using mem_ok_hist [OF assms] a_load_ok [OF assms l] by (auto simp: a_load_Some last_conv_nth)
qed

lemma flat_caches [simp]:
  "head_cache (flat C s) = p_head_cache s" "tail_cache (flat C s) = c_tail_cache s"
  by (simp_all add: flat_def)

lemma flat_nonzero:
  assumes "spsc_inv C s"
  shows "tail (flat C s) - p_head_cache s \<noteq> C \<Longrightarrow> C \<noteq> 0"
    and "tail (flat C s) \<noteq> head (flat C s) \<Longrightarrow> C \<noteq> 0"
    and "c_tail_cache s \<noteq> head (flat C s) \<Longrightarrow> C \<noteq> 0"
    and "tail (flat C s) - head (flat C s) \<noteq> C \<Longrightarrow> C \<noteq> 0"
proof -
  obtain hc tc where i: "index_inv s" "slot_inv (unat C) s" "producer_inv (unat C) hc s"
    "consumer_inv (unat C) tc s"
    using assms by (auto simp: spsc_inv_def)
  have "p_head_cache s = of_nat (length (pushed s)) \<and> c_tail_cache s = of_nat (length (pushed s)) \<and>
      length (popped s) = length (pushed s)" if "C = 0"
  proof -
    have "hc = length (pushed s)" "tc = length (pushed s)" "length (popped s) = length (pushed s)"
      using that i(3,4) slot_inv_le [OF i(2)] unfolding producer_inv_def consumer_inv_def by auto
    then show ?thesis
      using i(3,4) by (simp add: producer_inv_def consumer_inv_def)
  qed
  then show "tail (flat C s) - p_head_cache s \<noteq> C \<Longrightarrow> C \<noteq> 0"
    and "tail (flat C s) \<noteq> head (flat C s) \<Longrightarrow> C \<noteq> 0"
    and "c_tail_cache s \<noteq> head (flat C s) \<Longrightarrow> C \<noteq> 0"
    and "tail (flat C s) - head (flat C s) \<noteq> C \<Longrightarrow> C \<noteq> 0"
    using flat_indices [OF i(1), of C] by auto
qed

lemma push_alone:
  assumes "capacity_ok C" and inv: "spsc_inv C s" and idle: "ppc s = P_Idle"
  shows "\<exists>ks t. run (spsc_next C) (Call_Push x # map Step_Push ks) s = Some t \<and> length ks \<le> 4 \<and>
           ppc t = P_Done (fst (try_push C x (flat C s))) \<and> flat C t = snd (try_push C x (flat C s))"
proof -
  let ?t = "tail (flat C s)" and ?h = "head (flat C s)" and ?n = "\<lambda>a. length (hist (qmem s) a) - 1"
  from inv have ok: "mem_ok (qmem s)" by (auto simp: spsc_inv_def index_inv_def)
  obtain m where m: "a_load Relaxed producer Tail (?n Tail) (qmem s) = Some (?t, m)"
    "hist m = hist (qmem s)" "cell m = cell (qmem s)" "mem_ok m"
    using newest_load [OF ok] by (fastforce simp: flat_def)
  obtain m2 where m2: "a_load Acquire producer Head (?n Head) m = Some (?h, m2)"
    "hist m2 = hist (qmem s)" "cell m2 = cell (qmem s)"
    using newest_load [OF m(4), of Acquire producer Head] m(2,3) by (fastforce simp: flat_def)
  note slot = slot_less [OF assms(1)] and nz = flat_nonzero [OF inv]
  show ?thesis
  proof (cases "?t - p_head_cache s = C")
    case False
    let ?s = "s\<lparr>qmem := m, ppc := P_Write x ?t\<rparr>"
    have fl: "flat C ?s = flat C s" by (simp add: flat_def m)
    obtain t where t: "run (spsc_next C) [Step_Push 0, Step_Push 0] ?s = Some t" "ppc t = P_Done True"
      "(True, flat C t) = push_item C ?t x (flat C s)"
      using flat_publish [of ?s x ?t C] slot [OF nz(1) [OF False]] fl by auto
    have "run (spsc_next C) (Call_Push x # map Step_Push [?n Tail, 0, 0]) s = Some t"
      using idle m False t(1) by (simp add: spsc_next_def push_step_def)
    moreover have "try_push C x (flat C s) = (True, flat C t)"
      using False t(3) by (simp add: try_push_def)
    ultimately show ?thesis
      using t(2) by (intro exI [of _ "[?n Tail, 0, 0]"]) auto
  next
    case stale: True
    let ?q = "flat C s\<lparr>head_cache := ?h\<rparr>"
    show ?thesis
    proof (cases "?t - ?h = C")
      case True
      let ?t' = "s\<lparr>qmem := m2, p_head_cache := ?h, ppc := P_Done False\<rparr>"
      have "run (spsc_next C) (Call_Push x # map Step_Push [?n Tail, ?n Head]) s = Some ?t'"
        using idle m(1) m2(1) stale True by (simp add: spsc_next_def push_step_def)
      moreover have "try_push C x (flat C s) = (False, flat C ?t')"
        using stale True by (simp add: try_push_def flat_def m2)
      ultimately show ?thesis
        by (intro exI [of _ "[?n Tail, ?n Head]"] exI [of _ ?t']) simp
    next
      case False
      let ?s = "s\<lparr>qmem := m2, p_head_cache := ?h, ppc := P_Write x ?t\<rparr>"
      have fl: "flat C ?s = ?q" by (simp add: flat_def m2)
      obtain t where t: "run (spsc_next C) [Step_Push 0, Step_Push 0] ?s = Some t" "ppc t = P_Done True"
        "(True, flat C t) = push_item C ?t x ?q"
        using flat_publish [of ?s x ?t C] slot [OF nz(4) [OF False]] fl by auto
      have "run (spsc_next C) (Call_Push x # map Step_Push [?n Tail, ?n Head, 0, 0]) s = Some t"
        using idle m(1) m2(1) stale False t(1) by (simp add: spsc_next_def push_step_def)
      moreover have "try_push C x (flat C s) = (True, flat C t)"
        using stale False t(3) by (simp add: try_push_def)
      ultimately show ?thesis
        using t(2) by (intro exI [of _ "[?n Tail, ?n Head, 0, 0]"]) auto
    qed
  qed
qed

text \<open>Every uninterrupted call: which choices it can be made with, and what it does with each.\<close>

lemma run_publish:
  assumes "run (spsc_next C) (map Step_Push js) s = Some t" and "ppc t = P_Done b" and "ppc s = P_Write x t0"
    and "slot C t0 < unat C"
  shows "length js = 2 \<and> (b, flat C t) = push_item C t0 x (flat C s) \<and> hist (qmem t) Head = hist (qmem s) Head"
proof -
  obtain j js1 where js: "js = j # js1" using assms(1,2,3) by (cases js) auto
  obtain k js2 where js1: "js1 = k # js2"
    using assms(1,2,3) js by (cases js1) (auto simp: spsc_next_def push_step_def)
  have "js2 = []"
    using assms(1,3) js js1 by (cases js2) (auto simp: spsc_next_def push_step_def)
  then show ?thesis
    using assms js js1 by (auto simp: spsc_next_def push_step_def flat_def push_item_def flat_buf_update)
qed

lemma push_alone_exact:
  assumes "capacity_ok C" and inv: "spsc_inv C s" and idle: "ppc s = P_Idle"
    and run: "run (spsc_next C) (Call_Push x # map Step_Push ks) s = Some t" and final: "ppc t = P_Done b"
  shows "length ks = 3 \<and> try_push C x (flat C s) = (b, flat C t) \<or>
     (length ks = 2 \<or> length ks = 4) \<and> ks ! 1 < length (hist (qmem s) Head) \<and>
       (let h = mval (hist (qmem s) Head ! (ks ! 1))
        in try_push C x ((flat C s)\<lparr>head := h\<rparr>) = (b, (flat C t)\<lparr>head := h\<rparr>))"
    and "hist (qmem t) Head = hist (qmem s) Head"
proof -
  let ?s0 = "s\<lparr>ppc := P_Load_Tail x\<rparr>" and ?t = "tail (flat C s)"
  obtain hc tc where i: "index_inv s" "slot_inv (unat C) s" "producer_inv (unat C) hc s" "consumer_inv (unat C) tc s"
    using inv by (auto simp: spsc_inv_def)
  have run0: "run (spsc_next C) (map Step_Push ks) ?s0 = Some t" using run idle by (simp add: spsc_next_def)
  then obtain k ks1 where ks: "ks = k # ks1" using final by (cases ks) auto
  then obtain y m where l: "a_load Relaxed producer Tail k (qmem s) = Some (y, m)"
    using run0 by (cases "a_load Relaxed producer Tail k (qmem s)") (auto simp: spsc_next_def push_step_def)
  have newest: "Suc (seen (tview (qmem s) producer) Tail) = length (hist (qmem s) Tail)"
    using i(3) index_inv_Tail(1) [OF i(1)] by (simp add: producer_inv_def)
  have "k = length (hist (qmem s) Tail) - 1" using a_load_newest [OF l newest] newest by simp
  moreover have ok: "mem_ok (qmem s)" using i(1) by (simp add: index_inv_def)
  ultimately have y: "y = ?t" and m: "hist m = hist (qmem s)" "cell m = cell (qmem s)"
    using load_view(1,2,14) [OF ok l] mem_ok_hist [OF ok, of Tail] by (simp_all add: flat_def last_conv_nth)
  let ?s1 = "s\<lparr>qmem := m, ppc := if ?t - p_head_cache s = C then P_Load_Head x ?t else P_Write x ?t\<rparr>"
  have run1: "run (spsc_next C) (map Step_Push ks1) ?s1 = Some t"
    using run0 ks l y by (simp add: spsc_next_def push_step_def split: if_splits)
  note slot = slot_less [OF assms(1)] and nz = flat_nonzero [OF inv]
  have fl1: "flat C ?s1 = flat C s" by (simp add: flat_def m)
  have "(length ks = 3 \<and> try_push C x (flat C s) = (b, flat C t) \<or>
     (length ks = 2 \<or> length ks = 4) \<and> ks ! 1 < length (hist (qmem s) Head) \<and>
       (let h = mval (hist (qmem s) Head ! (ks ! 1))
        in try_push C x ((flat C s)\<lparr>head := h\<rparr>) = (b, (flat C t)\<lparr>head := h\<rparr>))) \<and>
     hist (qmem t) Head = hist (qmem s) Head"
  proof (cases "?t - p_head_cache s = C")
    case False
    then have "length ks1 = 2 \<and> (b, flat C t) = push_item C ?t x (flat C s) \<and> hist (qmem t) Head = hist (qmem s) Head"
      using run_publish [OF run1 final _ slot [OF nz(1) [OF False]]] fl1 m by simp
    then show ?thesis using False ks by (auto simp: try_push_def)
  next
    case stale: True
    then obtain j ks2 where ks1: "ks1 = j # ks2" using run1 final by (cases ks1) auto
    then obtain h m2 where l2: "a_load Acquire producer Head j m = Some (h, m2)"
      using run1 stale by (cases "a_load Acquire producer Head j m") (auto simp: spsc_next_def push_step_def)
    have ok1: "mem_ok m" by (rule load_view(15) [OF ok l])
    have m2: "hist m2 = hist (qmem s)" "cell m2 = cell (qmem s)" and h: "h = mval (hist (qmem s) Head ! j)"
      and j: "j < length (hist (qmem s) Head)" "seen (tview (qmem s) producer) Head \<le> j"
      using load_view(1,2,12-14) [OF ok1 l2] load_view(9) [OF ok l, of Head] m by simp_all
    let ?s2 = "s\<lparr>qmem := m2, p_head_cache := h, ppc := if ?t - h = C then P_Done False else P_Write x ?t\<rparr>"
    have run2: "run (spsc_next C) (map Step_Push ks2) ?s2 = Some t"
      using run1 stale ks1 l2 by (simp add: spsc_next_def push_step_def split: if_splits)
    have fl2: "flat C ?s2 = (flat C s)\<lparr>head_cache := h\<rparr>" by (simp add: flat_def m2)
    show ?thesis
    proof (cases "?t - h = C")
      case True
      then have "ks2 = []" using run2 by (cases ks2) (auto simp: spsc_next_def push_step_def)
      then show ?thesis
        using True stale run2 final ks ks1 h j(1) m2 fl2 by (auto simp: try_push_def Let_def)
    next
      case False
      have "C \<noteq> 0"
      proof
        assume "C = 0"
        then have "hc = length (pushed s)" "length (popped s) = length (pushed s)" "hc \<le> j"
          using i(3) j(2) slot_inv_le [OF i(2)] by (simp_all add: producer_inv_def)
        then have "j = length (popped s)" "length (popped s) = length (pushed s)"
          using j(1) index_inv_Head(1) [OF i(1)] by simp_all
        then have "h = of_nat (length (pushed s))"
          using h index_inv_Head(2) [OF i(1), of j] by simp
        then show False using False \<open>C = 0\<close> flat_indices(2) [OF i(1), of C] by simp
      qed
      then have "length ks2 = 2 \<and> (b, flat C t) = push_item C ?t x ((flat C s)\<lparr>head_cache := h\<rparr>) \<and>
          hist (qmem t) Head = hist (qmem s) Head"
        using run_publish [OF run2 final _ slot] False fl2 m2 by simp
      then show ?thesis
        using False stale ks ks1 h j(1) by (auto simp: try_push_def push_item_def Let_def)
    qed
  qed
  then show "length ks = 3 \<and> try_push C x (flat C s) = (b, flat C t) \<or>
     (length ks = 2 \<or> length ks = 4) \<and> ks ! 1 < length (hist (qmem s) Head) \<and>
       (let h = mval (hist (qmem s) Head ! (ks ! 1))
        in try_push C x ((flat C s)\<lparr>head := h\<rparr>) = (b, (flat C t)\<lparr>head := h\<rparr>))"
    and "hist (qmem t) Head = hist (qmem s) Head" by simp_all
qed
lemma pop_alone:
  assumes "capacity_ok C" and inv: "spsc_inv C s" and idle: "cpc s = C_Idle"
  shows "\<exists>ks t. run (spsc_next C) (Call_Pop # map Step_Pop ks) s = Some t \<and> length ks \<le> 4 \<and>
           (\<exists>r. cpc t = C_Done r \<and> (case r of
                  Some v \<Rightarrow> try_pop C y (flat C s) = (True, v, flat C t)
                | None \<Rightarrow> try_pop C y (flat C s) = (False, y, flat C t)))"
proof -
  let ?t = "tail (flat C s)" and ?h = "head (flat C s)" and ?n = "\<lambda>a. length (hist (qmem s) a) - 1"
  from inv have ok: "mem_ok (qmem s)" by (auto simp: spsc_inv_def index_inv_def)
  obtain m where m: "a_load Relaxed consumer Head (?n Head) (qmem s) = Some (?h, m)"
    "hist m = hist (qmem s)" "cell m = cell (qmem s)" "mem_ok m"
    using newest_load [OF ok] by (fastforce simp: flat_def)
  obtain m2 where m2: "a_load Acquire consumer Tail (?n Tail) m = Some (?t, m2)"
    "hist m2 = hist (qmem s)" "cell m2 = cell (qmem s)"
    using newest_load [OF m(4), of Acquire consumer Tail] m(2,3) by (fastforce simp: flat_def)
  note slot = slot_less [OF assms(1)] and nz = flat_nonzero [OF inv]
  show ?thesis
  proof (cases "?h = c_tail_cache s")
    case False
    let ?s = "s\<lparr>qmem := m, cpc := C_Read ?h\<rparr>"
    have fl: "flat C ?s = flat C s" by (simp add: flat_def m)
    obtain t v where t: "run (spsc_next C) [Step_Pop 0, Step_Pop 0] ?s = Some t" "cpc t = C_Done (Some v)"
      "(True, v, flat C t) = pop_item C ?h y (flat C s)"
      using flat_take [of ?s ?h C y] slot [OF nz(3)] False fl by auto
    have "run (spsc_next C) (Call_Pop # map Step_Pop [?n Head, 0, 0]) s = Some t"
      using idle m False t(1) by (simp add: spsc_next_def pop_step_def)
    moreover have "try_pop C y (flat C s) = (True, v, flat C t)"
      using False t(3) by (simp add: try_pop_def)
    ultimately show ?thesis
      using t(2) by (intro exI [of _ "[?n Head, 0, 0]"] exI [of _ t]) auto
  next
    case stale: True
    let ?q = "flat C s\<lparr>tail_cache := ?t\<rparr>"
    show ?thesis
    proof (cases "?h = ?t")
      case True
      let ?t' = "s\<lparr>qmem := m2, c_tail_cache := ?t, cpc := C_Done None\<rparr>"
      have "run (spsc_next C) (Call_Pop # map Step_Pop [?n Head, ?n Tail]) s = Some ?t'"
        using idle m(1) m2(1) stale True by (simp add: spsc_next_def pop_step_def)
      moreover have "try_pop C y (flat C s) = (False, y, flat C ?t')"
        using stale True by (simp add: try_pop_def flat_def m2 Let_def)
      ultimately show ?thesis
        by (intro exI [of _ "[?n Head, ?n Tail]"] exI [of _ ?t']) simp
    next
      case False
      let ?s = "s\<lparr>qmem := m2, c_tail_cache := ?t, cpc := C_Read ?h\<rparr>"
      have fl: "flat C ?s = ?q" by (simp add: flat_def m2)
      obtain t v where t: "run (spsc_next C) [Step_Pop 0, Step_Pop 0] ?s = Some t" "cpc t = C_Done (Some v)"
        "(True, v, flat C t) = pop_item C ?h y ?q"
        using flat_take [of ?s ?h C y] slot [OF nz(2)] False fl by auto
      have "run (spsc_next C) (Call_Pop # map Step_Pop [?n Head, ?n Tail, 0, 0]) s = Some t"
        using idle m(1) m2(1) stale False t(1) by (simp add: spsc_next_def pop_step_def)
      moreover have "try_pop C y (flat C s) = (True, v, flat C t)"
        using stale False t(3) by (simp add: try_pop_def)
      ultimately show ?thesis
        using t(2) by (intro exI [of _ "[?n Head, ?n Tail, 0, 0]"] exI [of _ t]) auto
    qed
  qed
qed

text \<open>
  Property C19. Every call of \<open>try_push\<close> that is not interrupted by the consumer is a sequential
  \<open>try_push\<close>.  Take any run of the call alone, with any choice of messages, that has come to its
  return.  If it made three accesses it did not load \<open>head_\<close>, and it returned what the sequential
  \<open>try_push\<close> returns on the object of that moment, and left the object that function computes: the
  buffer, both indices and both caches.  Else it loaded \<open>head_\<close> as its second access, and the same
  holds with the value it read, which may be an older one of the modification order, in place of
  the newest; so if it read the newest value it is exactly the sequential function, and if it
  read an older one it may report a queue as full that is not.  And a run in at most four
  accesses with the result and the object of the sequential function is always possible.
\<close>

theorem push_alone_is_try_push:
  assumes "capacity_ok C" and "reach (spsc_next C) (spsc_init g) s" and "ppc s = P_Idle"
  shows "(\<forall>ks t b. run (spsc_next C) (Call_Push x # map Step_Push ks) s = Some t \<and> ppc t = P_Done b \<longrightarrow>
      (length ks = 3 \<and> try_push C x (flat C s) = (b, flat C t) \<or>
       (length ks = 2 \<or> length ks = 4) \<and> ks ! 1 < length (hist (qmem s) Head) \<and>
         (let h = mval (hist (qmem s) Head ! (ks ! 1))
          in try_push C x ((flat C s)\<lparr>head := h\<rparr>) = (b, (flat C t)\<lparr>head := h\<rparr>))) \<and>
      (length ks = 3 \<or> Suc (ks ! 1) = length (hist (qmem s) Head) \<longrightarrow> try_push C x (flat C s) = (b, flat C t))) \<and>
    (\<exists>ks t. run (spsc_next C) (Call_Push x # map Step_Push ks) s = Some t \<and> length ks \<le> 4 \<and>
       ppc t = P_Done (fst (try_push C x (flat C s))) \<and> flat C t = snd (try_push C x (flat C s)))"
proof (intro conjI allI impI)
  note inv = reach_spsc_inv [OF assms(1,2)]
  show "\<exists>ks t. run (spsc_next C) (Call_Push x # map Step_Push ks) s = Some t \<and> length ks \<le> 4 \<and>
      ppc t = P_Done (fst (try_push C x (flat C s))) \<and> flat C t = snd (try_push C x (flat C s))"
    by (rule push_alone [OF assms(1) inv assms(3)])
  fix ks t b
  assume r: "run (spsc_next C) (Call_Push x # map Step_Push ks) s = Some t \<and> ppc t = P_Done b"
  note exact = push_alone_exact [OF assms(1) inv assms(3) conjunct1 [OF r] conjunct2 [OF r]]
  show "length ks = 3 \<and> try_push C x (flat C s) = (b, flat C t) \<or>
       (length ks = 2 \<or> length ks = 4) \<and> ks ! 1 < length (hist (qmem s) Head) \<and>
         (let h = mval (hist (qmem s) Head ! (ks ! 1))
          in try_push C x ((flat C s)\<lparr>head := h\<rparr>) = (b, (flat C t)\<lparr>head := h\<rparr>))"
    by (rule exact(1))
  assume newest: "length ks = 3 \<or> Suc (ks ! 1) = length (hist (qmem s) Head)"
  show "try_push C x (flat C s) = (b, flat C t)"
  proof (cases "length ks = 3")
    case False
    then have "hist (qmem s) Head \<noteq> [] \<and> ks ! 1 = length (hist (qmem s) Head) - 1" using newest by auto
    then have "mval (hist (qmem s) Head ! (ks ! 1)) = head (flat C s)" "head (flat C t) = head (flat C s)"
      using exact(2) by (simp_all add: flat_def last_conv_nth)
    then show ?thesis using exact(1) False by (simp add: Let_def)
  qed (use exact(1) in auto)
qed

definition drained_schedule :: "nat action list" where
  "drained_schedule =
     [Call_Push 5, Step_Push 0, Step_Push 0, Step_Push 0, Ret_Push,
      Call_Pop, Step_Pop 0, Step_Pop 1, Step_Pop 0, Step_Pop 0, Ret_Pop]"

text \<open>
  The stale case, with a capacity of one: an item has been pushed and popped, and a push alone
  that reads the old \<open>head_\<close> reports a full queue where one that reads the new does not.
\<close>

lemma drained_run:
  "run_to (spsc_next 1) drained_schedule (spsc_init (\<lambda>_. 0))
     (\<lambda>s. ppc s = P_Idle \<and>
        run_to (spsc_next 1) (Call_Push 7 # map Step_Push [1, 0]) s (\<lambda>t. ppc t = P_Done False) \<and>
        run_to (spsc_next 1) (Call_Push 7 # map Step_Push [1, 1, 0, 0]) s
          (\<lambda>t. ppc t = P_Done True \<and> length (hist (qmem s) Head) = 2))"
  by code_simp

theorem push_alone_is_try_push_witness:
  "\<exists>s t u. reach (spsc_next 1) (spsc_init (\<lambda>_. 0)) s \<and>
     run (spsc_next 1) (Call_Push (7 :: nat) # map Step_Push [1, 0]) s = Some t \<and> ppc t = P_Done False \<and>
     (let h = mval (hist (qmem s) Head ! 0)
      in try_push 1 7 ((flat 1 s)\<lparr>head := h\<rparr>) = (False, (flat 1 t)\<lparr>head := h\<rparr>)) \<and>
     run (spsc_next 1) (Call_Push 7 # map Step_Push [1, 1, 0, 0]) s = Some u \<and>
     try_push 1 7 (flat 1 s) = (True, flat 1 u)"
proof -
  obtain s where s: "reach (spsc_next 1) (spsc_init (\<lambda>_. 0 :: nat)) s" "ppc s = P_Idle"
    "run_to (spsc_next 1) (Call_Push 7 # map Step_Push [1, 0]) s (\<lambda>t. ppc t = P_Done False)"
    "run_to (spsc_next 1) (Call_Push 7 # map Step_Push [1, 1, 0, 0]) s
          (\<lambda>t. ppc t = P_Done True \<and> length (hist (qmem s) Head) = 2)"
    using run_toD [OF drained_run] by blast
  obtain t where t: "run (spsc_next 1) (Call_Push 7 # map Step_Push [1, 0]) s = Some t" "ppc t = P_Done False"
    using run_to_run [OF s(3)] by blast
  obtain u where u: "run (spsc_next 1) (Call_Push 7 # map Step_Push [1, 1, 0, 0]) s = Some u" "ppc u = P_Done True"
    "length (hist (qmem s) Head) = 2"
    using run_to_run [OF s(4)] by blast
  have cap: "capacity_ok 1" by code_simp
  note alone = conjunct1 [OF push_alone_is_try_push [OF cap s(1,2), of 7], rule_format]
  show ?thesis
    using alone [OF conjI [OF t]] alone [OF conjI [OF u(1,2)]] t u s(1)
    by (intro exI [of _ s] exI [of _ t] exI [of _ u]) simp
qed

text \<open>
  The same for an uninterrupted \<open>try_pop\<close>: it returns in at most four accesses,
  with the result, the value of \<open>out\<close> and the object of the sequential \<open>try_pop\<close>.
\<close>

theorem pop_alone_is_try_pop:
  assumes "capacity_ok C" and "reach (spsc_next C) (spsc_init g) s" and "cpc s = C_Idle"
    and "try_pop C y (flat C s) = (b, out, q)"
  shows "\<exists>ks t. run (spsc_next C) (Call_Pop # map Step_Pop ks) s = Some t \<and> length ks \<le> 4 \<and>
           cpc t = C_Done (if b then Some out else None) \<and> flat C t = q"
proof -
  obtain ks t r where r: "run (spsc_next C) (Call_Pop # map Step_Pop ks) s = Some t" "length ks \<le> 4"
    "cpc t = C_Done r" "case r of Some v \<Rightarrow> try_pop C y (flat C s) = (True, v, flat C t)
                        | None \<Rightarrow> try_pop C y (flat C s) = (False, y, flat C t)"
    using pop_alone [OF assms(1) reach_spsc_inv [OF assms(1,2)] assms(3), of y] by blast
  then have "r = (if b then Some out else None)" "flat C t = q"
    using assms(4) by (auto split: option.splits)
  with r(1-3) show ?thesis by blast
qed

theorem pop_alone_is_try_pop_witness:
  "\<exists>s ks t. reach (spsc_next 2) (spsc_init (\<lambda>_. 0 :: nat)) s \<and>
     run (spsc_next 2) (Call_Pop # map Step_Pop ks) s = Some t \<and> length ks \<le> 4 \<and> cpc t = C_Done (Some 5)"
proof -
  have "run_to (spsc_next 2) (take 6 full_schedule) (spsc_init (\<lambda>_. 0 :: nat))
          (\<lambda>s. cpc s = C_Idle \<and> fst (try_pop 2 0 (flat 2 s)) \<and> fst (snd (try_pop 2 0 (flat 2 s))) = 5)"
    by code_simp
  then obtain s :: "nat spsc_sys" where s: "reach (spsc_next 2) (spsc_init (\<lambda>_. 0)) s" "cpc s = C_Idle"
      "fst (try_pop 2 0 (flat 2 s))" "fst (snd (try_pop 2 0 (flat 2 s))) = 5"
    by (blast dest: run_toD)
  then obtain q where q: "try_pop 2 0 (flat 2 s) = (True, 5, q)"
    by (metis prod.collapse)
  have "capacity_ok 2" by code_simp
  with s pop_alone_is_try_pop [OF _ s(1,2) q] show ?thesis by auto
qed

section \<open>size() and empty()\<close>

text \<open>
  Two relaxed loads by thread \<open>i\<close>, of messages \<open>k\<close> and \<open>k'\<close>, between which the other
  threads make the steps \<open>acts\<close>.  C++ leaves the order of the two loads in \<open>size()\<close>
  open; here, as in the text, \<open>tail_\<close> is read first.
\<close>

definition two_loads :: "u64 \<Rightarrow> tid \<Rightarrow> index \<Rightarrow> nat \<Rightarrow> 'T action list \<Rightarrow> index \<Rightarrow> nat \<Rightarrow> 'T spsc_sys
    \<Rightarrow> (u64 \<times> u64 \<times> 'T spsc_sys) option" where
  "two_loads C i a k acts b k' s =
     (case a_load Relaxed i a k (qmem s) of
        None \<Rightarrow> None
      | Some (x, m) \<Rightarrow>
          (case run (spsc_next C) acts (s\<lparr>qmem := m\<rparr>) of
             None \<Rightarrow> None
           | Some s' \<Rightarrow>
               (case a_load Relaxed i b k' (qmem s') of
                  None \<Rightarrow> None
                | Some (y, m') \<Rightarrow> Some (x, y, s'\<lparr>qmem := m'\<rparr>))))"

definition size_call :: "u64 \<Rightarrow> tid \<Rightarrow> nat \<Rightarrow> 'T action list \<Rightarrow> nat \<Rightarrow> 'T spsc_sys
    \<Rightarrow> (u64 \<times> 'T spsc_sys) option" where
  "size_call C i k acts k' s =
     map_option (\<lambda>(t, h, s'). (t - h, s')) (two_loads C i Tail k acts Head k' s)"

definition empty_call :: "u64 \<Rightarrow> tid \<Rightarrow> nat \<Rightarrow> 'T action list \<Rightarrow> nat \<Rightarrow> 'T spsc_sys
    \<Rightarrow> (bool \<times> 'T spsc_sys) option" where
  "empty_call C i k acts k' s =
     map_option (\<lambda>(h, t, s'). (h = t, s')) (two_loads C i Head k acts Tail k' s)"

text \<open>What the other thread may do while one of the two threads is inside \<open>size()\<close>.\<close>

fun producer_acts :: "'T action \<Rightarrow> bool" where
  "producer_acts (Call_Push x) = True"
| "producer_acts (Step_Push k) = True"
| "producer_acts Ret_Push = True"
| "producer_acts _ = False"

fun consumer_acts :: "'T action \<Rightarrow> bool" where
  "consumer_acts Call_Pop = True"
| "consumer_acts (Step_Pop k) = True"
| "consumer_acts Ret_Pop = True"
| "consumer_acts _ = False"

lemma consumer_acts_keep:
  "consumer_acts a \<Longrightarrow> spsc_next C a s = Some t \<Longrightarrow>
     pushed t = pushed s \<and> tview (qmem t) producer = tview (qmem s) producer \<and>
     length (popped s) \<le> length (popped t)"
  by (cases a) (auto simp: spsc_next_def pop_step_def a_load_Some split_beta
      split: if_splits option.splits consumer_pc.splits)

lemma consumer_run_keep:
  "list_all consumer_acts acts \<Longrightarrow> run (spsc_next C) acts s = Some t \<Longrightarrow>
     pushed t = pushed s \<and> tview (qmem t) producer = tview (qmem s) producer \<and>
     length (popped s) \<le> length (popped t)"
  by (induction acts arbitrary: s) (fastforce split: option.splits dest!: consumer_acts_keep)+

lemma producer_acts_keep:
  "producer_acts a \<Longrightarrow> spsc_next C a s = Some t \<Longrightarrow>
     popped t = popped s \<and> tview (qmem t) consumer = tview (qmem s) consumer \<and>
     length (pushed s) \<le> length (pushed t)"
  by (cases a) (auto simp: spsc_next_def push_step_def a_load_Some
      split: if_splits option.splits producer_pc.splits)

lemma producer_run_keep:
  "list_all producer_acts acts \<Longrightarrow> run (spsc_next C) acts s = Some t \<Longrightarrow>
     popped t = popped s \<and> tview (qmem t) consumer = tview (qmem s) consumer \<and>
     length (pushed s) \<le> length (pushed t)"
  by (induction acts arbitrary: s) (fastforce split: option.splits dest!: producer_acts_keep)+

lemma two_loads_SomeD:
  assumes "spsc_inv C s" and "capacity_ok C" and "two_loads C i a k acts b k' s = Some (x, y, t)"
  obtains m s' m' where "a_load Relaxed i a k (qmem s) = Some (x, m)" "spsc_inv C (s\<lparr>qmem := m\<rparr>)"
    "run (spsc_next C) acts (s\<lparr>qmem := m\<rparr>) = Some s'" "spsc_inv C s'"
    "a_load Relaxed i b k' (qmem s') = Some (y, m')" "t = s'\<lparr>qmem := m'\<rparr>" "spsc_inv C t"
proof -
  obtain m s' m' where l: "a_load Relaxed i a k (qmem s) = Some (x, m)"
    "run (spsc_next C) acts (s\<lparr>qmem := m\<rparr>) = Some s'"
    "a_load Relaxed i b k' (qmem s') = Some (y, m')" "t = s'\<lparr>qmem := m'\<rparr>"
    using assms(3) by (auto simp: two_loads_def split: option.splits)
  have 1: "spsc_inv C (s\<lparr>qmem := m\<rparr>)" by (rule observe_step_inv [OF assms(1) l(1)])
  have 2: "spsc_inv C s'"
    using spsc_machine.inv_run_from [of C "s\<lparr>qmem := m\<rparr>" acts s'] 1 l(2) assms(2) by simp
  have 3: "spsc_inv C t" unfolding l(4) by (rule observe_step_inv [OF 2 l(3)])
  from that l(1) 1 l(2) 2 l(3,4) 3 show thesis by blast
qed

text \<open>
  What a load of an index can return: the thread that owns the index gets its true value, the
  other thread a value between the one it last saw and the true one.
\<close>

lemma load_index_bounds:
  assumes "spsc_inv C s" and "a_load Relaxed i a k (qmem s) = Some (x, m)"
  shows "x = of_nat k" "k \<le> (case a of Head \<Rightarrow> length (popped s) | Tail \<Rightarrow> length (pushed s))"
    and "i = producer \<Longrightarrow> a = Tail \<Longrightarrow> k = length (pushed s)"
    and "i = consumer \<Longrightarrow> a = Head \<Longrightarrow> k = length (popped s)"
    and "i = producer \<Longrightarrow> a = Head \<Longrightarrow> length (pushed s) \<le> k + unat C"
    and "i = consumer \<Longrightarrow> a = Tail \<Longrightarrow> length (popped s) \<le> k"
proof -
  obtain hc tc where i: "index_inv s" "producer_inv (unat C) hc s" "consumer_inv (unat C) tc s"
    using assms(1) by (auto simp: spsc_inv_def)
  note h = index_inv_Head(1) [OF i(1)] index_inv_Head(2) [OF i(1), of k]
    and t = index_inv_Tail(1) [OF i(1)] index_inv_Tail(2) [OF i(1), of k]
  note l = assms(2) [unfolded a_load_Some]
  show k: "k \<le> (case a of Head \<Rightarrow> length (popped s) | Tail \<Rightarrow> length (pushed s))"
    using l h(1) t(1) by (cases a) auto
  show "x = of_nat k"
    using l h(2) t(2) k by (cases a) auto
  show "i = producer \<Longrightarrow> a = Tail \<Longrightarrow> k = length (pushed s)"
    "i = consumer \<Longrightarrow> a = Head \<Longrightarrow> k = length (popped s)"
    "i = producer \<Longrightarrow> a = Head \<Longrightarrow> length (pushed s) \<le> k + unat C"
    "i = consumer \<Longrightarrow> a = Tail \<Longrightarrow> length (popped s) \<le> k"
    using l k i(2,3) unfolding producer_inv_def consumer_inv_def by auto
qed

text \<open>
  Property C20. \<open>size()\<close> called by the producer, with any pops going on in between, never
  under-reports and never exceeds the capacity; called by the consumer, with any pushes going
  on, it never over-reports.
\<close>

theorem size_of_the_two_threads:
  assumes "capacity_ok C" and "reach (spsc_next C) (spsc_init g) s"
    and "size_call C i k acts k' s = Some (n, t)"
  shows "(i = producer \<and> list_all consumer_acts acts \<longrightarrow>
            length (queued t) \<le> unat n \<and> unat n \<le> unat C) \<and>
         (i = consumer \<and> list_all producer_acts acts \<longrightarrow> unat n \<le> length (queued t))"
proof -
  have inv: "spsc_inv C s" by (rule reach_spsc_inv [OF assms(1,2)])
  obtain x y where xy: "two_loads C i Tail k acts Head k' s = Some (x, y, t)" "n = x - y"
    using assms(3) by (auto simp: size_call_def)
  obtain m s' m' where l: "a_load Relaxed i Tail k (qmem s) = Some (x, m)"
    "spsc_inv C (s\<lparr>qmem := m\<rparr>)" "run (spsc_next C) acts (s\<lparr>qmem := m\<rparr>) = Some s'" "spsc_inv C s'"
    "a_load Relaxed i Head k' (qmem s') = Some (y, m')" "t = s'\<lparr>qmem := m'\<rparr>" "spsc_inv C t"
    by (rule two_loads_SomeD [OF inv assms(1) xy(1)])
  note b = load_index_bounds [OF inv l(1)] and b' = load_index_bounds [OF l(4,5)]
  note f = spsc_inv_facts [OF l(7)] and C = unat_u64_less [of C]
  have n: "n = of_nat k - of_nat k'" using b(1) b'(1) xy(2) by simp
  have t: "pushed t = pushed s'" "popped t = popped s'" using l(6) by simp_all
  have "length (queued t) \<le> unat n \<and> unat n \<le> unat C"
    if "i = producer" "list_all consumer_acts acts"
  proof -
    have "pushed s' = pushed s"
      using consumer_run_keep [OF that(2) l(3)] by simp
    then have k: "k = length (pushed t)" "k' \<le> length (popped t)" "length (pushed t) \<le> k' + unat C"
      using b(3) b'(2,5) that(1) t by simp_all
    then have "k' \<le> k" "k - k' < 2 ^ 64" using f(2) C by linarith+
    then have "unat n = k - k'" unfolding n by (rule unat_of_nat_diff_u64)
    then show ?thesis using k f(6) by linarith
  qed
  moreover have "unat n \<le> length (queued t)" if "i = consumer" "list_all producer_acts acts"
  proof -
    have "popped s' = popped s" "length (pushed s) \<le> length (pushed s')"
      using producer_run_keep [OF that(2) l(3)] by simp_all
    then have k: "k' = length (popped t)" "k \<le> length (pushed t)" "k' \<le> k"
      using b(2,6) b'(4) that(1) t by simp_all
    then have "k - k' < 2 ^ 64" using f(3) C by linarith
    with k(3) have "unat n = k - k'" unfolding n by (rule unat_of_nat_diff_u64)
    then show ?thesis using k f(6) by linarith
  qed
  ultimately show ?thesis by blast
qed

theorem size_of_the_two_threads_witness:
  "\<exists>s n t. reach (spsc_next 2) (spsc_init (\<lambda>_. 0 :: nat)) s \<and>
     size_call 2 producer 2 [Ret_Pop] 0 s = Some (n, t) \<and> n = 2 \<and> length (queued t) = 1 \<and>
     length (queued t) \<le> unat n \<and> unat n \<le> unat (2 :: u64)"
proof -
  have "run_to (spsc_next 2)
          [Call_Push 5, Step_Push 0, Step_Push 0, Step_Push 0, Ret_Push, Call_Push 6, Step_Push 1,
           Step_Push 0, Step_Push 0, Call_Pop, Step_Pop 0, Step_Pop 1, Step_Pop 0, Step_Pop 0]
          (spsc_init (\<lambda>_. 0 :: nat))
          (\<lambda>s. case size_call 2 producer 2 [Ret_Pop] 0 s of
                 None \<Rightarrow> False | Some (n, t) \<Rightarrow> n = 2 \<and> length (queued t) = 1)"
    by code_simp
  then obtain s :: "nat spsc_sys" and n t where s: "reach (spsc_next 2) (spsc_init (\<lambda>_. 0)) s"
      "size_call 2 producer 2 [Ret_Pop] 0 s = Some (n, t)" "n = 2" "length (queued t) = 1"
    by (fastforce dest!: run_toD split: option.splits)
  have "capacity_ok 2" by code_simp
  with s size_of_the_two_threads [OF _ s(1,2)] show ?thesis by auto
qed

text \<open>
  Property C21. \<open>size()\<close> called by any other thread can return \<open>2 ^ 64 - 1\<close> for an empty queue,
  even if both loads return the newest value: it reads \<open>tail_\<close>, an item passes through the
  queue, it reads \<open>head_\<close>, and the unsigned difference wraps.
\<close>

theorem size_can_wrap:
  "\<exists>n t. size_call 1 2 0
      [Call_Push 5, Step_Push 0, Step_Push 0, Step_Push 0,
       Call_Pop, Step_Pop 0, Step_Pop 1, Step_Pop 0, Step_Pop 0] 1
      (spsc_init (\<lambda>_. 0 :: nat)) = Some (n, t) \<and> unat n = 2 ^ 64 - 1 \<and> queued t = []"
    (is "\<exists>n t. ?call = Some (n, t) \<and> _ n \<and> _ t")
proof -
  have "(case ?call of None \<Rightarrow> False | Some (n, t) \<Rightarrow> n = - 1 \<and> queued t = [])"
    by code_simp
  then obtain n t where e: "?call = Some (n, t)" "n = - 1" "queued t = []"
    by (auto dest!: case_Some_pairD)
  have "unat n = 2 ^ 64 - 1"
    unfolding e(2) by (simp add: unsigned_minus_1_eq_mask mask_eq_exp_minus_1)
  with e(1,3) show ?thesis by blast
qed

text \<open>
  \<open>empty()\<close> is reliable in one direction for each thread: when the producer is
  told the queue is empty, it is; when the consumer is told it is not, it is not.
\<close>

theorem empty_of_the_two_threads:
  assumes "capacity_ok C" and "reach (spsc_next C) (spsc_init g) s"
    and "empty_call C i k acts k' s = Some (b, t)"
  shows "(i = producer \<and> list_all consumer_acts acts \<and> b \<longrightarrow> queued t = []) \<and>
         (i = consumer \<and> list_all producer_acts acts \<and> \<not> b \<longrightarrow> queued t \<noteq> [])"
proof -
  have inv: "spsc_inv C s" by (rule reach_spsc_inv [OF assms(1,2)])
  obtain x y where xy: "two_loads C i Head k acts Tail k' s = Some (x, y, t)" "b \<longleftrightarrow> x = y"
    using assms(3) by (auto simp: empty_call_def)
  obtain m s' m' where l: "a_load Relaxed i Head k (qmem s) = Some (x, m)"
    "spsc_inv C (s\<lparr>qmem := m\<rparr>)" "run (spsc_next C) acts (s\<lparr>qmem := m\<rparr>) = Some s'" "spsc_inv C s'"
    "a_load Relaxed i Tail k' (qmem s') = Some (y, m')" "t = s'\<lparr>qmem := m'\<rparr>" "spsc_inv C t"
    by (rule two_loads_SomeD [OF inv assms(1) xy(1)])
  note b = load_index_bounds [OF inv l(1)] and b' = load_index_bounds [OF l(4,5)]
  note f = spsc_inv_facts [OF l(7)] and C = unat_u64_less [of C]
  have t: "pushed t = pushed s'" "popped t = popped s'" using l(6) by simp_all
  have "queued t = []" if "i = producer" "list_all consumer_acts acts" "b"
  proof -
    have k: "pushed s' = pushed s" "length (popped s) \<le> length (popped s')"
      using consumer_run_keep [OF that(2) l(3)] by simp_all
    then have "k' = length (pushed t)" "k \<le> length (popped t)" "k' \<le> k + unat C"
      using b(2,5) b'(3) that(1) t by simp_all
    moreover from this have "k \<le> k'" "k' - k < 2 ^ 64" using f(2) C by linarith+
    then have "k' = k"
      using of_nat_u64_eq_shift [of k k'] xy(2) b(1) b'(1) that(3) by simp
    ultimately show ?thesis using f(2,6) by simp
  qed
  moreover have "queued t \<noteq> []" if "i = consumer" "list_all producer_acts acts" "\<not> b"
  proof -
    have "popped s' = popped s"
      using producer_run_keep [OF that(2) l(3)] by simp
    then have "k = length (popped t)" "k \<le> k'" "k' \<le> length (pushed t)"
      using b(4) b'(2,6) that(1) t by simp_all
    moreover have "k \<noteq> k'" using xy(2) b(1) b'(1) that(3) by auto
    ultimately have "0 < length (queued t)" using f(6) by simp
    then show ?thesis by simp
  qed
  ultimately show ?thesis by blast
qed

theorem empty_of_the_two_threads_witness:
  "\<exists>s b t. reach (spsc_next 2) (spsc_init (\<lambda>_. 0 :: nat)) s \<and>
     empty_call 2 consumer 0 [Ret_Push] 1 s = Some (b, t) \<and> \<not> b \<and> queued t \<noteq> []"
proof -
  have "run_to (spsc_next 2) [Call_Push 5, Step_Push 0, Step_Push 0, Step_Push 0]
          (spsc_init (\<lambda>_. 0 :: nat))
          (\<lambda>s. case empty_call 2 consumer 0 [Ret_Push] 1 s of None \<Rightarrow> False | Some (b, t) \<Rightarrow> \<not> b)"
    by code_simp
  then obtain s :: "nat spsc_sys" and b t where s: "reach (spsc_next 2) (spsc_init (\<lambda>_. 0)) s"
      "empty_call 2 consumer 0 [Ret_Push] 1 s = Some (b, t)" "\<not> b"
    by (fastforce dest!: run_toD split: option.splits)
  have "capacity_ok 2" by code_simp
  with s empty_of_the_two_threads [OF _ s(1,2)] show ?thesis by auto
qed

end
