(* ===== verification/Bench_Utils.thy ===== *)
theory Bench_Utils
  imports Complex_Main Pipeline_Prelude "HOL-Library.Signed_Division" "HOL-Library.Char_ord"
begin

text \<open>
  \<open>bench/bench_utils.h\<close>: command-line parsing, the reading of the cpufreq files of Linux,
  pinning, the time-stamp counter and its calibration, on each of the three platforms the file
  distinguishes (a definition without suffix is that of Linux).  The file system and the scheduler are parameters: a function
  from paths to contents, and the value \<open>sched_getcpu()\<close> returns.  The string conversions of
  the standard library that the code relies on (\<open>std::stoi\<close>, \<open>std::to_string\<close>, formatted
  extraction of a number or a word) are modelled on character lists.
\<close>

section \<open>Numbers and strings\<close>

definition is_space :: "char \<Rightarrow> bool" where
  "is_space c \<longleftrightarrow> c = CHR '' '' \<or> 9 \<le> (of_char c :: int) \<and> (of_char c :: int) < 14"

definition is_digit :: "char \<Rightarrow> bool" where
  "is_digit c \<longleftrightarrow> 48 \<le> (of_char c :: int) \<and> (of_char c :: int) < 58"

definition digit_value :: "char \<Rightarrow> int" where
  "digit_value c = of_char c - 48"

definition decimal :: "string \<Rightarrow> int" where
  "decimal ds = foldl (\<lambda>a c. 10 * a + digit_value c) 0 ds"

text \<open>
  The subject sequence of \<open>strtol\<close> in base ten: white space, an optional sign, digits; what
  follows is ignored.  \<open>None\<close> if there is no digit.
\<close>

definition strtol :: "string \<Rightarrow> int option" where
  "strtol s =
     (let s = dropWhile is_space s;
          neg = (s \<noteq> [] \<and> hd s = CHR ''-'');
          s = (if s \<noteq> [] \<and> hd s \<in> {CHR ''-'', CHR ''+''} then tl s else s);
          ds = takeWhile is_digit s
      in if ds = [] then None else Some (if neg then - decimal ds else decimal ds))"

definition int_min :: int where "int_min = - (2 ^ 31)"
definition int_max :: int where "int_max = 2 ^ 31 - 1"
definition long_min :: int where "long_min = - (2 ^ 63)"
definition long_max :: int where "long_max = 2 ^ 63 - 1"

text \<open>\<open>std::stoi\<close>, with its two exceptions.\<close>

datatype stoi_error = Invalid_Argument | Out_Of_Range

definition stoi :: "string \<Rightarrow> stoi_error + int" where
  "stoi s =
     (case strtol s of
        None \<Rightarrow> Inl Invalid_Argument
      | Some v \<Rightarrow> if int_min \<le> v \<and> v \<le> int_max then Inr v else Inl Out_Of_Range)"

text \<open>\<open>std::to_string\<close>.\<close>

fun nat_to_string :: "nat \<Rightarrow> string" where
  "nat_to_string n =
     (if n < 10 then [char_of (48 + n)] else nat_to_string (n div 10) @ [char_of (48 + n mod 10)])"

declare nat_to_string.simps [simp del]

definition to_string :: "int \<Rightarrow> string" where
  "to_string i = (if i < 0 then CHR ''-'' # nat_to_string (nat (- i)) else nat_to_string (nat i))"

section \<open>Command-line arguments\<close>

record BenchArgs =
  mode :: int
  printed :: bool

definition BenchArgs_default :: BenchArgs where
  "BenchArgs_default = \<lparr>mode = 0, printed = True\<rparr>"

definition printed_suffix :: string where
  "printed_suffix = ''_printed''"

text \<open>
  \<open>argv\<close> with its program name; an exception of \<open>std::stoi\<close> is not caught.  The test is the
  source's: long enough to hold the suffix and one more character, and ending in the suffix.
\<close>

definition ends_printed :: "string \<Rightarrow> bool" where
  "ends_printed arg \<longleftrightarrow>
     length arg \<ge> length printed_suffix + 1 \<and>
     drop (length arg - length printed_suffix) arg = printed_suffix"

definition parse_bench_args :: "string list \<Rightarrow> stoi_error + BenchArgs" where
  "parse_bench_args argv =
     (if length argv \<le> 1 then Inr BenchArgs_default
      else
        let arg = argv ! 1 in
        if ends_printed arg
        then map_sum id (\<lambda>m. \<lparr>mode = m, printed = True\<rparr>)
               (stoi (take (length arg - length printed_suffix) arg))
        else map_sum id (\<lambda>m. \<lparr>mode = m, printed = False\<rparr>) (stoi arg))"

section \<open>Core frequency\<close>

text \<open>
  \<open>f >> freq_khz\<close>: a stream that did not open, or holds only white space, leaves the variable
  as it is; otherwise a failed conversion stores zero, an overflowing one the nearest limit.
\<close>

definition extract_long :: "string option \<Rightarrow> int \<Rightarrow> int" where
  "extract_long contents x =
     (case contents of
        None \<Rightarrow> x
      | Some s \<Rightarrow>
          if dropWhile is_space s = [] then x
          else (case strtol s of
                  None \<Rightarrow> 0
                | Some v \<Rightarrow> max long_min (min long_max v)))"

definition freq_path :: "int \<Rightarrow> string" where
  "freq_path cpu =
     ''/sys/devices/system/cpu/cpu'' @ to_string cpu @ ''/cpufreq/scaling_cur_freq''"

record CoreSnapshot =
  cpu :: int
  freq_mhz :: int

definition take_core_snapshot :: "(string \<Rightarrow> string option) \<Rightarrow> int \<Rightarrow> CoreSnapshot" where
  "take_core_snapshot files sched_getcpu =
     (let freq_khz = extract_long (files (freq_path sched_getcpu)) (- 1)
      in \<lparr>cpu = sched_getcpu, freq_mhz = freq_khz sdiv 1000\<rparr>)"

definition read_core_freq_mhz :: "(string \<Rightarrow> string option) \<Rightarrow> int \<Rightarrow> int" where
  "read_core_freq_mhz files core_id =
     (let freq_khz = extract_long (files (freq_path core_id)) (- 1)
      in if freq_khz > 0 then freq_khz sdiv 1000 else - 1)"

definition print_core_snapshot :: "string \<Rightarrow> CoreSnapshot \<Rightarrow> string" where
  "print_core_snapshot label snap =
     (if cpu snap = - 1 then []
      else ''  ['' @ label @ ''] core='' @ to_string (cpu snap)
           @ '' freq='' @ to_string (freq_mhz snap) @ ''MHz'' @ [CHR 0x0A])"

text \<open>The platforms without such a query: Apple's, and any but it and Linux.\<close>

definition take_core_snapshot_apple :: CoreSnapshot where
  "take_core_snapshot_apple = \<lparr>cpu = - 1, freq_mhz = - 1\<rparr>"

definition take_core_snapshot_other :: CoreSnapshot where
  "take_core_snapshot_other = \<lparr>cpu = - 1, freq_mhz = - 1\<rparr>"

text \<open>\<open>f >> gov\<close> reads one word; the warning is written if it is not \<open>performance\<close>.\<close>

definition check_cpu_governor :: "(string \<Rightarrow> string option) \<Rightarrow> string option" where
  "check_cpu_governor files =
     (case files ''/sys/devices/system/cpu/cpu0/cpufreq/scaling_governor'' of
        None \<Rightarrow> None
      | Some s \<Rightarrow>
          let gov = takeWhile (\<lambda>c. \<not> is_space c) (dropWhile is_space s)
          in if gov \<noteq> [] \<and> gov \<noteq> ''performance'' then Some gov else None)"

definition check_cpu_governor_apple :: "string option" where "check_cpu_governor_apple = None"
definition check_cpu_governor_other :: "string option" where "check_cpu_governor_other = None"

section \<open>Pinning\<close>

text \<open>
  The set holds the one core; \<open>setaffinity\<close> stands for \<open>pthread_setaffinity_np\<close> on the calling
  thread \<open>th\<close>, and the result is the thread after it and the message, if the call failed.  On
  Apple's systems \<open>set_qos\<close> raises the thread's class and its answer is not looked at.
\<close>

definition pin_thread_to_core :: "(int set \<Rightarrow> 'th \<Rightarrow> int \<times> 'th) \<Rightarrow> int \<Rightarrow> 'th \<Rightarrow> 'th \<times> string option" where
  "pin_thread_to_core setaffinity core_id th =
     (let cpuset = {}; cpuset = insert core_id cpuset; (rc, th) = setaffinity cpuset th
      in (th, if rc \<noteq> 0
              then Some (''pin_thread_to_core: failed to pin to core '' @ to_string core_id @ [CHR 0x0A])
              else None))"

definition pin_thread_to_core_apple :: "('th \<Rightarrow> 'th) \<Rightarrow> int \<Rightarrow> 'th \<Rightarrow> 'th" where
  "pin_thread_to_core_apple set_qos core_id th = set_qos th"

definition pin_thread_to_core_other :: "int \<Rightarrow> 'th \<Rightarrow> 'th" where
  "pin_thread_to_core_other core_id th = th"

section \<open>The time-stamp counter\<close>

text \<open>The two halves \<open>rdtscp\<close> leaves in registers, combined.\<close>

definition rdtsc :: "32 word \<Rightarrow> 32 word \<Rightarrow> u64" where
  "rdtsc lo hi = (push_bit 32 (ucast hi)) OR ucast lo"

text \<open>Apple Silicon: ticks of a 24 MHz counter, scaled to nanoseconds in 64-bit arithmetic.\<close>

definition rdtsc_apple :: "u64 \<Rightarrow> 32 word \<Rightarrow> 32 word \<Rightarrow> u64" where
  "rdtsc_apple ticks numer denom = ticks * ucast numer div ucast denom"

text \<open>Elsewhere the count of \<open>std::chrono::steady_clock\<close>.\<close>

definition rdtsc_other :: "int \<Rightarrow> u64" where
  "rdtsc_other count = of_int count"

definition timing_unit :: string where "timing_unit = ''cycles''"
definition timing_unit_apple :: string where "timing_unit_apple = ''ns (24MHz, ~42ns floor)''"
definition timing_unit_other :: string where "timing_unit_other = ''ns''"

text \<open>
  The four readings \<open>calibrate_tsc_ghz\<close> takes, in their order: the wall clock, the counter, and
  after the sleep the counter and the wall clock.  The type \<open>'d\<close> stands for \<open>double\<close>, with the
  conversions from the two integer types.
\<close>

record timespec =
  tv_sec :: int
  tv_nsec :: int

definition calibrate_tsc_ghz :: "(int \<Rightarrow> 'd) \<Rightarrow> (u64 \<Rightarrow> 'd) \<Rightarrow> timespec \<Rightarrow> u64 \<Rightarrow> u64 \<Rightarrow> timespec
    \<Rightarrow> 'd :: {plus, times, inverse}" where
  "calibrate_tsc_ghz double_of_long double_of_u64 t0_wall t0_tsc t1_tsc t1_wall =
     (let ns_elapsed = double_of_long (tv_sec t1_wall - tv_sec t0_wall) * double_of_long 1000000000
                       + double_of_long (tv_nsec t1_wall - tv_nsec t0_wall)
      in double_of_u64 (t1_tsc - t0_tsc) / ns_elapsed)"

section \<open>Printing and reading back\<close>

lemma digit_char [simp]:
  "d < 10 \<Longrightarrow> is_digit (char_of (48 + d))" "d < 10 \<Longrightarrow> digit_value (char_of (48 + d)) = int d"
proof -
  have "(of_char (char_of (48 + d)) :: int) = int (48 + d)" if "d < 10" for d :: nat
    using that of_nat_of_char [where 'a = int, of "char_of (48 + d)"] by simp
  then show "d < 10 \<Longrightarrow> is_digit (char_of (48 + d))"
    "d < 10 \<Longrightarrow> digit_value (char_of (48 + d)) = int d"
    by (simp_all add: is_digit_def digit_value_def)
qed

lemma nat_to_string_digits: "nat_to_string n \<noteq> [] \<and> list_all is_digit (nat_to_string n)"
  by (induction n rule: nat_to_string.induct) (subst (1 2) nat_to_string.simps, simp)

lemma decimal_snoc: "decimal (ds @ [c]) = 10 * decimal ds + digit_value c"
  by (simp add: decimal_def)

lemma decimal_nat_to_string: "decimal (nat_to_string n) = int n"
proof (induction n rule: nat_to_string.induct)
  case (1 n)
  show ?case
  proof (cases "n < 10")
    case True
    then show ?thesis by (simp add: nat_to_string.simps [of n] decimal_def)
  next
    case False
    then show ?thesis
      using 1 by (simp add: nat_to_string.simps [of n] decimal_snoc) (simp add: of_nat_mod of_nat_div)
  qed
qed

lemma digit_not_special: "is_digit c \<Longrightarrow> \<not> is_space c \<and> c \<noteq> CHR ''-'' \<and> c \<noteq> CHR ''+''"
  by (auto simp: is_digit_def is_space_def)

text \<open>What \<open>std::stoi\<close> reads of a printed number followed by anything but a digit.\<close>

lemma strtol_to_string:
  assumes "rest = [] \<or> \<not> is_digit (hd rest)"
  shows "strtol (to_string i @ rest) = Some i"
proof -
  have tw: "takeWhile is_digit (nat_to_string n @ rest) = nat_to_string n" for n
    using nat_to_string_digits [of n] assms by (cases rest) (auto simp: takeWhile_append list_all_iff)
  obtain c ds where c: "nat_to_string (nat i) = c # ds" "is_digit c"
    using nat_to_string_digits [of "nat i"] by (cases "nat_to_string (nat i)") auto
  show ?thesis
  proof (cases "i < 0")
    case True
    then show ?thesis
      using tw [of "nat (- i)"] nat_to_string_digits [of "nat (- i)"] decimal_nat_to_string [of "nat (- i)"]
      by (simp add: strtol_def to_string_def is_space_def)
  next
    case False
    then have "to_string i @ rest = c # ds @ rest" using c by (simp add: to_string_def)
    then show ?thesis
      using digit_not_special [OF c(2)] tw [of "nat i"] decimal_nat_to_string [of "nat i"] c False
      by (simp add: strtol_def)
  qed
qed

lemma stoi_to_string: "int_min \<le> i \<Longrightarrow> i \<le> int_max \<Longrightarrow> stoi (to_string i) = Inr i"
  using strtol_to_string [of "[]" i] by (simp add: stoi_def)

text \<open>
  The number at the front of an argument is the same with and without the suffix, because the
  suffix does not start with anything a number can contain.
\<close>

lemma strtol_suffix: "strtol (p @ printed_suffix) = strtol p"
proof (cases "dropWhile is_space p")
  case Nil
  then have d: "dropWhile is_space (p @ printed_suffix) = printed_suffix"
    by (simp add: dropWhile_append) (simp add: printed_suffix_def is_space_def)
  show ?thesis
    unfolding strtol_def d Nil by (simp add: printed_suffix_def is_digit_def)
next
  case (Cons c s)
  then have d: "dropWhile is_space (p @ printed_suffix) = c # s @ printed_suffix"
    by (metis append_Cons dropWhile_append dropWhile_eq_Nil_conv list.distinct(1) list_all_iff dropWhile_append1)
  have t: "takeWhile is_digit (xs @ printed_suffix) = takeWhile is_digit xs" for xs
    by (induction xs) (simp_all add: printed_suffix_def is_digit_def)
  show ?thesis
    using t [of s] t [of "c # s"] unfolding strtol_def d Cons by (simp add: Let_def)
qed

lemma ends_printedD:
  "ends_printed arg \<Longrightarrow> arg = take (length arg - length printed_suffix) arg @ printed_suffix"
  unfolding ends_printed_def by (metis append_take_drop_id)

text \<open>
  What the two binaries read from their command line: no argument means all
  variants with output; otherwise the mode is the number at the front of the first argument,
  whatever follows it, output is wanted exactly if the argument ends in \<open>_printed\<close>, and the
  exceptions are those of \<open>std::stoi\<close> on the whole argument.
\<close>

theorem parse_bench_args_spec:
  "parse_bench_args [prog] = Inr \<lparr>mode = 0, printed = True\<rparr> \<and>
   parse_bench_args (prog # arg # args) =
     map_sum id (\<lambda>m. \<lparr>mode = m, printed = ends_printed arg\<rparr>) (stoi arg)"
proof -
  have "stoi (take (length arg - length printed_suffix) arg) = stoi arg" if "ends_printed arg"
    using strtol_suffix [of "take (length arg - length printed_suffix) arg"] ends_printedD [OF that]
    by (simp add: stoi_def)
  then show ?thesis by (simp add: parse_bench_args_def BenchArgs_default_def Let_def)
qed

lemma ends_printed_number:
  "ends_printed (to_string m @ printed_suffix)" "\<not> ends_printed (to_string m)"
proof -
  have ne: "to_string m \<noteq> []" and dig: "is_digit (last (to_string m))"
    using nat_to_string_digits [of "nat m"] nat_to_string_digits [of "nat (- m)"]
    by (auto simp: to_string_def list_all_iff)
  show "ends_printed (to_string m @ printed_suffix)"
    using ne by (auto simp: ends_printed_def Suc_le_eq)
  show "\<not> ends_printed (to_string m)"
  proof
    assume "ends_printed (to_string m)"
    then have "last (to_string m) = last printed_suffix"
      by (metis ends_printedD last_appendR list.distinct(1) printed_suffix_def)
    with dig show False by (simp add: printed_suffix_def is_digit_def)
  qed
qed

text \<open>
  Property C26. Every mode an \<open>int\<close> can hold can be asked for, silently by its decimal form
  and with output by that form and the suffix; further arguments are ignored.
\<close>

theorem parse_bench_args_roundtrip:
  assumes "int_min \<le> m" and "m \<le> int_max"
  shows "parse_bench_args (prog # to_string m # args) = Inr \<lparr>mode = m, printed = False\<rparr> \<and>
         parse_bench_args (prog # (to_string m @ printed_suffix) # args) = Inr \<lparr>mode = m, printed = True\<rparr>"
proof -
  have "stoi (to_string m @ printed_suffix) = Inr m" "stoi (to_string m) = Inr m"
    using strtol_suffix [of "to_string m"] stoi_to_string [OF assms] by (simp_all add: stoi_def)
  then show ?thesis
    using ends_printed_number [of m] ends_printedD [of "to_string m @ printed_suffix"]
    by (simp add: parse_bench_args_def)
qed

theorem parse_bench_args_roundtrip_witness:
  "parse_bench_args (''spsc_bench'' # to_string 2 # []) = Inr \<lparr>mode = 2, printed = False\<rparr> \<and>
   parse_bench_args (''spsc_bench'' # (to_string 2 @ printed_suffix) # []) = Inr \<lparr>mode = 2, printed = True\<rparr>"
  by (rule parse_bench_args_roundtrip) (simp_all add: int_min_def int_max_def)

section \<open>Reading the core frequency\<close>

lemma extract_long_number:
  assumes "0 < f" "f \<le> long_max" "rest = [] \<or> \<not> is_digit (hd rest)"
  shows "extract_long (Some (to_string f @ rest)) x = f"
proof -
  obtain c ds where c: "nat_to_string (nat f) = c # ds" "is_digit c"
    using nat_to_string_digits [of "nat f"] by (cases "nat_to_string (nat f)") auto
  then show ?thesis
    using strtol_to_string [OF assms(3), of f] digit_not_special [OF c(2)] assms(1,2)
    by (simp add: extract_long_def to_string_def long_min_def)
qed

text \<open>
  The two ways the code reads a core's frequency agree, rounding kHz down to MHz,
  whenever the file holds a positive number; but where the file does not exist
  \<open>read_core_freq_mhz\<close> reports \<open>-1\<close> and \<open>take_core_snapshot\<close> a frequency of zero, since the
  quotient \<open>-1 / 1000\<close> of C++ is zero.
\<close>

theorem core_frequency:
  assumes "0 < f" "f \<le> long_max" "rest = [] \<or> \<not> is_digit (hd rest)"
    and "files (freq_path c) = Some (to_string f @ rest)" and "files (freq_path d) = None"
  shows "freq_mhz (take_core_snapshot files c) = f div 1000 \<and> read_core_freq_mhz files c = f div 1000 \<and>
         freq_mhz (take_core_snapshot files d) = 0 \<and> read_core_freq_mhz files d = - 1"
  using extract_long_number [OF assms(1-3)] assms(1,4,5)
  by (simp add: take_core_snapshot_def read_core_freq_mhz_def signed_divide_int_def)
     (simp add: extract_long_def)

theorem core_frequency_witness:
  "let files = (\<lambda>p. if p = freq_path 0 then Some (to_string 3400500 @ [CHR 0x0A]) else None) in
   freq_mhz (take_core_snapshot files 0) = 3400 \<and> read_core_freq_mhz files 0 = 3400 \<and>
   freq_mhz (take_core_snapshot files 1) = 0 \<and> read_core_freq_mhz files 1 = - 1"
proof -
  define files where "files = (\<lambda>p. if p = freq_path 0 then Some (to_string 3400500 @ [CHR 0x0A]) else None)"
  have "freq_path 1 \<noteq> freq_path 0" by code_simp
  then have f: "files (freq_path 0) = Some (to_string 3400500 @ [CHR 0x0A])" "files (freq_path 1) = None"
    by (simp_all add: files_def)
  have "freq_mhz (take_core_snapshot files 0) = 3400500 div 1000 \<and> read_core_freq_mhz files 0 = 3400500 div 1000 \<and>
        freq_mhz (take_core_snapshot files 1) = 0 \<and> read_core_freq_mhz files 1 = - 1"
    by (rule core_frequency [OF _ _ _ f]) (simp_all add: long_max_def is_digit_def)
  then show ?thesis by (simp add: files_def)
qed

section \<open>Calibration\<close>

text \<open>What \<open>clock_gettime\<close> stores when \<open>T\<close> nanoseconds have passed on its clock.\<close>

definition timespec_of :: "int \<Rightarrow> timespec" where
  "timespec_of T = \<lparr>tv_sec = T div 1000000000, tv_nsec = T mod 1000000000\<rparr>"

text \<open>The counter is read modulo \<open>2 ^ 64\<close>; the difference of two readings is not affected.\<close>

lemma counter_difference:
  assumes "n \<le> m" and "m - n < 2 ^ 64"
  shows "unat (of_nat m - of_nat n :: u64) = m - n"
proof -
  have "(of_nat m - of_nat n :: u64) = of_nat (m - n)" using assms(1) by (simp add: of_nat_diff)
  then show ?thesis using assms(2) by (simp add: unat_of_nat)
qed

section \<open>The counter\<close>

text \<open>
  The time stamp is the 64-bit number whose halves are the two registers, so the
  difference of two stamps, as the benchmarks take it, is the number of ticks between them
  even across a carry between the halves.
\<close>

theorem rdtsc_halves:
  "unat (rdtsc lo hi) = unat hi * 2 ^ 32 + unat lo"
proof -
  have disj: "push_bit 32 (ucast hi :: u64) AND ucast lo = 0"
    by (rule bit_word_eqI) (auto simp: bit_simps dest: bit_imp_le_length)
  have "rdtsc lo hi = push_bit 32 (ucast hi) + ucast lo"
    unfolding rdtsc_def using disj by (simp add: disjunctive_add_eq_or)
  then have e: "rdtsc lo hi = of_nat (unat hi * 2 ^ 32 + unat lo)"
    by (simp add: push_bit_eq_mult unsigned_ucast_eq)
  have "unat hi < 2 ^ 32" "unat lo < 2 ^ 32"
    using unsigned_less [of hi] unsigned_less [of lo] by simp_all
  then have "unat hi * 2 ^ 32 + unat lo < 2 ^ 64" by simp
  then show ?thesis
    unfolding e unat_of_nat by simp
qed

end
