(* ===== verification/Sampling.thy ===== *)
theory Sampling
  imports Complex_Main Pipeline_Prelude "HOL-Library.Multiset"
begin

text \<open>
  The latency samples of the benchmarks and the percentiles they report.  The functions
  \<open>percentile\<close> of \<open>bench/spsc_bench.cpp\<close>, \<open>bench/pingpong_bench.cpp\<close> and
  \<open>experiments/cas_spinlock.cpp\<close> pick an element of the sorted samples by a product in
  double precision, truncated; that product is a parameter, of which only the bound is
  assumed.  An element read outside the vector, undefined in C++, is \<open>None\<close>.
\<close>

definition vector_at :: "'a list \<Rightarrow> nat \<Rightarrow> 'a option" where
  "vector_at xs i = (if i < length xs then Some (xs ! i) else None)"

text \<open>\<open>bench/spsc_bench.cpp\<close> sorts the vector it is given by reference and leaves it sorted.\<close>

definition percentile :: "(rat \<Rightarrow> nat \<Rightarrow> nat) \<Rightarrow> int list \<Rightarrow> rat \<Rightarrow> int option \<times> int list" where
  "percentile mul samples p =
     (let samples = sort samples
      in (if p \<ge> 1 then vector_at samples (length samples - 1)
          else vector_at samples (mul p (length samples)), samples))"

text \<open>\<open>bench/pingpong_bench.cpp\<close> reads the vector as it is; \<open>main\<close> has sorted it before, as in
  \<open>experiments/cas_spinlock.cpp\<close>, whose function is in \<open>Cas_Spinlock\<close>.\<close>

definition percentile_sorted :: "(rat \<Rightarrow> nat \<Rightarrow> nat) \<Rightarrow> int list \<Rightarrow> rat \<Rightarrow> int option" where
  "percentile_sorted mul samples p =
     (if p = 1 then vector_at samples (length samples - 1) else vector_at samples (mul p (length samples)))"

text \<open>
  \<open>v\<close> has rank \<open>k\<close> among the samples: fewer than \<open>k + 1\<close> are smaller and more than \<open>k\<close> are
  not greater.
\<close>

definition has_rank :: "'a :: linorder list \<Rightarrow> nat \<Rightarrow> 'a \<Rightarrow> bool" where
  "has_rank samples k v \<longleftrightarrow>
     v \<in> set samples \<and> length (filter (\<lambda>x. x < v) samples) \<le> k \<and>
     k < length (filter (\<lambda>x. x \<le> v) samples)"

lemma length_filter_sort: "length (filter P (sort xs)) = length (filter P xs)"
  by (metis mset_filter mset_sort size_mset)

lemma has_rank_sort: "has_rank (sort xs) k v \<longleftrightarrow> has_rank xs k v"
  by (simp add: has_rank_def length_filter_sort)

lemma sorted_has_rank:
  assumes "sorted xs" and "k < length xs"
  shows "has_rank xs k (xs ! k)"
proof -
  let ?v = "xs ! k"
  have split: "xs = take k xs @ drop k xs" by simp
  have "filter (\<lambda>x. x < ?v) (drop k xs) = []"
    using assms by (auto simp: filter_empty_conv in_set_conv_nth not_less intro!: sorted_nth_mono)
  then have "length (filter (\<lambda>x. x < ?v) xs) = length (filter (\<lambda>x. x < ?v) (take k xs))"
    by (subst split) (simp only: filter_append length_append, simp)
  also have "\<dots> \<le> k"
    using length_filter_le [of "\<lambda>x. x < ?v" "take k xs"] by simp
  finally have less: "length (filter (\<lambda>x. x < ?v) xs) \<le> k" .
  have "filter (\<lambda>x. x \<le> ?v) (take (Suc k) xs) = take (Suc k) xs"
    using assms by (auto simp: filter_id_conv in_set_conv_nth intro!: sorted_nth_mono)
  then have "Suc k \<le> length (filter (\<lambda>x. x \<le> ?v) (take (Suc k) xs @ drop (Suc k) xs))"
    using assms(2) by (simp del: append_take_drop_id)
  with less assms(2) show ?thesis by (simp add: has_rank_def)
qed

lemma percentile_at:
  assumes "samples \<noteq> []" and "p < 1" and "mul p (length samples) < length samples"
  shows "\<exists>v. percentile mul samples p = (Some v, sort samples) \<and>
             has_rank samples (mul p (length samples)) v"
  using assms sorted_has_rank [of "sort samples" "mul p (length samples)"]
  by (simp add: percentile_def vector_at_def Let_def has_rank_sort)

text \<open>
  A reported percentile is a sample of the right rank: for \<open>p\<close> below one the
  element with \<open>p * n\<close> (truncated) samples before it in order, otherwise the largest, and the
  vector is left a sorted permutation of itself.  All that is used of the floating-point
  product is that it stays below the number of samples.
\<close>

theorem percentile_rank:
  assumes "samples \<noteq> []" and "p < 1 \<Longrightarrow> mul p (length samples) < length samples"
  shows "\<exists>v. percentile mul samples p = (Some v, sort samples) \<and>
             has_rank samples (if p < 1 then mul p (length samples) else length samples - 1) v"
proof -
  let ?k = "if p < 1 then mul p (length samples) else length samples - 1"
  have k: "?k < length samples" using assms by (cases "p < 1") simp_all
  then have "percentile mul samples p = (Some (sort samples ! ?k), sort samples)"
    by (cases "p < 1") (simp_all add: percentile_def vector_at_def Let_def)
  moreover have "has_rank samples ?k (sort samples ! ?k)"
    using sorted_has_rank [of "sort samples" ?k] k by (simp only: has_rank_sort sorted_sort length_sort)
  ultimately show ?thesis by blast
qed

theorem percentile_rank_witness:
  "\<exists>v. percentile (\<lambda>p n. nat \<lfloor>p * rat_of_nat n\<rfloor>) [7, 3, 9, 5] (1 / 2) = (Some v, [3, 5, 7, 9]) \<and>
       has_rank [7, 3, 9, 5 :: int] 2 v"
proof -
  have "\<exists>v. percentile (\<lambda>p n. nat \<lfloor>p * rat_of_nat n\<rfloor>) [7, 3, 9, 5] (1 / 2) = (Some v, sort [7, 3, 9, 5]) \<and>
      has_rank [7, 3, 9, 5 :: int]
        (if (1 / 2 :: rat) < 1 then nat \<lfloor>(1 / 2) * rat_of_nat (length [7, 3, 9, 5 :: int])\<rfloor>
         else length [7, 3, 9, 5 :: int] - 1) v"
    by (rule percentile_rank) simp_all
  then show ?thesis by simp
qed

lemma percentile_sorted_rank:
  assumes "sorted samples" "samples \<noteq> []" and "p \<noteq> 1 \<Longrightarrow> mul p (length samples) < length samples"
  shows "\<exists>v. percentile_sorted mul samples p = Some v \<and>
             has_rank samples (if p = 1 then length samples - 1 else mul p (length samples)) v"
  using assms sorted_has_rank [OF assms(1), of "mul p (length samples)"]
    sorted_has_rank [OF assms(1), of "length samples - 1"]
  by (auto simp: percentile_sorted_def vector_at_def)

section \<open>Distances between consecutive time stamps\<close>

definition deltas :: "int list \<Rightarrow> int list" where
  "deltas ts = map (\<lambda>i. ts ! i - ts ! (i - 1)) [1 ..< length ts]"

lemma length_deltas [simp]: "length (deltas ts) = length ts - 1"
  by (simp add: deltas_def)

lemma deltas_Cons: "deltas (x # y # ts) = (y - x) # deltas (y # ts)"
proof -
  have "[1 ..< length (x # y # ts)] = 1 # map Suc [1 ..< length (y # ts)]"
    by (simp add: map_Suc_upt upt_conv_Cons del: upt_Suc)
  then have "deltas (x # y # ts) = (y - x) # map (\<lambda>i. (x # y # ts) ! Suc i - (x # y # ts) ! i) [1 ..< length (y # ts)]"
    by (simp add: deltas_def del: upt_Suc)
  also have "map (\<lambda>i. (x # y # ts) ! Suc i - (x # y # ts) ! i) [1 ..< length (y # ts)] = deltas (y # ts)"
    unfolding deltas_def by (rule map_cong) (auto simp: nth_Cons')
  finally show ?thesis .
qed

lemma sum_deltas: "sum_list (deltas (t # ts)) = last (t # ts) - t"
proof (induction ts arbitrary: t)
  case Nil
  show ?case by (simp add: deltas_def)
next
  case (Cons u us)
  then show ?case by (simp add: deltas_Cons)
qed

end
