(* ===== verification/Spsc_Bench.thy ===== *)
theory Spsc_Bench
  imports Spsc_Guarantees Bench_Utils Sampling
begin

text \<open>
  \<open>bench/spsc_bench.cpp\<close>: the two worker loops that move \<open>n\<close> items through one
  \<open>SpscQueue\<close> from a producer thread to a consumer thread (the correctness test with its
  assertion, and the benchmark with its time stamps), the single-threaded size test, the
  percentile and the choice of the best run.  Both pairs of loops are instances of one client
  of the concurrent queue: they differ in the items and in what the consumer does with each.
\<close>

section \<open>The worker loops over the concurrent queue\<close>

text \<open>
  \<open>p_expected\<close> and \<open>c_expected\<close> are the loop counters of the two threads (both loops count
  successes and run while the counter is below \<open>n\<close>), \<open>c_data\<close> is what the consumer
  loop keeps besides.  Every access of the queue's members is a step, so the two loops
  interleave freely.
\<close>

record ('T, 'b) transfer =
  tsys :: "'T spsc_sys"
  p_expected :: nat
  c_expected :: nat
  c_data :: 'b

text \<open>\<open>while (expected < n) if (queue.try_push(mk(expected))) expected++;\<close>\<close>

definition producer_loop :: "u64 \<Rightarrow> nat \<Rightarrow> (nat \<Rightarrow> 'T) \<Rightarrow> nat \<Rightarrow> ('T, 'b) transfer
    \<Rightarrow> ('T, 'b) transfer option" where
  "producer_loop C n mk k s =
     (case ppc (tsys s) of
        P_Idle \<Rightarrow>
          if p_expected s < n
          then map_option (\<lambda>q. s\<lparr>tsys := q\<rparr>) (spsc_next C (Call_Push (mk (p_expected s))) (tsys s))
          else None
      | P_Done b \<Rightarrow>
          map_option (\<lambda>q. s\<lparr>tsys := q, p_expected := if b then Suc (p_expected s) else p_expected s\<rparr>)
            (spsc_next C Ret_Push (tsys s))
      | _ \<Rightarrow> map_option (\<lambda>q. s\<lparr>tsys := q\<rparr>) (spsc_next C (Step_Push k) (tsys s)))"

text \<open>
  \<open>while (expected < n) if (queue.try_pop(out)) { use(expected, out); expected++; }\<close>, where
  the clock reads \<open>now\<close>.
\<close>

definition consumer_loop :: "u64 \<Rightarrow> nat \<Rightarrow> (nat \<Rightarrow> 'T \<Rightarrow> int \<Rightarrow> 'b \<Rightarrow> 'b) \<Rightarrow> nat \<Rightarrow> int
    \<Rightarrow> ('T, 'b) transfer \<Rightarrow> ('T, 'b) transfer option" where
  "consumer_loop C n use k now s =
     (case cpc (tsys s) of
        C_Idle \<Rightarrow>
          if c_expected s < n
          then map_option (\<lambda>q. s\<lparr>tsys := q\<rparr>) (spsc_next C Call_Pop (tsys s))
          else None
      | C_Done r \<Rightarrow>
          map_option (\<lambda>q. case r of
                None \<Rightarrow> s\<lparr>tsys := q\<rparr>
              | Some out \<Rightarrow> s\<lparr>tsys := q, c_expected := Suc (c_expected s),
                              c_data := use (c_expected s) out now (c_data s)\<rparr>)
            (spsc_next C Ret_Pop (tsys s))
      | _ \<Rightarrow> map_option (\<lambda>q. s\<lparr>tsys := q\<rparr>) (spsc_next C (Step_Pop k) (tsys s)))"

datatype worker = Producer nat | Consumer nat int

definition transfer_next :: "u64 \<Rightarrow> nat \<Rightarrow> (nat \<Rightarrow> 'T) \<Rightarrow> (nat \<Rightarrow> 'T \<Rightarrow> int \<Rightarrow> 'b \<Rightarrow> 'b) \<Rightarrow> worker
    \<Rightarrow> ('T, 'b) transfer \<Rightarrow> ('T, 'b) transfer option" where
  "transfer_next C n mk use w s =
     (case w of Producer k \<Rightarrow> producer_loop C n mk k s
              | Consumer k now \<Rightarrow> consumer_loop C n use k now s)"

definition transfer_init :: "(nat \<Rightarrow> 'T) \<Rightarrow> 'b \<Rightarrow> ('T, 'b) transfer" where
  "transfer_init garbage b0 =
     \<lparr>tsys = spsc_init garbage, p_expected = 0, c_expected = 0, c_data = b0\<rparr>"

text \<open>Both loops have ended, so both \<open>join\<close> calls return.\<close>

definition transfer_done :: "nat \<Rightarrow> ('T, 'b) transfer \<Rightarrow> bool" where
  "transfer_done n s \<longleftrightarrow>
     ppc (tsys s) = P_Idle \<and> cpc (tsys s) = C_Idle \<and> p_expected s = n \<and> c_expected s = n"

text \<open>
  The correctness test: the items are the counter converted to \<open>int\<close>, and the consumer
  asserts that it gets the one it expects; \<open>c_data\<close> is whether an assertion has failed.
\<close>

definition test_item :: "nat \<Rightarrow> i32" where
  "test_item i = of_nat i"

definition test_use :: "nat \<Rightarrow> i32 \<Rightarrow> int \<Rightarrow> bool \<Rightarrow> bool" where
  "test_use expected out now failed = (failed \<or> out \<noteq> test_item expected)"

abbreviation test_next :: "u64 \<Rightarrow> nat \<Rightarrow> worker \<Rightarrow> (i32, bool) transfer \<Rightarrow> (i32, bool) transfer option" where
  "test_next C n \<equiv> transfer_next C n test_item test_use"

text \<open>
  The benchmark: \<open>Item\<close> and \<open>PaddedItem\<close> hold one \<open>int\<close>, and the consumer writes the
  clock to \<open>timestamps[i]\<close>; an index outside the vector, undefined in C++, is the value
  \<open>None\<close>.
\<close>

record Item =
  val :: i32

definition bench_item :: "nat \<Rightarrow> Item" where
  "bench_item i = \<lparr>val = of_nat i\<rparr>"

definition bench_use :: "nat \<Rightarrow> Item \<Rightarrow> int \<Rightarrow> int list option \<Rightarrow> int list option" where
  "bench_use i out now timestamps =
     (case timestamps of
        None \<Rightarrow> None
      | Some ts \<Rightarrow> if i < length ts then Some (ts[i := now]) else None)"

abbreviation bench_next :: "u64 \<Rightarrow> nat \<Rightarrow> worker \<Rightarrow> (Item, int list option) transfer
    \<Rightarrow> (Item, int list option) transfer option" where
  "bench_next C n \<equiv> transfer_next C n bench_item bench_use"

definition TEST_CONCURRENCY_QUEUE_SIZE :: u64 where "TEST_CONCURRENCY_QUEUE_SIZE = 1024"
definition TEST_CONCURRENCY_N :: nat where "TEST_CONCURRENCY_N = 1024 * 1024"
definition BENCH_QUEUE_SIZE :: u64 where "BENCH_QUEUE_SIZE = 1024"
definition BENCH_N :: nat where "BENCH_N = push_bit 20 1"

section \<open>The client invariant\<close>

text \<open>
  What the two loops need of their parameters: whatever the consumer keeps, it stays good as
  long as it is fed the items in order.
\<close>

locale transfer_client =
  fixes C :: u64 and n :: nat and mk :: "nat \<Rightarrow> 'T"
    and use :: "nat \<Rightarrow> 'T \<Rightarrow> int \<Rightarrow> 'b \<Rightarrow> 'b" and b0 :: 'b and good :: "nat \<Rightarrow> 'b \<Rightarrow> bool"
  assumes capacity: "capacity_ok C"
    and good_init: "good 0 b0"
    and good_use: "i < n \<Longrightarrow> good i b \<Longrightarrow> good (Suc i) (use i (mk i) now b)"

text \<open>
  The producer has published the first \<open>p_expected\<close> items, and one more if its call is
  about to return true; the consumer has taken the first \<open>c_expected\<close>, likewise.
\<close>

definition sent :: "('T, 'b) transfer \<Rightarrow> nat" where
  "sent s = p_expected s + (case ppc (tsys s) of P_Done True \<Rightarrow> 1 | _ \<Rightarrow> 0)"

definition received :: "('T, 'b) transfer \<Rightarrow> nat" where
  "received s = c_expected s + (case cpc (tsys s) of C_Done (Some v) \<Rightarrow> 1 | _ \<Rightarrow> 0)"

definition sender_inv :: "nat \<Rightarrow> (nat \<Rightarrow> 'T) \<Rightarrow> ('T, 'b) transfer \<Rightarrow> bool" where
  "sender_inv n mk s \<longleftrightarrow>
     pushed (tsys s) = map mk [0 ..< sent s] \<and> p_expected s \<le> n \<and>
     (ppc (tsys s) \<noteq> P_Idle \<longrightarrow> p_expected s < n) \<and>
     (case ppc (tsys s) of
        P_Load_Tail x \<Rightarrow> x = mk (p_expected s)
      | P_Load_Head x t \<Rightarrow> x = mk (p_expected s)
      | P_Write x t \<Rightarrow> x = mk (p_expected s)
      | P_Store_Tail x t \<Rightarrow> x = mk (p_expected s)
      | _ \<Rightarrow> True)"

definition receiver_inv :: "nat \<Rightarrow> (nat \<Rightarrow> 'T) \<Rightarrow> (nat \<Rightarrow> 'b \<Rightarrow> bool) \<Rightarrow> ('T, 'b) transfer \<Rightarrow> bool" where
  "receiver_inv n mk good s \<longleftrightarrow>
     length (popped (tsys s)) = received s \<and> c_expected s \<le> n \<and>
     (cpc (tsys s) \<noteq> C_Idle \<longrightarrow> c_expected s < n) \<and>
     (case cpc (tsys s) of C_Done (Some v) \<Rightarrow> v = mk (c_expected s) | _ \<Rightarrow> True) \<and>
     good (c_expected s) (c_data s)"

definition transfer_inv :: "u64 \<Rightarrow> nat \<Rightarrow> (nat \<Rightarrow> 'T) \<Rightarrow> (nat \<Rightarrow> 'b \<Rightarrow> bool) \<Rightarrow> ('T, 'b) transfer \<Rightarrow> bool" where
  "transfer_inv C n mk good s \<longleftrightarrow> spsc_inv C (tsys s) \<and> sender_inv n mk s \<and> receiver_inv n mk good s"

lemma producer_loop_inv:
  assumes "producer_loop C n mk k s = Some t" and "sender_inv n mk s"
  shows "sender_inv n mk t"
  using assms
  by (auto simp: producer_loop_def sender_inv_def sent_def spsc_next_def push_step_def
      split: producer_pc.splits option.splits if_splits bool.splits)

lemma producer_loop_frame:
  assumes "producer_loop C n mk k s = Some t" and "receiver_inv n mk good s"
  shows "receiver_inv n mk good t"
proof -
  have "cpc (tsys t) = cpc (tsys s) \<and> popped (tsys t) = popped (tsys s) \<and>
      c_expected t = c_expected s \<and> c_data t = c_data s"
    using assms(1) by (auto simp: producer_loop_def spsc_next_def push_step_def
        split: producer_pc.splits option.splits if_splits)
  then have e: "cpc (tsys t) = cpc (tsys s)" "popped (tsys t) = popped (tsys s)"
    "c_expected t = c_expected s" "c_data t = c_data s"
    by simp_all
  from assms(2) show ?thesis unfolding receiver_inv_def received_def e .
qed

lemma consumer_loop_frame:
  assumes "consumer_loop C n use k now s = Some t" and "sender_inv n mk s"
  shows "sender_inv n mk t"
proof -
  have "ppc (tsys t) = ppc (tsys s) \<and> pushed (tsys t) = pushed (tsys s) \<and> p_expected t = p_expected s"
    using assms(1) by (auto simp: consumer_loop_def spsc_next_def pop_step_def split_beta
        split: consumer_pc.splits option.splits if_splits)
  then have e: "ppc (tsys t) = ppc (tsys s)" "pushed (tsys t) = pushed (tsys s)" "p_expected t = p_expected s"
    by simp_all
  from assms(2) show ?thesis unfolding sender_inv_def sent_def e .
qed

text \<open>A step of a loop is a step of the queue.\<close>

lemma transfer_next_queue:
  "transfer_next C n mk use w s = Some t \<Longrightarrow> \<exists>a. spsc_next C a (tsys s) = Some (tsys t)"
  by (cases w) (fastforce simp: transfer_next_def producer_loop_def consumer_loop_def
      split: producer_pc.splits consumer_pc.splits option.splits if_splits)+

text \<open>The item the consumer is about to deliver is the one it expects.\<close>

lemma consumer_next_item:
  assumes "spsc_inv C (tsys s)" and "sender_inv n mk s" and "cpc (tsys s) = C_Store_Head h v"
    and "length (popped (tsys s)) = c_expected s"
  shows "v = mk (c_expected s)"
  using spsc_inv_dequeue [OF assms(1,3)] assms(2,4) by (auto simp: sender_inv_def)

lemma consumer_loop_inv:
  assumes "consumer_loop C n use k now s = Some t"
    and "spsc_inv C (tsys s)" "sender_inv n mk s" "receiver_inv n mk good s"
    and "\<And>i b now. i < n \<Longrightarrow> good i b \<Longrightarrow> good (Suc i) (use i (mk i) now b)"
  shows "receiver_inv n mk good t"
proof (cases "cpc (tsys s)")
  case (C_Store_Head h v)
  with consumer_next_item [OF assms(2,3) this] assms(1,4) show ?thesis
    by (auto simp: consumer_loop_def receiver_inv_def received_def spsc_next_def pop_step_def)
next
  case (C_Done r)
  with assms(1,4,5) show ?thesis
    by (auto simp: consumer_loop_def receiver_inv_def received_def spsc_next_def
        split: option.splits)
qed (use assms(1,4) in \<open>auto simp: consumer_loop_def receiver_inv_def received_def spsc_next_def
      pop_step_def split_beta split: option.splits if_splits\<close>)

lemma transfer_next_inv:
  assumes "capacity_ok C" "transfer_next C n mk use w s = Some t" "transfer_inv C n mk good s"
    and "\<And>i b now. i < n \<Longrightarrow> good i b \<Longrightarrow> good (Suc i) (use i (mk i) now b)"
  shows "transfer_inv C n mk good t"
proof -
  note i = assms(3) [unfolded transfer_inv_def]
  have "spsc_inv C (tsys t)"
    using transfer_next_queue [OF assms(2)] spsc_next_inv [OF assms(1)] i by blast
  moreover have "sender_inv n mk t \<and> receiver_inv n mk good t"
  proof (cases w)
    case (Producer k)
    with assms(2) have "producer_loop C n mk k s = Some t" by (simp add: transfer_next_def)
    with i show ?thesis by (blast intro: producer_loop_inv producer_loop_frame)
  next
    case (Consumer k now)
    with assms(2) have c: "consumer_loop C n use k now s = Some t" by (simp add: transfer_next_def)
    with i consumer_loop_inv [where good = good, OF c _ _ _ assms(4)] show ?thesis
      by (blast intro: consumer_loop_frame)
  qed
  ultimately show ?thesis by (simp add: transfer_inv_def)
qed

lemma transfer_inv_init: "good 0 b0 \<Longrightarrow> transfer_inv C n mk good (transfer_init g b0)"
  unfolding transfer_inv_def
  by (simp add: transfer_init_def spsc_inv_init)
     (simp add: sender_inv_def sent_def receiver_inv_def received_def spsc_init_def)

sublocale transfer_client \<subseteq> moves: machine "transfer_next C n mk use" "transfer_init g b0"
    "transfer_inv C n mk good" for g
  by unfold_locales (blast intro: transfer_inv_init good_init transfer_next_inv capacity good_use)+

section \<open>The two loops always get done\<close>

lemma push_steps_lift:
  "run (spsc_next C) (map Step_Push ks) (tsys s) = Some q \<Longrightarrow>
     run (transfer_next C n mk use) (map Producer ks) s = Some (s\<lparr>tsys := q\<rparr>)"
proof (induction ks arbitrary: s)
  case (Cons k ks)
  then obtain q' where q: "spsc_next C (Step_Push k) (tsys s) = Some q'"
    "run (spsc_next C) (map Step_Push ks) q' = Some q"
    by (auto split: option.splits)
  then have "transfer_next C n mk use (Producer k) s = Some (s\<lparr>tsys := q'\<rparr>)"
    by (auto simp: transfer_next_def producer_loop_def spsc_next_def push_step_def
        split: producer_pc.splits)
  with Cons.IH [of "s\<lparr>tsys := q'\<rparr>"] q(2) show ?case by simp
qed simp

lemma pop_steps_lift:
  "run (spsc_next C) (map Step_Pop ks) (tsys s) = Some q \<Longrightarrow>
     run (transfer_next C n mk use) (map (\<lambda>k. Consumer k now) ks) s = Some (s\<lparr>tsys := q\<rparr>)"
proof (induction ks arbitrary: s)
  case (Cons k ks)
  then obtain q' where q: "spsc_next C (Step_Pop k) (tsys s) = Some q'"
    "run (spsc_next C) (map Step_Pop ks) q' = Some q"
    by (auto split: option.splits)
  then have "transfer_next C n mk use (Consumer k now) s = Some (s\<lparr>tsys := q'\<rparr>)"
    by (auto simp: transfer_next_def consumer_loop_def spsc_next_def pop_step_def
        split: consumer_pc.splits)
  with Cons.IH [of "s\<lparr>tsys := q'\<rparr>"] q(2) show ?case by simp
qed simp

text \<open>With both threads between two calls, a pop succeeds if there is an item, a push if there is none.\<close>

lemma pop_alone_succeeds:
  assumes "spsc_inv C q" and "length (popped q) < length (pushed q)"
  shows "fst (try_pop C y (flat C q))"
proof -
  have i: "index_inv q" using assms(1) by (auto simp: spsc_inv_def)
  have "length (pushed q) - length (popped q) < 2 ^ 64"
    using spsc_inv_facts(3) [OF assms(1)] unat_u64_less [of C] by linarith
  then have "head (flat C q) \<noteq> tail (flat C q)"
    using assms(2) flat_indices [OF i, of C] by (simp add: of_nat_u64_eq_shift)
  then show ?thesis by (auto simp: try_pop_def pop_item_def Let_def)
qed

lemma push_alone_succeeds:
  assumes "spsc_inv C q" and "length (pushed q) = length (popped q)" and "C \<noteq> 0"
  shows "fst (try_push C x (flat C q))"
proof -
  have "index_inv q" using assms(1) by (auto simp: spsc_inv_def)
  then have "tail (flat C q) - head (flat C q) \<noteq> C"
    using assms(2,3) flat_indices [of q C] by simp
  then show ?thesis by (auto simp: try_push_def push_item_def Let_def)
qed

context transfer_client
begin

abbreviation "loop_next \<equiv> transfer_next C n mk use"
abbreviation "loop_inv \<equiv> transfer_inv C n mk good"

lemma inv_step: "loop_inv s \<Longrightarrow> loop_next w s = Some t \<Longrightarrow> loop_inv t"
  by (blast intro: transfer_next_inv capacity good_use)

lemma inv_reach_from: "reach loop_next s t \<Longrightarrow> loop_inv s \<Longrightarrow> loop_inv t"
  by (induction rule: reach.induct) (auto intro: inv_step)

lemma loop_inv_reach: "reach loop_next (transfer_init g b0) s \<Longrightarrow> loop_inv s"
  by (rule moves.inv_reach)

text \<open>A call in progress can be finished, by its own thread alone.\<close>

lemma finish_push:
  "loop_inv s \<Longrightarrow> \<exists>t. reach loop_next s t \<and> ppc (tsys t) = P_Idle \<and> cpc (tsys t) = cpc (tsys s) \<and>
     p_expected s \<le> p_expected t \<and> c_expected t = c_expected s"
proof (induction "push_rank (ppc (tsys s))" arbitrary: s rule: less_induct)
  case less
  have ok: "mem_ok (qmem (tsys s))"
    using less.prems by (auto simp: transfer_inv_def spsc_inv_def index_inv_def)
  consider "ppc (tsys s) = P_Idle" | b where "ppc (tsys s) = P_Done b" | "0 < push_rank (ppc (tsys s))"
    by (cases "ppc (tsys s)") auto
  then show ?case
  proof cases
    case 1
    then show ?thesis by (intro exI [of _ s]) (simp add: reach_start)
  next
    case 2
    then have "loop_next (Producer 0) s = Some (s\<lparr>tsys := (tsys s)\<lparr>ppc := P_Idle\<rparr>,
        p_expected := if b then Suc (p_expected s) else p_expected s\<rparr>)" (is "_ = Some ?t")
      by (simp add: transfer_next_def producer_loop_def spsc_next_def)
    from reach_step [where nxt = loop_next, OF reach_start this] show ?thesis
      by (intro exI [of _ ?t]) simp
  next
    case 3
    obtain k q where q: "push_step C k (tsys s) = Some q"
      using push_step_enabled [OF ok 3] by blast
    let ?s = "s\<lparr>tsys := q\<rparr>"
    have step: "loop_next (Producer k) s = Some ?s"
      using push_steps_lift [of C "[k]" s q n mk use] q by (simp add: spsc_next_def del: run.simps)
    have "cpc q = cpc (tsys s)"
      using q by (auto simp: push_step_def split: producer_pc.splits option.splits)
    moreover obtain t where "reach loop_next ?s t" "ppc (tsys t) = P_Idle" "cpc (tsys t) = cpc q"
      "p_expected s \<le> p_expected t" "c_expected t = c_expected s"
      using less.hyps [of ?s] push_step_rank [OF q] inv_step [OF less.prems step] by auto
    ultimately show ?thesis
      using reach_trans [OF reach_step [where nxt = loop_next, OF reach_start step]] by metis
  qed
qed

lemma finish_pop:
  "loop_inv s \<Longrightarrow> \<exists>t. reach loop_next s t \<and> cpc (tsys t) = C_Idle \<and> ppc (tsys t) = ppc (tsys s) \<and>
     c_expected s \<le> c_expected t \<and> p_expected t = p_expected s"
proof (induction "pop_rank (cpc (tsys s))" arbitrary: s rule: less_induct)
  case less
  have ok: "mem_ok (qmem (tsys s))"
    using less.prems by (auto simp: transfer_inv_def spsc_inv_def index_inv_def)
  consider "cpc (tsys s) = C_Idle" | r where "cpc (tsys s) = C_Done r" | "0 < pop_rank (cpc (tsys s))"
    by (cases "cpc (tsys s)") auto
  then show ?case
  proof cases
    case 1
    then show ?thesis by (intro exI [of _ s]) (simp add: reach_start)
  next
    case 2
    then obtain t where t: "loop_next (Consumer 0 0) s = Some t" "cpc (tsys t) = C_Idle"
      "ppc (tsys t) = ppc (tsys s)" "c_expected s \<le> c_expected t" "p_expected t = p_expected s"
      by (cases r) (simp_all add: transfer_next_def consumer_loop_def spsc_next_def)
    with reach_step [where nxt = loop_next, OF reach_start t(1)] show ?thesis by blast
  next
    case 3
    obtain k q where q: "pop_step C k (tsys s) = Some q"
      using pop_step_enabled [OF ok 3] by blast
    let ?s = "s\<lparr>tsys := q\<rparr>"
    have step: "loop_next (Consumer k 0) s = Some ?s"
      using pop_steps_lift [of C "[k]" s q n mk use] q by (simp add: spsc_next_def del: run.simps)
    have "ppc q = ppc (tsys s)"
      using q by (auto simp: pop_step_def split_beta split: consumer_pc.splits option.splits)
    moreover obtain t where "reach loop_next ?s t" "cpc (tsys t) = C_Idle" "ppc (tsys t) = ppc q"
      "c_expected s \<le> c_expected t" "p_expected t = p_expected s"
      using less.hyps [of ?s] pop_step_rank [OF q] inv_step [OF less.prems step] by auto
    ultimately show ?thesis
      using reach_trans [OF reach_step [where nxt = loop_next, OF reach_start step]] by metis
  qed
qed

text \<open>With both threads between calls and work left, one of the two counters can advance.\<close>

lemma transfer_progress:
  assumes i: "loop_inv s" and idle: "ppc (tsys s) = P_Idle" "cpc (tsys s) = C_Idle"
    and left: "\<not> transfer_done n s" and "C \<noteq> 0"
  shows "\<exists>t. reach loop_next s t \<and> p_expected s + c_expected s < p_expected t + c_expected t"
proof -
  have q: "spsc_inv C (tsys s)" "length (pushed (tsys s)) = p_expected s"
    "length (popped (tsys s)) = c_expected s" "p_expected s \<le> n"
    using i idle by (simp_all add: transfer_inv_def sender_inv_def sent_def receiver_inv_def received_def)
  show ?thesis
  proof (cases "c_expected s < p_expected s")
    case True
    let ?s = "s\<lparr>tsys := (tsys s)\<lparr>cpc := C_Load_Head\<rparr>\<rparr>"
    have call: "loop_next (Consumer 0 0) s = Some ?s"
      using True q(4) idle by (simp add: transfer_next_def consumer_loop_def spsc_next_def)
    obtain ks t r where t: "run (spsc_next C) (map Step_Pop ks) (tsys ?s) = Some t" "cpc t = C_Done r"
      "case r of Some v \<Rightarrow> True | None \<Rightarrow> \<not> fst (try_pop C undefined (flat C (tsys s)))"
      using pop_alone [OF capacity q(1) idle(2), of undefined] idle
      by (fastforce simp: spsc_next_def split: option.splits)
    obtain v where v: "r = Some v"
      using t(3) pop_alone_succeeds [OF q(1)] True q(2,3) by (auto split: option.splits)
    have "reach loop_next s (?s\<lparr>tsys := t\<rparr>)"
      using reach_run [OF reach_step [where nxt = loop_next, OF reach_start call] pop_steps_lift [OF t(1)]] .
    moreover have "loop_next (Consumer 0 0) (?s\<lparr>tsys := t\<rparr>) = Some (s\<lparr>tsys := t\<lparr>cpc := C_Idle\<rparr>,
        c_expected := Suc (c_expected s), c_data := use (c_expected s) v 0 (c_data s)\<rparr>)" (is "_ = Some ?t")
      using t(2) v by (simp add: transfer_next_def consumer_loop_def spsc_next_def)
    ultimately have "reach loop_next s ?t" by (rule reach_step)
    then show ?thesis by (intro exI [of _ ?t]) simp
  next
    case False
    then have eq: "p_expected s = c_expected s" "p_expected s < n"
      using q spsc_inv_facts(2) [OF q(1)] left idle by (auto simp: transfer_done_def)
    let ?s = "s\<lparr>tsys := (tsys s)\<lparr>ppc := P_Load_Tail (mk (p_expected s))\<rparr>\<rparr>"
    have call: "loop_next (Producer 0) s = Some ?s"
      using eq idle by (simp add: transfer_next_def producer_loop_def spsc_next_def)
    obtain ks t where t: "run (spsc_next C) (map Step_Push ks) (tsys ?s) = Some t" "ppc t = P_Done True"
      using push_alone [OF capacity q(1) idle(1), of "mk (p_expected s)"] idle
        push_alone_succeeds [OF q(1) _ \<open>C \<noteq> 0\<close>, of "mk (p_expected s)"] eq q(2,3)
      by (fastforce simp: spsc_next_def)
    have "reach loop_next s (?s\<lparr>tsys := t\<rparr>)"
      using reach_run [OF reach_step [where nxt = loop_next, OF reach_start call] push_steps_lift [OF t(1)]] .
    moreover have "loop_next (Producer 0) (?s\<lparr>tsys := t\<rparr>) =
        Some (s\<lparr>tsys := t\<lparr>ppc := P_Idle\<rparr>, p_expected := Suc (p_expected s)\<rparr>)" (is "_ = Some ?t")
      using t(2) by (simp add: transfer_next_def producer_loop_def spsc_next_def)
    ultimately have "reach loop_next s ?t" by (rule reach_step)
    then show ?thesis by (intro exI [of _ ?t]) simp
  qed
qed

lemma transfer_completes:
  assumes "C \<noteq> 0"
  shows "loop_inv s \<Longrightarrow> \<exists>t. reach loop_next s t \<and> transfer_done n t"
proof (induction "2 * n - (p_expected s + c_expected s)" arbitrary: s rule: less_induct)
  case less
  obtain u where u: "reach loop_next s u" "ppc (tsys u) = P_Idle" "p_expected s \<le> p_expected u"
      "c_expected u = c_expected s"
    using finish_push [OF less.prems] by blast
  obtain v where v: "reach loop_next u v" "ppc (tsys v) = P_Idle" "cpc (tsys v) = C_Idle"
      "p_expected v = p_expected u" "c_expected u \<le> c_expected v"
    using finish_pop [OF inv_reach_from [OF u(1) less.prems]] u(2) by metis
  have sv: "reach loop_next s v" using u(1) v(1) by (rule reach_trans)
  have iv: "loop_inv v" using inv_reach_from [OF sv less.prems] .
  show ?case
  proof (cases "transfer_done n v")
    case False
    obtain w where w: "reach loop_next v w" "p_expected v + c_expected v < p_expected w + c_expected w"
      using transfer_progress [OF iv v(2,3) False assms] by blast
    have iw: "loop_inv w" using inv_reach_from [OF w(1) iv] .
    then have "p_expected w + c_expected w \<le> 2 * n"
      by (auto simp: transfer_inv_def sender_inv_def receiver_inv_def)
    then have "2 * n - (p_expected w + c_expected w) < 2 * n - (p_expected s + c_expected s)"
      using w(2) u(3,4) v(4,5) by linarith
    from less.hyps [OF this iw] show ?thesis
      using reach_trans [OF sv reach_trans [OF w(1)]] by blast
  qed (use sv in blast)
qed

end

section \<open>The correctness test and the benchmark loops\<close>

lemma test_client: "capacity_ok C \<Longrightarrow> transfer_client C n test_item test_use False (\<lambda>i failed. \<not> failed)"
  by unfold_locales (simp_all add: test_use_def)

lemma bench_client:
  "capacity_ok C \<Longrightarrow> transfer_client C n bench_item bench_use (Some (replicate n 0))
     (\<lambda>i ts. \<exists>xs. ts = Some xs \<and> length xs = n)"
  by unfold_locales (auto simp: bench_use_def)

lemma source_capacities: "capacity_ok TEST_CONCURRENCY_QUEUE_SIZE" "capacity_ok BENCH_QUEUE_SIZE"
  by code_simp+

interpretation test_concurrency: transfer_client TEST_CONCURRENCY_QUEUE_SIZE TEST_CONCURRENCY_N
    test_item test_use False "\<lambda>i failed. \<not> failed"
  by (rule test_client) (rule source_capacities)

interpretation bench_threads: transfer_client BENCH_QUEUE_SIZE BENCH_N
    bench_item bench_use "Some (replicate BENCH_N 0)" "\<lambda>i ts. \<exists>xs. ts = Some xs \<and> length xs = BENCH_N"
  by (rule bench_client) (rule source_capacities)

lemma transfer_done_items:
  assumes "transfer_inv C n mk good s" and "transfer_done n s"
  shows "popped (tsys s) = map mk [0 ..< n]"
proof -
  have "pushed (tsys s) = map mk [0 ..< n]" "length (popped (tsys s)) = n"
    using assms by (simp_all add: transfer_inv_def transfer_done_def sender_inv_def sent_def
        receiver_inv_def received_def)
  moreover have "popped (tsys s) = take (length (popped (tsys s))) (pushed (tsys s))"
    using assms(1) spsc_inv_facts(1) unfolding transfer_inv_def by blast
  ultimately show ?thesis by simp
qed

text \<open>Items on their way while the consumer is inside a call, for the witnesses.\<close>

definition transfer_schedule :: "worker list" where
  "transfer_schedule =
     [Producer 0, Producer 0, Consumer 0 7, Producer 0, Producer 0, Consumer 0 7, Producer 0,
      Consumer 1 7, Consumer 0 7, Producer 0, Consumer 0 7, Producer 1, Consumer 0 7, Producer 0,
      Producer 0, Producer 0]"

text \<open>
  Property C4. The concurrency test cannot fail: in no interleaving, with no choice of stale
  values and for any number of items (also beyond the range of \<open>int\<close>, where the conversion
  wraps on both sides alike), does the consumer's assertion fail or an access race; and when
  both threads have ended the consumer has taken exactly the items 0 to n - 1, in order.  The
  loops are also those of the first test case of \<open>bench/spsc_head_to_head.cpp\<close> on this queue.
\<close>

theorem concurrency_test_passes:
  assumes "capacity_ok C" and "reach (test_next C n) (transfer_init g False) s"
  shows "\<not> c_data s \<and> \<not> race (qmem (tsys s)) \<and>
         (transfer_done n s \<longrightarrow> popped (tsys s) = map test_item [0 ..< n])"
proof -
  have concl: ?thesis if i: "transfer_inv C n test_item (\<lambda>i failed. \<not> failed) s"
    using i transfer_done_items [OF i] spsc_inv_facts(4) [of C "tsys s"]
    by (auto simp: transfer_inv_def receiver_inv_def)
  show ?thesis
    by (rule concl) (rule transfer_client.loop_inv_reach [OF test_client [OF assms(1)] assms(2)])
qed

theorem concurrency_test_passes_witness:
  "\<exists>s. reach (test_next 2 5) (transfer_init (\<lambda>_. 0) False) s \<and> c_expected s = 1 \<and> \<not> c_data s \<and>
       \<not> race (qmem (tsys s))"
proof -
  have "run_to (test_next 2 5) transfer_schedule (transfer_init (\<lambda>_. 0) False) (\<lambda>s. c_expected s = 1)"
    by code_simp
  then obtain s where s: "reach (test_next 2 5) (transfer_init (\<lambda>_. 0) False) s" "c_expected s = 1"
    by (blast dest: run_toD)
  have "capacity_ok 2" by code_simp
  with s concurrency_test_passes [OF _ s(1)] show ?thesis by blast
qed

text \<open>
  The two loops never block each other: from every state the two threads can
  get into, with a queue of at least one slot, there is a continuation in which both loops end;
  so no interleaving leads into a deadlock or a livelock that fair scheduling cannot leave.
\<close>

theorem concurrency_test_completes:
  assumes "capacity_ok C" and "C \<noteq> 0" and "reach (test_next C n) (transfer_init g False) s"
  shows "\<exists>t. reach (test_next C n) s t \<and> transfer_done n t"
  using transfer_client.transfer_completes [OF test_client [OF assms(1)] assms(2)]
    transfer_client.loop_inv_reach [OF test_client [OF assms(1)] assms(3)]
  by blast

theorem concurrency_test_completes_witness:
  "\<exists>s t. reach (test_next 2 5) (transfer_init (\<lambda>_. 0) False) s \<and> c_expected s = 1 \<and>
         reach (test_next 2 5) s t \<and> transfer_done 5 t"
proof -
  have "run_to (test_next 2 5) transfer_schedule (transfer_init (\<lambda>_. 0) False) (\<lambda>s. c_expected s = 1)"
    by code_simp
  then obtain s where s: "reach (test_next 2 5) (transfer_init (\<lambda>_. 0) False) s" "c_expected s = 1"
    by (blast dest: run_toD)
  have c: "capacity_ok 2" by code_simp
  obtain t where "reach (test_next 2 5) s t \<and> transfer_done 5 t"
    using concurrency_test_completes [OF c _ s(1)] by auto
  with s show ?thesis by blast
qed

section \<open>run_benchmark\<close>

text \<open>
  One run contributes its elapsed time and the time stamps the consumer wrote; the throughput
  computed from the elapsed time in double precision is a parameter.  The best run so far is
  kept with the distances of its stamps.
\<close>

definition keep_best :: "(int \<Rightarrow> int) \<Rightarrow> int \<times> int list \<Rightarrow> int \<times> int list \<Rightarrow> int \<times> int list" where
  "keep_best throughput best this =
     (let t = throughput (fst this)
      in if t > fst best then (t, deltas (snd this)) else best)"

definition BENCH_RUNS :: nat where "BENCH_RUNS = 10"

definition best_of_runs :: "(int \<Rightarrow> int) \<Rightarrow> (int \<times> int list) list \<Rightarrow> int \<times> int list" where
  "best_of_runs throughput runs = foldl (keep_best throughput) (0, []) runs"

text \<open>The four numbers printed: the throughput and three percentiles, \<open>None\<close> for an element
  that is not there.\<close>

definition run_benchmark :: "(int \<Rightarrow> int) \<Rightarrow> (rat \<Rightarrow> nat \<Rightarrow> nat) \<Rightarrow> bool \<Rightarrow> (int \<times> int list) list
    \<Rightarrow> int option list" where
  "run_benchmark throughput mul print runs =
     (if print then
        let (best, ds0) = best_of_runs throughput runs;
            (p50, ds1) = percentile mul ds0 (50 / 100);
            (p99, ds2) = percentile mul ds1 (99 / 100);
            (p999, ds3) = percentile mul ds2 (999 / 1000)
        in [Some best, p50, p99, p999]
      else [])"

lemma best_of_runs_fold:
  "foldl (keep_best throughput) (b, ds) runs = (b', ds') \<Longrightarrow>
     b \<le> b' \<and> (\<forall>r \<in> set runs. throughput (fst r) \<le> b') \<and>
     (b' = b \<and> ds' = ds \<or> (\<exists>r \<in> set runs. b < throughput (fst r) \<and> b' = throughput (fst r) \<and> ds' = deltas (snd r)))"
proof (induction runs arbitrary: b ds)
  case (Cons r runs)
  obtain b1 ds1 where b1: "keep_best throughput (b, ds) r = (b1, ds1)"
    by (cases "keep_best throughput (b, ds) r")
  from Cons.IH [of b1 ds1] Cons.prems b1 have ih:
    "b1 \<le> b' \<and> (\<forall>r \<in> set runs. throughput (fst r) \<le> b') \<and>
     (b' = b1 \<and> ds' = ds1 \<or> (\<exists>r \<in> set runs. b1 < throughput (fst r) \<and> b' = throughput (fst r) \<and> ds' = deltas (snd r)))"
    by simp
  show ?case
  proof (cases "throughput (fst r) > b")
    case True
    then have "b1 = throughput (fst r)" "ds1 = deltas (snd r)"
      using b1 by (simp_all add: keep_best_def Let_def)
    note b1 = this
    from ih have "\<exists>r' \<in> set (r # runs). b < throughput (fst r') \<and> b' = throughput (fst r') \<and>
        ds' = deltas (snd r')"
    proof (elim conjE disjE)
      assume "b' = b1" "ds' = ds1"
      then show ?thesis using b1 True by simp
    next
      assume "\<exists>r \<in> set runs. b1 < throughput (fst r) \<and> b' = throughput (fst r) \<and> ds' = deltas (snd r)"
      then obtain r' where r': "r' \<in> set runs" "b1 < throughput (fst r')" "b' = throughput (fst r')"
        "ds' = deltas (snd r')" by blast
      then show ?thesis using b1 True by (intro bexI [of _ r']) auto
    qed
    then show ?thesis using ih b1 True by auto
  next
    case False
    then have "b1 = b" "ds1 = ds" using b1 by (simp_all add: keep_best_def Let_def)
    with ih False show ?thesis by auto
  qed
qed simp

text \<open>
  Property C25. The reported throughput is the best of all runs and the latencies come from a
  run that reached it: there is one latency less than there are items, and together they span
  the time from that run's first item to its last.  The three percentiles exist, and are
  ranked as they should be, provided some run has a positive throughput (else no latency was
  kept and the program reads from an empty vector).
\<close>

theorem run_benchmark_reports_best:
  assumes "r0 \<in> set runs" "0 < throughput (fst r0)" "\<forall>r \<in> set runs. length (snd r) = n" "2 \<le> n"
    and "\<forall>p \<in> {50 / 100, 99 / 100, 999 / 1000}. mul p (n - 1) < n - 1"
  shows "\<exists>r \<in> set runs. (\<forall>r' \<in> set runs. throughput (fst r') \<le> throughput (fst r)) \<and>
     best_of_runs throughput runs = (throughput (fst r), deltas (snd r)) \<and>
     length (deltas (snd r)) = n - 1 \<and> sum_list (deltas (snd r)) = last (snd r) - hd (snd r) \<and>
     (\<exists>p50 p99 p999. run_benchmark throughput mul True runs =
          [Some (throughput (fst r)), Some p50, Some p99, Some p999] \<and>
        has_rank (deltas (snd r)) (mul (50 / 100) (n - 1)) p50 \<and>
        has_rank (deltas (snd r)) (mul (99 / 100) (n - 1)) p99 \<and>
        has_rank (deltas (snd r)) (mul (999 / 1000) (n - 1)) p999)"
proof -
  obtain b ds where b: "best_of_runs throughput runs = (b, ds)" by (cases "best_of_runs throughput runs")
  from best_of_runs_fold [OF b [unfolded best_of_runs_def]] assms(1,2)
  obtain r where r: "r \<in> set runs" "b = throughput (fst r)" "ds = deltas (snd r)"
    "\<forall>r' \<in> set runs. throughput (fst r') \<le> b"
    by (metis not_less)
  have len: "length (snd r) = n" using assms(3) r(1) by blast
  then obtain t ts where ts: "snd r = t # ts" using assms(4) by (cases "snd r") auto
  have pct: "\<exists>v. percentile mul xs p = (Some v, sort xs) \<and> has_rank xs (mul p (n - 1)) v"
    if "length xs = n - 1" "p \<in> {50 / 100, 99 / 100, 999 / 1000}" for xs p
  proof -
    have "mul p (length xs) < length xs" using bspec [OF assms(5) that(2)] that(1) by (simp only:)
    moreover have "xs \<noteq> []" "p < 1" using that assms(4) by auto
    ultimately show ?thesis using percentile_at [of xs p mul] that(1) by metis
  qed
  obtain p50 where p50: "percentile mul ds (50 / 100) = (Some p50, sort ds)" "has_rank ds (mul (50 / 100) (n - 1)) p50"
    using pct [of ds "50 / 100"] r(3) len by auto
  obtain p99 where p99: "percentile mul (sort ds) (99 / 100) = (Some p99, sort (sort ds))"
      "has_rank ds (mul (99 / 100) (n - 1)) p99"
    using pct [of "sort ds" "99 / 100"] r(3) len by (auto simp: has_rank_sort)
  obtain p999 where p999: "percentile mul (sort (sort ds)) (999 / 1000) = (Some p999, sort (sort (sort ds)))"
      "has_rank ds (mul (999 / 1000) (n - 1)) p999"
    using pct [of "sort (sort ds)" "999 / 1000"] r(3) len by (auto simp: has_rank_sort)
  have "run_benchmark throughput mul True runs = [Some b, Some p50, Some p99, Some p999]"
    using b p50(1) p99(1) p999(1) by (simp add: run_benchmark_def)
  moreover have "sum_list (deltas (snd r)) = last (snd r) - hd (snd r)"
    using sum_deltas [of t ts] by (simp add: ts)
  ultimately show ?thesis
    using r b len p50(2) p99(2) p999(2) by (intro bexI [of _ r]) auto
qed

theorem run_benchmark_reports_best_witness:
  "\<exists>r \<in> set [(10, [1, 2, 5]), (5, [1, 4, 6])]. best_of_runs (\<lambda>e. 1000 div e) [(10, [1, 2, 5]), (5, [1, 4, 6])] =
     (1000 div fst r, deltas (snd r)) \<and> (\<forall>r' \<in> set [(10, [1, 2, 5]), (5, [1, 4, 6])]. 1000 div fst r' \<le> 1000 div fst r)"
  using run_benchmark_reports_best [of "(5, [1, 4, 6])" "[(10, [1, 2, 5]), (5, [1, 4, 6])]" "\<lambda>e. 1000 div e" 3
      "\<lambda>p n. 1"] by auto

section \<open>size_test and main\<close>

text \<open>
  \<open>randomized_array\<close>, which nothing calls: \<open>draw\<close> (\<open>dist(rng)\<close>) draws an \<open>int\<close> from the generator, and \<open>mk\<close>
  makes an item of it.
\<close>

primrec randomized_array :: "('r \<Rightarrow> int \<times> 'r) \<Rightarrow> (int \<Rightarrow> 'T) \<Rightarrow> nat \<Rightarrow> 'r \<Rightarrow> 'T list" where
  "randomized_array draw mk 0 rng = []"
| "randomized_array draw mk (Suc n) rng =
     (let (x, rng) = draw rng in mk x # randomized_array draw mk n rng)"

lemma length_randomized_array [simp]: "length (randomized_array draw mk n rng) = n"
  by (induction n arbitrary: rng) (simp_all add: split_beta)

text \<open>
  The lines \<open>size_test\<close> prints, as values: whether the new queue is empty, and after the
  first refused push the size.
\<close>

datatype size_test_line = Is_Empty bool | Actual_Size u64 | Refused_When_Full

fun size_test_loop :: "nat \<Rightarrow> nat \<Rightarrow> i32 spsc_queue \<Rightarrow> bool \<times> size_test_line list" where
  "size_test_loop 0 idx q = (False, [])"
| "size_test_loop (Suc left) idx q =
     (let (res, q) = try_push 16 (of_nat idx) q
      in if \<not> res then (True, [Actual_Size (spsc_size q), Refused_When_Full])
         else size_test_loop left (Suc idx) q)"

definition size_test :: "(nat \<Rightarrow> i32) \<Rightarrow> bool \<times> size_test_line list" where
  "size_test garbage =
     (let q = spsc_new (map garbage [0 ..< 16]);
          (res, lines) = size_test_loop 17 0 q
      in (res, Is_Empty (spsc_empty q) # lines))"

text \<open>
  The size test passes, whatever the array of the queue held before: the new
  queue is empty, sixteen pushes are accepted, the seventeenth is refused, and the size printed
  then is 16.
\<close>

theorem size_test_passes:
  "size_test garbage = (True, [Is_Empty True, Actual_Size 16, Refused_When_Full])"
  by code_simp

text \<open>
  The benchmark threads stay inside the vector of time stamps and race on no
  item: every index the consumer writes is below its length, which never changes, and at the
  end all n items, equal to those pushed, have arrived.
\<close>

theorem benchmark_threads_safe:
  assumes "capacity_ok C" and "reach (bench_next C n) (transfer_init g (Some (replicate n 0))) s"
  shows "(\<exists>ts. c_data s = Some ts \<and> length ts = n) \<and> \<not> race (qmem (tsys s)) \<and>
         (transfer_done n s \<longrightarrow> popped (tsys s) = map bench_item [0 ..< n])"
proof -
  have i: "transfer_inv C n bench_item (\<lambda>i ts. \<exists>xs. ts = Some xs \<and> length xs = n) s"
    by (rule transfer_client.loop_inv_reach [OF bench_client [OF assms(1)] assms(2)])
  then show ?thesis
    using transfer_done_items [OF i] spsc_inv_facts(4) [of C "tsys s"]
    by (auto simp: transfer_inv_def receiver_inv_def)
qed

theorem benchmark_threads_safe_witness:
  "\<exists>s ts. reach (bench_next 2 5) (transfer_init bench_item (Some (replicate 5 0))) s \<and>
     c_data s = Some ts \<and> length ts = 5 \<and> ts ! 0 = 7 \<and> \<not> race (qmem (tsys s))"
proof -
  have "run_to (bench_next 2 5) transfer_schedule (transfer_init bench_item (Some (replicate 5 0)))
          (\<lambda>s. c_data s = Some [7, 0, 0, 0, 0])"
    by code_simp
  then obtain s where s: "reach (bench_next 2 5) (transfer_init bench_item (Some (replicate 5 0))) s"
      "c_data s = Some [7, 0, 0, 0, 0]"
    by (blast dest: run_toD)
  have "capacity_ok 2" by code_simp
  from benchmark_threads_safe [OF this s(1)] s show ?thesis
    by (intro exI [of _ s] exI [of _ "[7, 0, 0, 0, 0]"]) simp
qed

text \<open>\<open>main\<close>: which parts run, in order.\<close>

datatype spsc_bench_part =
  Check_Governor | Run_Size_Test | Run_Test_Concurrency | Benchmark_Item bool | Benchmark_Padded_Item bool

definition spsc_bench_main :: "string list \<Rightarrow> stoi_error + spsc_bench_part list" where
  "spsc_bench_main argv =
     map_sum id (\<lambda>args.
         (if printed args then [Check_Governor] else []) @
         (if mode args = 0 \<and> printed args then [Run_Size_Test, Run_Test_Concurrency] else []) @
         (if mode args = 0 \<or> mode args = 1 then [Benchmark_Item (printed args)] else []) @
         (if mode args = 0 \<or> mode args = 2 then [Benchmark_Padded_Item (printed args)] else []))
       (parse_bench_args argv)"

end
