(* ===== verification/Spsc_Progress.thy ===== *)
theory Spsc_Progress
  imports Spsc_Guarantees
begin

text \<open>
  How a call on \<open>spsc/SpscQueue.h\<close> comes to take effect: what one access of \<open>try_push\<close> or
  \<open>try_pop\<close> can do, and that a call all of whose loads return the newest message is brought
  closer to its effect by every access, as soon as the queue has room (an item).  Both kinds of
  client of the concurrent queue, the loops of \<open>spsc_bench\<close> and of \<open>spsc_head_to_head\<close>, use it.
\<close>

section \<open>Where a call stands\<close>

text \<open>The argument of the push in progress, whether it has published, and what the pop in
  progress has taken.\<close>

fun push_argument :: "'T producer_pc \<Rightarrow> 'T option" where
  "push_argument (P_Load_Tail x) = Some x"
| "push_argument (P_Load_Head x t) = Some x"
| "push_argument (P_Write x t) = Some x"
| "push_argument (P_Store_Tail x t) = Some x"
| "push_argument _ = None"

fun pop_result :: "'T consumer_pc \<Rightarrow> 'T option" where
  "pop_result (C_Done r) = r"
| "pop_result _ = None"

text \<open>Steps until the call takes effect when the queue has room (an item): an answer \<open>false\<close> is
  returned first, and the call made again.\<close>

fun push_away :: "'T producer_pc \<Rightarrow> nat" where
  "push_away (P_Done b) = 6"
| "push_away P_Idle = 5"
| "push_away p = push_rank p"

fun pop_away :: "'T consumer_pc \<Rightarrow> nat" where
  "pop_away (C_Done r) = 6"
| "pop_away C_Idle = 5"
| "pop_away p = pop_rank p"

text \<open>The load an access makes, and the number of messages of an index.\<close>

definition push_reads :: "nat \<Rightarrow> 'T spsc_sys \<Rightarrow> (index \<times> nat) option" where
  "push_reads k q =
     (case ppc q of P_Load_Tail x \<Rightarrow> Some (Tail, k) | P_Load_Head x t \<Rightarrow> Some (Head, k) | _ \<Rightarrow> None)"

definition pop_reads :: "nat \<Rightarrow> 'T spsc_sys \<Rightarrow> (index \<times> nat) option" where
  "pop_reads k q =
     (case cpc q of C_Load_Head \<Rightarrow> Some (Head, k) | C_Load_Tail h \<Rightarrow> Some (Tail, k) | _ \<Rightarrow> None)"

definition index_messages :: "'T spsc_sys \<Rightarrow> index \<Rightarrow> nat" where
  "index_messages q l = length (hist (qmem q) l)"

lemma index_messages:
  assumes "spsc_inv C q"
  shows "index_messages q l = (case l of Head \<Rightarrow> Suc (length (popped q)) | Tail \<Rightarrow> Suc (length (pushed q)))"
proof -
  have "index_inv q" using assms by (auto simp: spsc_inv_def)
  then have "map mval (hist (qmem q) Head) = map of_nat [0 ..< Suc (length (popped q))]"
    "map mval (hist (qmem q) Tail) = map of_nat [0 ..< Suc (length (pushed q))]"
    by (simp_all add: index_inv_def)
  from this [THEN map_eq_imp_length_eq] show ?thesis by (cases l) (simp_all add: index_messages_def)
qed

lemma same_messages:
  assumes "spsc_inv C q" "spsc_inv C q'" and "pushed q' = pushed q" "popped q' = popped q"
  shows "index_messages q' = index_messages q"
  by (rule ext) (simp only: index_messages [OF assms(1)] index_messages [OF assms(2)] assms(3,4))

section \<open>One access\<close>

text \<open>A step of one member leaves the other member where it is, and does not end its own.\<close>

lemma push_step_frame:
  "push_step C k q = Some q' \<Longrightarrow> cpc q' = cpc q \<and> popped q' = popped q \<and> ppc q' \<noteq> P_Idle"
  by (auto simp: push_step_def split: if_splits producer_pc.splits option.splits)

lemma pop_step_frame:
  "pop_step C k q = Some q' \<Longrightarrow> ppc q' = ppc q \<and> pushed q' = pushed q \<and> cpc q' \<noteq> C_Idle"
  by (auto simp: pop_step_def split: if_splits consumer_pc.splits option.splits prod.splits)

lemma push_step_effect:
  assumes "push_step C k q = Some q'"
  shows "(\<exists>x t. ppc q = P_Store_Tail x t \<and> ppc q' = P_Done True \<and> pushed q' = pushed q @ [x]) \<or>
         ppc q' \<noteq> P_Done True \<and> push_argument (ppc q') \<in> {None, push_argument (ppc q)} \<and> pushed q' = pushed q"
  using assms by (auto simp: push_step_def split: if_splits producer_pc.splits option.splits)

lemma pop_step_effect:
  assumes "pop_step C k q = Some q'"
  shows "(\<exists>h v. cpc q = C_Store_Head h v \<and> cpc q' = C_Done (Some v) \<and> popped q' = popped q @ [v]) \<or>
         pop_result (cpc q') = None \<and> popped q' = popped q"
  using assms by (auto simp: pop_step_def split: if_splits consumer_pc.splits option.splits prod.splits)

lemma queued_push:
  assumes "spsc_inv C q" and "ppc q = P_Store_Tail x t" and "pushed q' = pushed q @ [x]" and "popped q' = popped q"
  shows "queued q' = queued q @ [x]" and "length (queued q) < unat C"
  using spsc_inv_facts(2,6) [OF assms(1)] spsc_inv_enqueue [OF assms(1,2)] assms(3,4)
  by (simp_all add: queued_def)

lemma queued_pop:
  assumes "spsc_inv C q" and "cpc q = C_Store_Head h v" and "popped q' = popped q @ [v]" and "pushed q' = pushed q"
  shows "queued q = v # queued q'"
  using spsc_inv_dequeue [OF assms(1,2)] assms(3,4)
  by (simp add: queued_def Cons_nth_drop_Suc [symmetric])

section \<open>Accesses that load the newest message\<close>

lemma push_newest_possible:
  assumes inv: "spsc_inv C q" and "0 < push_rank (ppc q)"
  shows "\<exists>k t. push_step C k q = Some t \<and> (\<forall>l m. push_reads k q = Some (l, m) \<longrightarrow> index_messages q l = Suc m)"
proof -
  have ok: "mem_ok (qmem q)" using inv by (auto simp: spsc_inv_def index_inv_def)
  have newest: "\<exists>x m'. a_load mo producer a (index_messages q a - 1) (qmem q) = Some (x, m')" for mo a
    unfolding index_messages_def by (rule newest_readable [OF ok])
  have pos: "0 < index_messages q a" for a using index_messages [OF inv] by (cases a) simp_all
  show ?thesis
  proof (cases "ppc q")
    case (P_Load_Tail x)
    then show ?thesis using newest [of Relaxed Tail] pos [of Tail]
      by (intro exI [of _ "index_messages q Tail - 1"]) (auto simp: push_step_def push_reads_def)
  next
    case (P_Load_Head x t)
    then show ?thesis using newest [of Acquire Head] pos [of Head]
      by (intro exI [of _ "index_messages q Head - 1"]) (auto simp: push_step_def push_reads_def)
  qed (use assms(2) in \<open>simp_all add: push_step_def push_reads_def\<close>)
qed

lemma pop_newest_possible:
  assumes inv: "spsc_inv C q" and "0 < pop_rank (cpc q)"
  shows "\<exists>k t. pop_step C k q = Some t \<and> (\<forall>l m. pop_reads k q = Some (l, m) \<longrightarrow> index_messages q l = Suc m)"
proof -
  have ok: "mem_ok (qmem q)" using inv by (auto simp: spsc_inv_def index_inv_def)
  have newest: "\<exists>x m'. a_load mo consumer a (index_messages q a - 1) (qmem q) = Some (x, m')" for mo a
    unfolding index_messages_def by (rule newest_readable [OF ok])
  have pos: "0 < index_messages q a" for a using index_messages [OF inv] by (cases a) simp_all
  show ?thesis
  proof (cases "cpc q")
    case C_Load_Head
    then show ?thesis using newest [of Relaxed Head] pos [of Head]
      by (intro exI [of _ "index_messages q Head - 1"]) (auto simp: pop_step_def pop_reads_def)
  next
    case (C_Load_Tail h)
    then show ?thesis using newest [of Acquire Tail] pos [of Tail]
      by (intro exI [of _ "index_messages q Tail - 1"]) (auto simp: pop_step_def pop_reads_def)
  qed (use assms(2) in \<open>simp_all add: pop_step_def pop_reads_def split_beta\<close>)
qed

lemma push_step_newest:
  assumes inv: "spsc_inv C q" and room: "length (queued q) < unat C"
    and step: "push_step C k q = Some t"
    and newest: "\<And>l m. push_reads k q = Some (l, m) \<Longrightarrow> index_messages q l = Suc m"
  shows "ppc t = P_Done True \<or> push_away (ppc t) < push_away (ppc q)"
proof -
  have "ppc t \<noteq> P_Done False"
  proof (cases "\<exists>y t0. ppc q = P_Load_Head y t0")
    case True
    then obtain y t0 where load: "ppc q = P_Load_Head y t0" by blast
    then have "k = length (popped q)"
      using newest [of Head k] index_messages [OF inv, of Head] by (simp add: push_reads_def)
    with push_full_test [OF inv load] step room show ?thesis by simp
  next
    case False
    then show ?thesis using step by (auto simp: push_step_def split: if_splits producer_pc.splits option.splits)
  qed
  then show ?thesis
    using push_step_rank [OF step] push_step_frame [OF step] by (cases "ppc q"; cases "ppc t") auto
qed

lemma pop_step_newest:
  assumes inv: "spsc_inv C q" and some: "queued q \<noteq> []"
    and step: "pop_step C k q = Some t"
    and newest: "\<And>l m. pop_reads k q = Some (l, m) \<Longrightarrow> index_messages q l = Suc m"
  shows "pop_result (cpc t) \<noteq> None \<or> pop_away (cpc t) < pop_away (cpc q)"
proof -
  have "cpc t \<noteq> C_Done None"
  proof (cases "\<exists>h. cpc q = C_Load_Tail h")
    case True
    then obtain h where load: "cpc q = C_Load_Tail h" by blast
    then have "k = length (pushed q)"
      using newest [of Tail k] index_messages [OF inv, of Tail] by (simp add: pop_reads_def)
    with pop_empty_test [OF inv load] step some show ?thesis by simp
  next
    case False
    then show ?thesis using step by (auto simp: pop_step_def split: if_splits consumer_pc.splits option.splits prod.splits)
  qed
  then show ?thesis
    using pop_step_rank [OF step] pop_step_frame [OF step] by (cases "cpc q"; cases "cpc t") auto
qed

end
