(* ===== verification/Fair_Runs.thy ===== *)
theory Fair_Runs
  imports Pipeline_Prelude
begin

text \<open>
  Infinite schedules: what a program whose threads wait for each other does if the scheduler is
  fair and stores become visible.  A schedule is a sequence of choices; a choice that cannot be
  made in the state it meets leaves the state as it is.

  \<open>weakly_fair\<close>: a thread that can move from some point on moves infinitely often.  \<open>visible\<close>:
  every load returns a message that exists, and for every message stored there is a point from
  which no load returns an older one, which the C++ standard asks of implementations for atomic
  objects.  The locale \<open>fair_machine\<close> is the proof rule: it reduces the arrival at a final state to
  conditions on single steps.
\<close>

section \<open>Executions of a schedule\<close>

primrec execution :: "('c \<Rightarrow> 's \<Rightarrow> 's option) \<Rightarrow> (nat \<Rightarrow> 'c) \<Rightarrow> 's \<Rightarrow> nat \<Rightarrow> 's" where
  "execution nxt schedule s0 0 = s0"
| "execution nxt schedule s0 (Suc i) =
     (let s = execution nxt schedule s0 i
      in case nxt (schedule i) s of None \<Rightarrow> s | Some t \<Rightarrow> t)"

definition can_move :: "('c \<Rightarrow> 's \<Rightarrow> 's option) \<Rightarrow> ('c \<Rightarrow> 'i) \<Rightarrow> 'i \<Rightarrow> 's \<Rightarrow> bool" where
  "can_move nxt thread i s \<longleftrightarrow> (\<exists>c. thread c = i \<and> nxt c s \<noteq> None)"

text \<open>\<open>acts\<close> tells the steps that count from those that do not, such as an exchange that fails
  spuriously.\<close>

definition weakly_fair :: "('c \<Rightarrow> 's \<Rightarrow> 's option) \<Rightarrow> ('c \<Rightarrow> 'i) \<Rightarrow> ('c \<Rightarrow> 's \<Rightarrow> bool) \<Rightarrow> 's \<Rightarrow> (nat \<Rightarrow> 'c) \<Rightarrow> bool"
where
  "weakly_fair nxt thread acts s0 schedule \<longleftrightarrow>
     (\<forall>i m. \<exists>j \<ge> m. let s = execution nxt schedule s0 j in
        \<not> can_move nxt thread i s \<or>
        thread (schedule j) = i \<and> nxt (schedule j) s \<noteq> None \<and> acts (schedule j) s)"

text \<open>\<open>reads\<close> is the location a choice loads from and the number of the message it gets, \<open>stored\<close>
  the number of messages of a location.\<close>

definition visible :: "('c \<Rightarrow> 's \<Rightarrow> 's option) \<Rightarrow> ('c \<Rightarrow> 's \<Rightarrow> ('l \<times> nat) option) \<Rightarrow> ('s \<Rightarrow> 'l \<Rightarrow> nat)
    \<Rightarrow> 's \<Rightarrow> (nat \<Rightarrow> 'c) \<Rightarrow> bool" where
  "visible nxt reads stored s0 schedule \<longleftrightarrow>
     (\<forall>i. \<exists>j. \<forall>m \<ge> j. \<forall>l k. let s = execution nxt schedule s0 m in
        nxt (schedule m) s \<noteq> None \<longrightarrow> reads (schedule m) s = Some (l, k) \<longrightarrow>
        stored (execution nxt schedule s0 i) l \<le> Suc k \<and> k < stored s l)"

lemma execution_reach: "reach nxt s0 (execution nxt schedule s0 i)"
proof (induction i)
  case (Suc i)
  then show ?case by (auto simp: Let_def split: option.splits intro: reach.reach_step)
qed (simp add: reach.reach_start)

text \<open>A finite run that cannot be continued, as a schedule.\<close>

definition pad :: "'c list \<Rightarrow> 'c \<Rightarrow> nat \<Rightarrow> 'c" where
  "pad cs d i = (if i < length cs then cs ! i else d)"

lemma execution_prefix:
  "run nxt (take i cs) s0 = Some t \<Longrightarrow> i \<le> length cs \<Longrightarrow> execution nxt (pad cs d) s0 i = t"
proof (induction i arbitrary: t)
  case (Suc i)
  then have take: "take (Suc i) cs = take i cs @ [cs ! i]" by (simp add: take_Suc_conv_app_nth)
  obtain u where "run nxt (take i cs) s0 = Some u" "nxt (cs ! i) u = Some t"
    using Suc.prems(1) unfolding take run_append by (auto simp: bind_eq_Some_conv split: option.splits)
  with Suc.IH [of u] Suc.prems(2) show ?case by (simp add: pad_def)
qed simp

lemma execution_end:
  assumes "run nxt cs s0 = Some t" and "\<And>c. nxt c t = None" and "length cs \<le> i"
  shows "execution nxt (pad cs d) s0 i = t"
  using assms(3)
proof (induction i rule: dec_induct)
  case base
  show ?case using assms(1) by (intro execution_prefix) simp_all
next
  case (step i)
  then show ?case using assms(2) by simp
qed

lemma finished_run_is_fair:
  assumes "run nxt cs s0 = Some t" and "\<And>c. nxt c t = None"
  shows "weakly_fair nxt thread acts s0 (pad cs d)" and "visible nxt reads stored s0 (pad cs d)"
proof -
  note final = execution_end [OF assms]
  show "weakly_fair nxt thread acts s0 (pad cs d)"
    unfolding weakly_fair_def Let_def
  proof (intro allI)
    fix i m
    show "\<exists>j \<ge> m. \<not> can_move nxt thread i (execution nxt (pad cs d) s0 j) \<or>
        thread (pad cs d j) = i \<and> nxt (pad cs d j) (execution nxt (pad cs d) s0 j) \<noteq> None \<and>
        acts (pad cs d j) (execution nxt (pad cs d) s0 j)"
      using final [of "max m (length cs)"] assms(2) by (intro exI [of _ "max m (length cs)"]) (simp add: can_move_def)
  qed
  show "visible nxt reads stored s0 (pad cs d)"
    unfolding visible_def Let_def using final assms(2) by (metis (full_types))
qed

section \<open>The proof rule\<close>

text \<open>
  \<open>score\<close> counts what can be done only boundedly often; every store raises it.  While it does not
  change, one thread, the \<open>helper\<close>, can always move, its identity does not change, and each of its
  moves that returns up-to-date messages brings it closer to raising the score.
\<close>

locale fair_machine =
  fixes nxt :: "'c \<Rightarrow> 's \<Rightarrow> 's option"
    and inv :: "'s \<Rightarrow> bool"
    and thread :: "'c \<Rightarrow> 'i"
    and acts :: "'c \<Rightarrow> 's \<Rightarrow> bool"
    and reads :: "'c \<Rightarrow> 's \<Rightarrow> ('l \<times> nat) option"
    and stored :: "'s \<Rightarrow> 'l \<Rightarrow> nat"
    and final :: "'s \<Rightarrow> bool"
    and score :: "'s \<Rightarrow> nat"
    and bound :: nat
    and helper :: "'s \<Rightarrow> 'i"
    and rank :: "'s \<Rightarrow> nat"
  assumes inv_kept: "inv s \<Longrightarrow> nxt c s = Some t \<Longrightarrow> inv t"
    and score_bound: "inv s \<Longrightarrow> score s \<le> bound"
    and score_step: "inv s \<Longrightarrow> nxt c s = Some t \<Longrightarrow> score s \<le> score t"
    and stored_step: "inv s \<Longrightarrow> nxt c s = Some t \<Longrightarrow> score t = score s \<Longrightarrow> stored t = stored s"
    and helper_can: "inv s \<Longrightarrow> \<not> final s \<Longrightarrow> can_move nxt thread (helper s) s"
    and helper_step: "inv s \<Longrightarrow> \<not> final s \<Longrightarrow> nxt c s = Some t \<Longrightarrow> score t = score s \<Longrightarrow>
      (\<And>l k. reads c s = Some (l, k) \<Longrightarrow> stored s l = Suc k) \<Longrightarrow>
      helper t = helper s \<and> rank t \<le> rank s \<and> (thread c = helper s \<and> acts c s \<longrightarrow> rank t < rank s)"
begin

lemma inv_execution: "inv s0 \<Longrightarrow> inv (execution nxt schedule s0 i)"
  by (induction i) (auto simp: Let_def intro: inv_kept split: option.splits)

lemma score_mono:
  assumes "inv s0" and "i \<le> j"
  shows "score (execution nxt schedule s0 i) \<le> score (execution nxt schedule s0 j)"
  using assms(2)
proof (induction j rule: dec_induct)
  case (step j)
  then show ?case using score_step [OF inv_execution [OF assms(1)]] by (fastforce simp: Let_def split: option.splits)
qed simp

text \<open>A bounded sequence that never decreases does not change from some point on.\<close>

lemma score_settles:
  assumes inv: "inv s0"
  shows "\<exists>i. \<forall>j \<ge> i. score (execution nxt schedule s0 j) = score (execution nxt schedule s0 i)"
proof -
  let ?f = "\<lambda>i. score (execution nxt schedule s0 i)"
  have "finite (range ?f)" by (rule finite_subset [of _ "{..bound}"]) (auto intro: score_bound inv_execution [OF inv])
  then have "Max (range ?f) \<in> range ?f" by (intro Max_in) auto
  then obtain i where i: "?f i = Max (range ?f)" by auto
  have "?f j = ?f i" if "i \<le> j" for j
  proof (rule antisym)
    show "?f j \<le> ?f i" unfolding i using \<open>finite (range ?f)\<close> by (intro Max_ge) auto
    show "?f i \<le> ?f j" by (rule score_mono [OF inv that])
  qed
  then show ?thesis by blast
qed

lemma fair_runs_finish:
  assumes start: "inv s0" and fair: "weakly_fair nxt thread acts s0 schedule"
    and vis: "visible nxt reads stored s0 schedule"
  shows "\<exists>i. final (execution nxt schedule s0 i) \<and> inv (execution nxt schedule s0 i)"
proof (rule ccontr)
  let ?s = "execution nxt schedule s0"
  note inv = inv_execution [OF start]
  assume "\<nexists>i. final (?s i) \<and> inv (?s i)"
  then have never: "\<not> final (?s i)" for i using inv by blast
  obtain i where i: "score (?s j) = score (?s i)" if "i \<le> j" for j using score_settles [OF start] by blast
  have next_cases: "?s (Suc j) = ?s j \<and> nxt (schedule j) (?s j) = None \<or>
      nxt (schedule j) (?s j) = Some (?s (Suc j))" for j
    by (simp add: Let_def split: option.splits)
  have stored: "stored (?s j) = stored (?s i)" if "i \<le> j" for j
    using that
  proof (induction j rule: dec_induct)
    case (step j)
    then have eq: "score (?s (Suc j)) = score (?s j)" using i [of j] i [of "Suc j"] by (simp del: execution.simps)
    from next_cases [of j] have "stored (?s (Suc j)) = stored (?s j)"
    proof
      assume "nxt (schedule j) (?s j) = Some (?s (Suc j))"
      from stored_step [OF inv this eq] show ?thesis .
    qed (simp del: execution.simps)
    with step.IH show ?case by (simp del: execution.simps)
  qed simp
  obtain j0 where j0: "\<And>m l k. j0 \<le> m \<Longrightarrow> nxt (schedule m) (?s m) \<noteq> None \<Longrightarrow>
      reads (schedule m) (?s m) = Some (l, k) \<Longrightarrow> stored (?s i) l \<le> Suc k \<and> k < stored (?s m) l"
    using vis unfolding visible_def Let_def by meson
  define b where "b = max i j0"
  have move: "helper (?s (Suc j)) = helper (?s j) \<and> rank (?s (Suc j)) \<le> rank (?s j) \<and>
      (thread (schedule j) = helper (?s j) \<and> nxt (schedule j) (?s j) \<noteq> None \<and> acts (schedule j) (?s j) \<longrightarrow>
       rank (?s (Suc j)) < rank (?s j))" if "b \<le> j" for j
  proof (cases "nxt (schedule j) (?s j) = None")
    case True
    then show ?thesis using next_cases [of j] by auto
  next
    case False
    then have t: "nxt (schedule j) (?s j) = Some (?s (Suc j))" using next_cases [of j] by auto
    have eq: "score (?s (Suc j)) = score (?s j)"
      using i [of j] i [of "Suc j"] that by (simp add: b_def del: execution.simps)
    have "stored (?s j) l = Suc k" if "reads (schedule j) (?s j) = Some (l, k)" for l k
      using j0 [OF _ False that] stored [of j] \<open>b \<le> j\<close> by (simp add: b_def del: execution.simps)
    from helper_step [OF inv never t eq this] show ?thesis by simp
  qed
  define h where "h = helper (?s b)"
  have helper: "helper (?s j) = h" if "b \<le> j" for j
    using that by (induction j rule: dec_induct) (simp_all add: move h_def del: execution.simps)
  have falls: "\<exists>j \<ge> m. rank (?s (Suc j)) < rank (?s j)" if "b \<le> m" for m
  proof -
    obtain j where j: "m \<le> j" "\<not> can_move nxt thread h (?s j) \<or>
        thread (schedule j) = h \<and> nxt (schedule j) (?s j) \<noteq> None \<and> acts (schedule j) (?s j)"
      using fair unfolding weakly_fair_def Let_def by blast
    have "b \<le> j" using that j(1) by simp
    have h: "helper (?s j) = h" by (rule helper [OF \<open>b \<le> j\<close>])
    have "can_move nxt thread h (?s j)" using helper_can [OF inv never [of j]] unfolding h .
    then have acts: "thread (schedule j) = helper (?s j) \<and> nxt (schedule j) (?s j) \<noteq> None \<and> acts (schedule j) (?s j)"
      using j(2) unfolding h by fast
    have "rank (?s (Suc j)) < rank (?s j)"
      using move [OF \<open>b \<le> j\<close>, THEN conjunct2, THEN conjunct2, rule_format, OF acts] .
    with j(1) show ?thesis by (intro exI [of _ j] conjI)
  qed
  have below: "rank (?s j) \<le> rank (?s m)" if "b \<le> m" "m \<le> j" for m j
    using that(2)
  proof (induction j rule: dec_induct)
    case (step n)
    then show ?case using that(1) move [of n] by (simp del: execution.simps)
  qed simp
  have "\<exists>j \<ge> b. rank (?s j) + d \<le> rank (?s b)" for d
  proof (induction d)
    case (Suc d)
    then obtain m where m: "b \<le> m" "rank (?s m) + d \<le> rank (?s b)" by blast
    obtain j where "m \<le> j" "rank (?s (Suc j)) < rank (?s j)" using falls [OF m(1)] by blast
    with below [OF m(1), of j] m show ?case by (intro exI [of _ "Suc j"]) (simp del: execution.simps)
  qed auto
  from this [of "Suc (rank (?s b))"] show False by auto
qed

end

end
