(* ===== verification/Fair_Transfer.thy ===== *)
theory Fair_Transfer
  imports Spsc_Bench Spsc_Progress Fair_Runs
begin

text \<open>
  The worker loops of \<open>bench/spsc_bench.cpp\<close> under a fair scheduler: if a thread that can move is
  not passed over forever and stores become visible, then both loops end, in whatever way the
  scheduler interleaves them and however long it lets them spin or read stale indices.
\<close>

section \<open>The threads of a schedule\<close>

definition worker_thread :: "worker \<Rightarrow> tid" where
  "worker_thread w = (case w of Producer k \<Rightarrow> producer | Consumer k now \<Rightarrow> consumer)"

definition transfer_reads :: "worker \<Rightarrow> ('T, 'b) transfer \<Rightarrow> (index \<times> nat) option" where
  "transfer_reads w s =
     (case w of Producer k \<Rightarrow> push_reads k (tsys s) | Consumer k now \<Rightarrow> pop_reads k (tsys s))"

definition transfer_messages :: "('T, 'b) transfer \<Rightarrow> index \<Rightarrow> nat" where
  "transfer_messages s = index_messages (tsys s)"

text \<open>Items published and taken, and successful returns; who can add to them, and how far off it is.\<close>

definition transfer_score :: "('T, 'b) transfer \<Rightarrow> nat" where
  "transfer_score s = p_expected s + c_expected s + length (pushed (tsys s)) + length (popped (tsys s))"

definition consumer_turn :: "('T, 'b) transfer \<Rightarrow> bool" where
  "consumer_turn s \<longleftrightarrow> queued (tsys s) \<noteq> [] \<or> pop_result (cpc (tsys s)) \<noteq> None"

definition transfer_helper :: "('T, 'b) transfer \<Rightarrow> tid" where
  "transfer_helper s = (if consumer_turn s then consumer else producer)"

definition transfer_rank :: "('T, 'b) transfer \<Rightarrow> nat" where
  "transfer_rank s = (if consumer_turn s then pop_away (cpc (tsys s)) else push_away (ppc (tsys s)))"

section \<open>Steps of the loops\<close>

lemma producer_loop_cases:
  assumes "producer_loop C n mk k s = Some t"
  obtains (call) x where "ppc (tsys s) = P_Idle" "p_expected s < n"
      "t = s\<lparr>tsys := (tsys s)\<lparr>ppc := P_Load_Tail x\<rparr>\<rparr>"
    | (returns) b where "ppc (tsys s) = P_Done b"
      "t = s\<lparr>tsys := (tsys s)\<lparr>ppc := P_Idle\<rparr>, p_expected := if b then Suc (p_expected s) else p_expected s\<rparr>"
    | (access) q where "0 < push_rank (ppc (tsys s))" "push_step C k (tsys s) = Some q" "t = s\<lparr>tsys := q\<rparr>"
  using assms by (cases "ppc (tsys s)") (auto simp: producer_loop_def spsc_next_def split: if_splits)

lemma consumer_loop_cases:
  assumes "consumer_loop C n use k now s = Some t"
  obtains (call) "cpc (tsys s) = C_Idle" "c_expected s < n" "t = s\<lparr>tsys := (tsys s)\<lparr>cpc := C_Load_Head\<rparr>\<rparr>"
    | (fails) "cpc (tsys s) = C_Done None" "t = s\<lparr>tsys := (tsys s)\<lparr>cpc := C_Idle\<rparr>\<rparr>"
    | (returns) v where "cpc (tsys s) = C_Done (Some v)" "tsys t = (tsys s)\<lparr>cpc := C_Idle\<rparr>"
      "c_expected t = Suc (c_expected s)" "p_expected t = p_expected s"
    | (access) q where "0 < pop_rank (cpc (tsys s))" "pop_step C k (tsys s) = Some q" "t = s\<lparr>tsys := q\<rparr>"
  using assms
  by (cases "cpc (tsys s)") (auto simp: consumer_loop_def spsc_next_def split: if_splits option.splits)

lemma producer_score:
  assumes "producer_loop C n mk k s = Some t"
  shows "transfer_score s \<le> transfer_score t"
  using assms
proof (cases rule: producer_loop_cases)
  case (access q)
  from push_step_effect [OF access(2)] push_step_frame [OF access(2)] access(3) show ?thesis
    by (auto simp: transfer_score_def)
qed (simp_all add: transfer_score_def)

lemma consumer_score:
  assumes "consumer_loop C n use k now s = Some t"
  shows "transfer_score s \<le> transfer_score t"
  using assms
proof (cases rule: consumer_loop_cases)
  case (access q)
  from pop_step_effect [OF access(2)] pop_step_frame [OF access(2)] access(3) show ?thesis
    by (auto simp: transfer_score_def)
qed (simp_all add: transfer_score_def)

text \<open>A step that does not raise the score leaves the histories alone.\<close>

lemma producer_same_score:
  assumes "producer_loop C n mk k s = Some t" and "transfer_score t = transfer_score s"
  shows "pushed (tsys t) = pushed (tsys s)" and "popped (tsys t) = popped (tsys s)"
    and "cpc (tsys t) = cpc (tsys s)"
proof -
  from assms(1) have "pushed (tsys t) = pushed (tsys s) \<and> popped (tsys t) = popped (tsys s) \<and> cpc (tsys t) = cpc (tsys s)"
  proof (cases rule: producer_loop_cases)
    case (access q)
    from push_step_effect [OF access(2)] push_step_frame [OF access(2)] access(3) assms(2) show ?thesis
      by (auto simp: transfer_score_def)
  qed simp_all
  then show "pushed (tsys t) = pushed (tsys s)" "popped (tsys t) = popped (tsys s)" "cpc (tsys t) = cpc (tsys s)"
    by simp_all
qed

lemma consumer_same_score:
  assumes "consumer_loop C n use k now s = Some t" and "transfer_score t = transfer_score s"
  shows "pushed (tsys t) = pushed (tsys s)" and "popped (tsys t) = popped (tsys s)"
    and "ppc (tsys t) = ppc (tsys s)" and "pop_result (cpc (tsys t)) = pop_result (cpc (tsys s))"
proof -
  from assms(1) have "pushed (tsys t) = pushed (tsys s) \<and> popped (tsys t) = popped (tsys s) \<and>
      ppc (tsys t) = ppc (tsys s) \<and> pop_result (cpc (tsys t)) = pop_result (cpc (tsys s))"
  proof (cases rule: consumer_loop_cases)
    case (returns v)
    then show ?thesis using assms(2) by (simp add: transfer_score_def)
  next
    case (access q)
    then have "pop_result (cpc (tsys s)) = None" by (cases "cpc (tsys s)") simp_all
    with pop_step_effect [OF access(2)] pop_step_frame [OF access(2)] access(3) assms(2) show ?thesis
      by (auto simp: transfer_score_def)
  qed simp_all
  then show "pushed (tsys t) = pushed (tsys s)" "popped (tsys t) = popped (tsys s)"
    "ppc (tsys t) = ppc (tsys s)" "pop_result (cpc (tsys t)) = pop_result (cpc (tsys s))"
    by simp_all
qed

section \<open>The rule applied\<close>

locale waiting_transfer = transfer_client +
  assumes slots: "C \<noteq> 0"
begin

lemma transfer_turn:
  assumes i: "loop_inv s"
  shows "transfer_score s \<le> 4 * n"
    and "\<not> transfer_done n s \<Longrightarrow> \<not> consumer_turn s \<Longrightarrow> ppc (tsys s) = P_Idle \<Longrightarrow> p_expected s < n"
    and "consumer_turn s \<Longrightarrow> c_expected s < n"
    and "\<not> consumer_turn s \<Longrightarrow> length (queued (tsys s)) < unat C"
    and "p_expected s \<le> n" and "ppc (tsys s) = P_Done True \<or> length (pushed (tsys s)) = p_expected s"
proof -
  have q: "spsc_inv C (tsys s)" "length (pushed (tsys s)) = sent s" "length (popped (tsys s)) = received s"
    "sent s \<le> n" "received s \<le> n" "p_expected s \<le> n" "c_expected s \<le> n" "cpc (tsys s) \<noteq> C_Idle \<Longrightarrow> c_expected s < n"
    using i by (auto simp: transfer_inv_def sender_inv_def sent_def receiver_inv_def received_def
        split: producer_pc.splits consumer_pc.splits option.splits bool.splits)
  show "transfer_score s \<le> 4 * n" using q by (simp add: transfer_score_def)
  show "p_expected s \<le> n" by (rule q(6))
  show "length (queued (tsys s)) < unat C" if "\<not> consumer_turn s"
    using that slots by (simp add: consumer_turn_def unat_gt_0)
  show "ppc (tsys s) = P_Done True \<or> length (pushed (tsys s)) = p_expected s"
    using q(2) by (auto simp: sent_def split: producer_pc.splits bool.splits)
  show "c_expected s < n" if "consumer_turn s"
  proof (cases "cpc (tsys s) = C_Idle")
    case True
    then have "queued (tsys s) \<noteq> []" using that by (simp add: consumer_turn_def)
    then have "0 < length (queued (tsys s))" by simp
    then have "received s < sent s" using spsc_inv_facts(6) [OF q(1)] q(2,3) by simp
    then show ?thesis using True q(4) by (simp add: received_def)
  qed (rule q(8))
  show "p_expected s < n" if "\<not> transfer_done n s" "\<not> consumer_turn s" "ppc (tsys s) = P_Idle"
  proof (rule ccontr)
    assume "\<not> p_expected s < n"
    then have n: "p_expected s = n" "sent s = n" using q(6) that(3) by (simp_all add: sent_def)
    have none: "queued (tsys s) = []" "pop_result (cpc (tsys s)) = None" using that(2) by (simp_all add: consumer_turn_def)
    then have "received s = n" using spsc_inv_facts(2,6) [OF q(1)] q(2,3) n(2) by simp
    moreover have "received s = c_expected s"
      using none(2) by (auto simp: received_def split: consumer_pc.splits option.splits)
    ultimately have "c_expected s = n" by simp
    then have "cpc (tsys s) = C_Idle" using q(8) by auto
    with that(1,3) n(1) \<open>c_expected s = n\<close> show False by (simp add: transfer_done_def)
  qed
qed

lemma helper_can_move:
  assumes i: "loop_inv s" and left: "\<not> transfer_done n s"
  shows "can_move loop_next worker_thread (transfer_helper s) s"
proof (cases "consumer_turn s")
  case True
  have "\<exists>k t. consumer_loop C n use k 0 s = Some t"
  proof (cases "0 < pop_rank (cpc (tsys s))")
    case access: True
    have "mem_ok (qmem (tsys s))" using i by (auto simp: transfer_inv_def spsc_inv_def index_inv_def)
    then obtain k q where "pop_step C k (tsys s) = Some q" using pop_step_enabled access by blast
    with access show ?thesis
      by (intro exI [of _ k]) (cases "cpc (tsys s)"; simp add: consumer_loop_def spsc_next_def)
  next
    case False
    then show ?thesis using transfer_turn(3) [OF i True]
      by (cases "cpc (tsys s)") (simp_all add: consumer_loop_def spsc_next_def)
  qed
  then obtain k t where "loop_next (Consumer k 0) s = Some t" by (auto simp: transfer_next_def)
  then show ?thesis using True
    by (auto simp: can_move_def transfer_helper_def worker_thread_def intro!: exI [of _ "Consumer k 0"])
next
  case False
  have "\<exists>k t. producer_loop C n mk k s = Some t"
  proof (cases "0 < push_rank (ppc (tsys s))")
    case access: True
    have "mem_ok (qmem (tsys s))" using i by (auto simp: transfer_inv_def spsc_inv_def index_inv_def)
    then obtain k q where "push_step C k (tsys s) = Some q" using push_step_enabled access by blast
    with access show ?thesis
      by (intro exI [of _ k]) (cases "ppc (tsys s)"; simp add: producer_loop_def spsc_next_def)
  next
    case idle: False
    then show ?thesis using transfer_turn(2) [OF i left False]
      by (cases "ppc (tsys s)") (simp_all add: producer_loop_def spsc_next_def)
  qed
  then obtain k t where "loop_next (Producer k) s = Some t" by (auto simp: transfer_next_def)
  then show ?thesis using False
    by (auto simp: can_move_def transfer_helper_def worker_thread_def intro!: exI [of _ "Producer k"])
qed

lemma producer_helps:
  assumes i: "loop_inv s" and step: "producer_loop C n mk k s = Some t"
    and same: "transfer_score t = transfer_score s"
    and newest: "\<And>l m. push_reads k (tsys s) = Some (l, m) \<Longrightarrow> index_messages (tsys s) l = Suc m"
  shows "transfer_helper t = transfer_helper s \<and> transfer_rank t \<le> transfer_rank s \<and>
         (transfer_helper s = producer \<longrightarrow> transfer_rank t < transfer_rank s)"
proof -
  have turn: "consumer_turn t = consumer_turn s"
    using producer_same_score [OF step same] by (simp add: consumer_turn_def queued_def)
  have "push_away (ppc (tsys t)) < push_away (ppc (tsys s))" if "\<not> consumer_turn s"
    using step
  proof (cases rule: producer_loop_cases)
    case (returns b)
    then show ?thesis using same by (cases b) (simp_all add: transfer_score_def)
  next
    case (access q)
    have "spsc_inv C (tsys s)" using i by (simp add: transfer_inv_def)
    from push_step_newest [OF this transfer_turn(4) [OF i that] access(2) newest]
    show ?thesis
    proof
      assume "ppc q = P_Done True"
      then show ?thesis using push_step_effect [OF access(2)] producer_same_score(1) [OF step same] access(3) by auto
    next
      assume "push_away (ppc q) < push_away (ppc (tsys s))"
      then show ?thesis using access(3) by simp
    qed
  qed simp
  then show ?thesis
    using turn producer_same_score(3) [OF step same]
    by (auto simp: transfer_helper_def transfer_rank_def intro: less_imp_le)
qed

lemma consumer_helps:
  assumes i: "loop_inv s" and step: "consumer_loop C n use k now s = Some t"
    and same: "transfer_score t = transfer_score s"
    and newest: "\<And>l m. pop_reads k (tsys s) = Some (l, m) \<Longrightarrow> index_messages (tsys s) l = Suc m"
  shows "transfer_helper t = transfer_helper s \<and> transfer_rank t \<le> transfer_rank s \<and>
         (transfer_helper s = consumer \<longrightarrow> transfer_rank t < transfer_rank s)"
proof -
  note kept = consumer_same_score [OF step same]
  have turn: "consumer_turn t = consumer_turn s" using kept by (simp add: consumer_turn_def queued_def)
  have "pop_away (cpc (tsys t)) < pop_away (cpc (tsys s))" if "consumer_turn s"
    using step
  proof (cases rule: consumer_loop_cases)
    case (returns v)
    then show ?thesis using same by (simp add: transfer_score_def)
  next
    case (access q)
    then have none: "pop_result (cpc (tsys s)) = None" by (cases "cpc (tsys s)") simp_all
    then have "queued (tsys s) \<noteq> []" using that by (simp add: consumer_turn_def)
    moreover have "spsc_inv C (tsys s)" using i by (simp add: transfer_inv_def)
    ultimately have "pop_result (cpc q) \<noteq> None \<or> pop_away (cpc q) < pop_away (cpc (tsys s))"
      using pop_step_newest [OF _ _ access(2) newest] by blast
    then show ?thesis using kept(4) none access(3) by auto
  qed simp_all
  then show ?thesis using turn kept(3) by (auto simp: transfer_helper_def transfer_rank_def intro: less_imp_le)
qed

end

sublocale waiting_transfer \<subseteq> fair: fair_machine "transfer_next C n mk use" "transfer_inv C n mk good" worker_thread "\<lambda>w s. True" transfer_reads transfer_messages "transfer_done n"
    transfer_score "4 * n" transfer_helper transfer_rank
proof
  fix s w t
  assume i: "transfer_inv C n mk good s"
  show "transfer_score s \<le> 4 * n" by (rule transfer_turn(1) [OF i])
  show "transfer_inv C n mk good t" if "transfer_next C n mk use w s = Some t" by (rule moves.inv_step [OF i that])
  show "can_move (transfer_next C n mk use) worker_thread (transfer_helper s) s" if "\<not> transfer_done n s"
    by (rule helper_can_move [OF i that])
  assume step: "transfer_next C n mk use w s = Some t"
  show "transfer_score s \<le> transfer_score t"
    using step by (cases w) (auto simp: transfer_next_def intro: producer_score consumer_score)
  assume same: "transfer_score t = transfer_score s"
  have inv: "spsc_inv C (tsys s)" "spsc_inv C (tsys t)"
    using i moves.inv_step [OF i step] by (simp_all add: transfer_inv_def)
  have "pushed (tsys t) = pushed (tsys s) \<and> popped (tsys t) = popped (tsys s)"
    using step same by (cases w) (auto simp: transfer_next_def dest: producer_same_score consumer_same_score)
  then show "transfer_messages t = transfer_messages s"
    using same_messages [OF inv] by (intro ext) (simp add: transfer_messages_def)
  assume newest: "\<And>l m. transfer_reads w s = Some (l, m) \<Longrightarrow> transfer_messages s l = Suc m"
  show "transfer_helper t = transfer_helper s \<and> transfer_rank t \<le> transfer_rank s \<and>
      (worker_thread w = transfer_helper s \<and> True \<longrightarrow> transfer_rank t < transfer_rank s)"
  proof (cases w)
    case (Producer k)
    with step newest producer_helps [OF i _ same, of k] show ?thesis
      by (simp add: transfer_next_def transfer_reads_def transfer_messages_def worker_thread_def)
  next
    case (Consumer k now)
    with step newest consumer_helps [OF i _ same, of k now] show ?thesis
      by (simp add: transfer_next_def transfer_reads_def transfer_messages_def worker_thread_def)
  qed
qed

context waiting_transfer
begin

lemma loops_finish:
  assumes "weakly_fair loop_next worker_thread (\<lambda>w s. True) (transfer_init g b0) schedule"
    and "visible loop_next transfer_reads transfer_messages (transfer_init g b0) schedule"
  obtains i s where "s = execution loop_next schedule (transfer_init g b0) i" "transfer_done n s" "loop_inv s"
    "popped (tsys s) = map mk [0 ..< n]"
proof -
  obtain i where fin: "transfer_done n (execution loop_next schedule (transfer_init g b0) i)"
    and inv: "loop_inv (execution loop_next schedule (transfer_init g b0) i)"
    using fair.fair_runs_finish [OF loop_inv_reach [OF reach_start] assms] by blast
  from that [OF refl fin inv transfer_done_items [OF inv fin]] show thesis .
qed

end

section \<open>The correctness test and the benchmark\<close>

lemma test_waiting: "capacity_ok C \<Longrightarrow> C \<noteq> 0 \<Longrightarrow> waiting_transfer C n test_item test_use False (\<lambda>i failed. \<not> failed)"
  by (intro waiting_transfer.intro test_client waiting_transfer_axioms.intro)

lemma bench_waiting:
  "capacity_ok C \<Longrightarrow> C \<noteq> 0 \<Longrightarrow> waiting_transfer C n bench_item bench_use (Some (replicate n 0))
     (\<lambda>i ts. \<exists>xs. ts = Some xs \<and> length xs = n)"
  by (intro waiting_transfer.intro bench_client waiting_transfer_axioms.intro)

lemma source_slots: "TEST_CONCURRENCY_QUEUE_SIZE \<noteq> 0" "BENCH_QUEUE_SIZE \<noteq> 0"
  by code_simp+

interpretation waiting_test: waiting_transfer TEST_CONCURRENCY_QUEUE_SIZE TEST_CONCURRENCY_N
    test_item test_use False "\<lambda>i failed. \<not> failed"
  by (rule test_waiting) (rule source_capacities source_slots)+

interpretation waiting_bench: waiting_transfer BENCH_QUEUE_SIZE BENCH_N
    bench_item bench_use "Some (replicate BENCH_N 0)" "\<lambda>i ts. \<exists>xs. ts = Some xs \<and> length xs = BENCH_N"
  by (rule bench_waiting) (rule source_capacities source_slots)+

text \<open>
  Property C5. The concurrency test ends: under every schedule that does not pass over a thread
  forever and in which stores become visible, both loops reach their end, with every item received
  in order and no assertion failed - however the scheduler interleaves the accesses, however often
  the threads spin on a full or an empty queue, and whatever stale indices they read meanwhile.
\<close>

theorem concurrency_test_terminates:
  assumes "capacity_ok C" and "C \<noteq> 0"
    and "weakly_fair (test_next C n) worker_thread (\<lambda>w s. True) (transfer_init g False) schedule"
    and "visible (test_next C n) transfer_reads transfer_messages (transfer_init g False) schedule"
  shows "\<exists>i. let s = execution (test_next C n) schedule (transfer_init g False) i in
           transfer_done n s \<and> popped (tsys s) = map test_item [0 ..< n] \<and> \<not> c_data s"
proof -
  obtain i s where "s = execution (test_next C n) schedule (transfer_init g False) i" "transfer_done n s"
    "transfer_inv C n test_item (\<lambda>i failed. \<not> failed) s" "popped (tsys s) = map test_item [0 ..< n]"
    by (rule waiting_transfer.loops_finish [OF test_waiting [OF assms(1,2)] assms(3,4)])
  then show ?thesis by (intro exI [of _ i]) (simp add: Let_def transfer_inv_def receiver_inv_def)
qed

text \<open>A finished run of the test with one item, prolonged by a thread that can do nothing.\<close>

definition one_item_run :: "worker list" where
  "one_item_run = replicate 5 (Producer 0) @ [Consumer 0 0, Consumer 0 0, Consumer 1 0, Consumer 0 0, Consumer 0 0, Consumer 0 0]"

lemma transfer_done_stuck: "transfer_done n s \<Longrightarrow> transfer_next C n mk use w s = None"
  by (cases w) (simp_all add: transfer_done_def transfer_next_def producer_loop_def consumer_loop_def)

theorem concurrency_test_terminates_witness:
  "\<exists>i. let s = execution (test_next 2 1) (pad one_item_run (Producer 0)) (transfer_init (\<lambda>_. 0) False) i in
     transfer_done 1 s \<and> popped (tsys s) = map test_item [0 ..< 1] \<and> \<not> c_data s"
proof -
  have "run_to (test_next 2 1) one_item_run (transfer_init (\<lambda>_. 0) False) (transfer_done 1)" by code_simp
  then obtain s where s: "run (test_next 2 1) one_item_run (transfer_init (\<lambda>_. 0) False) = Some s" "transfer_done 1 s"
    by (blast dest: run_to_run)
  note fair = finished_run_is_fair [OF s(1) transfer_done_stuck [OF s(2)]]
  have "capacity_ok 2" by code_simp
  from concurrency_test_terminates [OF this _ fair] show ?thesis by simp
qed

text \<open>The benchmark's loops end as well, with every time stamp written inside the vector.\<close>

theorem benchmark_terminates:
  assumes "capacity_ok C" and "C \<noteq> 0"
    and "weakly_fair (bench_next C n) worker_thread (\<lambda>w s. True) (transfer_init g (Some (replicate n 0))) schedule"
    and "visible (bench_next C n) transfer_reads transfer_messages (transfer_init g (Some (replicate n 0))) schedule"
  shows "\<exists>i ts. let s = execution (bench_next C n) schedule (transfer_init g (Some (replicate n 0))) i in
           transfer_done n s \<and> popped (tsys s) = map bench_item [0 ..< n] \<and> c_data s = Some ts \<and> length ts = n"
proof -
  obtain i s where "s = execution (bench_next C n) schedule (transfer_init g (Some (replicate n 0))) i"
    "transfer_done n s" "transfer_inv C n bench_item (\<lambda>i ts. \<exists>xs. ts = Some xs \<and> length xs = n) s"
    "popped (tsys s) = map bench_item [0 ..< n]"
    by (rule waiting_transfer.loops_finish [OF bench_waiting [OF assms(1,2)] assms(3,4)])
  then show ?thesis by (auto simp: Let_def transfer_inv_def receiver_inv_def intro!: exI [of _ i])
qed

end
