(* ===== verification/Head_To_Head.thy ===== *)
theory Head_To_Head
  imports Spsc_Queue Bench_Utils Sampling
begin

text \<open>
  \<open>bench/spsc_head_to_head.cpp\<close>: the worker threads of the three test cases over any queue
  with \<open>try_push\<close> and \<open>try_pop\<close>, the wrappers that give five queues this interface, and
  the dispatch of \<open>main\<close>.

  The queue is a parameter (the template argument \<open>Queue\<close>), and a call on it is one step: the
  two threads interleave call by call.  For \<open>SpscQueue\<close> the theory \<open>Spsc_Head_To_Head\<close> runs the
  same loops with every access of the queue a step.  A queue that refuses a call it could have served,
  because a thread has not yet seen the other's last store, changes nothing: every loop here
  tries again, so such a refusal is a step that leaves the state as it is.
\<close>

section \<open>The wrappers\<close>

text \<open>\<open>MySpscWrapper<T, N>\<close> delegates.\<close>

definition my_try_push :: "u64 \<Rightarrow> 'T \<Rightarrow> 'T spsc_queue \<Rightarrow> bool \<times> 'T spsc_queue" where
  "my_try_push N v q = try_push N v q"

definition my_try_pop :: "u64 \<Rightarrow> 'T \<Rightarrow> 'T spsc_queue \<Rightarrow> bool \<times> 'T \<times> 'T spsc_queue" where
  "my_try_pop N v q = try_pop N v q"

text \<open>
  \<open>MoodyCamelWrapper\<close> and \<open>BoostWrapper\<close> delegate too, to the library's members, which are
  parameters; so do the pushes of the other two wrappers.
\<close>

definition moodycamel_try_push :: "('T \<Rightarrow> 'q \<Rightarrow> bool \<times> 'q) \<Rightarrow> 'T \<Rightarrow> 'q \<Rightarrow> bool \<times> 'q" where
  "moodycamel_try_push try_enqueue v q = try_enqueue v q"

definition moodycamel_try_pop :: "('T \<Rightarrow> 'q \<Rightarrow> bool \<times> 'T \<times> 'q) \<Rightarrow> 'T \<Rightarrow> 'q \<Rightarrow> bool \<times> 'T \<times> 'q" where
  "moodycamel_try_pop try_dequeue v q = try_dequeue v q"

definition boost_try_push :: "('T \<Rightarrow> 'q \<Rightarrow> bool \<times> 'q) \<Rightarrow> 'T \<Rightarrow> 'q \<Rightarrow> bool \<times> 'q" where
  "boost_try_push push v q = push v q"

definition boost_try_pop :: "('T \<Rightarrow> 'q \<Rightarrow> bool \<times> 'T \<times> 'q) \<Rightarrow> 'T \<Rightarrow> 'q \<Rightarrow> bool \<times> 'T \<times> 'q" where
  "boost_try_pop pop v q = pop v q"

definition rigtorp_try_push :: "('T \<Rightarrow> 'q \<Rightarrow> bool \<times> 'q) \<Rightarrow> 'T \<Rightarrow> 'q \<Rightarrow> bool \<times> 'q" where
  "rigtorp_try_push push v q = push v q"

definition folly_try_push :: "('T \<Rightarrow> 'q \<Rightarrow> bool \<times> 'q) \<Rightarrow> 'T \<Rightarrow> 'q \<Rightarrow> bool \<times> 'q" where
  "folly_try_push write v q = write v q"

text \<open>
  \<open>RigtorpWrapper\<close> and \<open>FollyWrapper\<close> build \<open>try_pop\<close> from the library's \<open>front\<close>
  (\<open>frontPtr\<close>), which may be null, and \<open>pop\<close> (\<open>popFront\<close>).  The libraries are
  parameters.
\<close>

definition rigtorp_try_pop :: "('q \<Rightarrow> 'T option) \<Rightarrow> ('q \<Rightarrow> 'q) \<Rightarrow> 'T \<Rightarrow> 'q \<Rightarrow> bool \<times> 'T \<times> 'q" where
  "rigtorp_try_pop front pop v q =
     (case front q of
        None \<Rightarrow> (False, v, q)
      | Some p \<Rightarrow> (True, p, pop q))"

definition folly_try_pop :: "('q \<Rightarrow> 'T option) \<Rightarrow> ('q \<Rightarrow> 'q) \<Rightarrow> 'T \<Rightarrow> 'q \<Rightarrow> bool \<times> 'T \<times> 'q" where
  "folly_try_pop frontPtr popFront v q =
     (case frontPtr q of
        None \<Rightarrow> (False, v, q)
      | Some p \<Rightarrow> (True, p, popFront q))"

lemma folly_is_rigtorp: "folly_try_pop = rigtorp_try_pop"
  by (simp add: fun_eq_iff folly_try_pop_def rigtorp_try_pop_def)

text \<open>
  What those two libraries document: a bounded queue whose front is its oldest item, null if
  there is none, and whose \<open>pop\<close> may be called only when there is one.
\<close>

definition front_queue_laws :: "('T \<Rightarrow> 'q \<Rightarrow> bool \<times> 'q) \<Rightarrow> ('q \<Rightarrow> 'T option) \<Rightarrow> ('q \<Rightarrow> 'q)
    \<Rightarrow> ('q \<Rightarrow> 'T list) \<Rightarrow> ('q \<Rightarrow> bool) \<Rightarrow> nat \<Rightarrow> bool" where
  "front_queue_laws push front pop items ok limit \<longleftrightarrow>
     (\<forall>q. ok q \<longrightarrow>
        length (items q) \<le> limit \<and>
        (\<forall>x. ok (snd (push x q)) \<and> (fst (push x q) \<longleftrightarrow> length (items q) < limit) \<and>
             items (snd (push x q)) = (if length (items q) < limit then items q @ [x] else items q)) \<and>
        front q = (case items q of [] \<Rightarrow> None | x # _ \<Rightarrow> Some x) \<and>
        (items q \<noteq> [] \<longrightarrow> ok (pop q) \<and> items (pop q) = tl (items q)))"

lemma front_queue_fifo:
  assumes "front_queue_laws push front pop items ok limit"
  shows "bounded_fifo push (rigtorp_try_pop front pop) items ok limit"
proof
  fix q x y assume ok: "ok q"
  with assms have laws: "length (items q) \<le> limit" "ok (snd (push x q))"
    "fst (push x q) \<longleftrightarrow> length (items q) < limit"
    "items (snd (push x q)) = (if length (items q) < limit then items q @ [x] else items q)"
    "front q = (case items q of [] \<Rightarrow> None | x # _ \<Rightarrow> Some x)"
    "items q \<noteq> [] \<Longrightarrow> ok (pop q) \<and> items (pop q) = tl (items q)"
    unfolding front_queue_laws_def by blast+
  then show "length (items q) \<le> limit" "ok (snd (push x q))"
    "fst (push x q) \<longleftrightarrow> length (items q) < limit"
    "items (snd (push x q)) = (if fst (push x q) then items q @ [x] else items q)"
    by simp_all
  show "ok (snd (snd (rigtorp_try_pop front pop y q)))"
    "fst (rigtorp_try_pop front pop y q) \<longleftrightarrow> items q \<noteq> []"
    "if fst (rigtorp_try_pop front pop y q)
     then fst (snd (rigtorp_try_pop front pop y q)) # items (snd (snd (rigtorp_try_pop front pop y q))) = items q
     else fst (snd (rigtorp_try_pop front pop y q)) = y \<and>
          items (snd (snd (rigtorp_try_pop front pop y q))) = items q"
    using ok laws(5,6) by (cases "items q"; simp add: rigtorp_try_pop_def)+
qed

lemma my_wrapper_delegates: "my_try_push N = try_push N" "my_try_pop N = try_pop N"
  by (simp_all add: fun_eq_iff my_try_push_def my_try_pop_def)

interpretation my_wrapper: bounded_fifo "my_try_push N" "my_try_pop N" "contents N" "spsc_ok N" "unat N" for N
  unfolding my_wrapper_delegates by (rule spsc.bounded_fifo_axioms)

text \<open>
  Every wrapper offers the same contract to the test cases: the one around the
  repository's queue because of what was proved of that queue, those around a library with
  \<open>front\<close> and \<open>pop\<close> because of what the library documents.
\<close>

theorem wrappers_are_bounded_fifos:
  assumes "front_queue_laws push front pop items ok limit"
  shows "bounded_fifo (my_try_push N) (my_try_pop N) (contents N) (spsc_ok N) (unat N) \<and>
         bounded_fifo (rigtorp_try_push push) (rigtorp_try_pop front pop) items ok limit \<and>
         bounded_fifo (folly_try_push push) (folly_try_pop front pop) items ok limit"
proof -
  have "rigtorp_try_push push = push" "folly_try_push push = push"
    by (simp_all add: fun_eq_iff rigtorp_try_push_def folly_try_push_def)
  with front_queue_fifo [OF assms] my_wrapper.bounded_fifo_axioms show ?thesis
    by (simp add: folly_is_rigtorp)
qed

text \<open>A queue on lists that satisfies the documented laws: at most \<open>limit\<close> items, null on empty.\<close>

definition list_push :: "nat \<Rightarrow> 'T \<Rightarrow> 'T list \<Rightarrow> bool \<times> 'T list" where
  "list_push limit x xs = (if length xs < limit then (True, xs @ [x]) else (False, xs))"

definition list_front :: "'T list \<Rightarrow> 'T option" where
  "list_front xs = (case xs of [] \<Rightarrow> None | x # _ \<Rightarrow> Some x)"

lemma list_queue_laws:
  "front_queue_laws (list_push limit) list_front tl (\<lambda>xs. xs) (\<lambda>xs. length xs \<le> limit) limit"
  by (auto simp: front_queue_laws_def list_push_def list_front_def)

theorem wrappers_are_bounded_fifos_witness:
  "bounded_fifo (my_try_push 4) (my_try_pop 4) (contents 4) (spsc_ok 4) (unat (4 :: u64)) \<and>
   bounded_fifo (rigtorp_try_push (list_push 4)) (rigtorp_try_pop list_front tl) (\<lambda>xs :: nat list. xs)
     (\<lambda>xs. length xs \<le> 4) 4 \<and>
   bounded_fifo (folly_try_push (list_push 4)) (folly_try_pop list_front tl) (\<lambda>xs :: nat list. xs)
     (\<lambda>xs. length xs \<le> 4) 4"
  by (rule wrappers_are_bounded_fifos [OF list_queue_laws])

section \<open>Test case 1: a stream\<close>

text \<open>
  \<open>producer_thread\<close> and \<open>consumer_thread\<close>: \<open>st_sent\<close> and \<open>st_got\<close> are their counters,
  \<open>st_out\<close> the consumer's variable, \<open>st_failed\<close> whether its assertion has failed.
\<close>

datatype side = Producer_Side | Consumer_Side

record 'q stream =
  st_queue :: 'q
  st_sent :: nat
  st_got :: nat
  st_out :: i32
  st_failed :: bool

definition producer_thread :: "(i32 \<Rightarrow> 'q \<Rightarrow> bool \<times> 'q) \<Rightarrow> nat \<Rightarrow> 'q stream \<Rightarrow> 'q stream option" where
  "producer_thread push n s =
     (if st_sent s < n then
        (let (b, q) = push (of_nat (st_sent s)) (st_queue s)
         in Some (s\<lparr>st_queue := q, st_sent := if b then Suc (st_sent s) else st_sent s\<rparr>))
      else None)"

definition consumer_thread :: "(i32 \<Rightarrow> 'q \<Rightarrow> bool \<times> i32 \<times> 'q) \<Rightarrow> nat \<Rightarrow> 'q stream \<Rightarrow> 'q stream option" where
  "consumer_thread pop n s =
     (if st_got s < n then
        (let (b, out, q) = pop (st_out s) (st_queue s)
         in Some (if b
                  then s\<lparr>st_queue := q, st_out := out, st_got := Suc (st_got s),
                         st_failed := st_failed s \<or> out \<noteq> of_nat (st_got s)\<rparr>
                  else s\<lparr>st_queue := q, st_out := out\<rparr>))
      else None)"

definition stream_next :: "(i32 \<Rightarrow> 'q \<Rightarrow> bool \<times> 'q) \<Rightarrow> (i32 \<Rightarrow> 'q \<Rightarrow> bool \<times> i32 \<times> 'q) \<Rightarrow> nat \<Rightarrow> side
    \<Rightarrow> 'q stream \<Rightarrow> 'q stream option" where
  "stream_next push pop n c s =
     (case c of Producer_Side \<Rightarrow> producer_thread push n s | Consumer_Side \<Rightarrow> consumer_thread pop n s)"

section \<open>Test case 2: requests and echoes\<close>

text \<open>
  \<open>producer_req\<close> sends \<open>i\<close> on \<open>q0\<close> and waits for the echo on \<open>q1\<close>; \<open>consumer_resp\<close>
  takes a value from \<open>q0\<close> and sends it back on \<open>q1\<close>.  \<open>echoes\<close> is a history variable: the
  values \<open>echo\<close> held after each round.
\<close>

datatype req_pc = Sending | Awaiting
datatype resp_pc = Taking | Answering

record 'q echo =
  e_q0 :: 'q
  e_q1 :: 'q
  req_i :: nat
  req_at :: req_pc
  req_echo :: i32
  resp_i :: nat
  resp_at :: resp_pc
  resp_val :: i32
  echoes :: "i32 list"

definition producer_req :: "(i32 \<Rightarrow> 'q \<Rightarrow> bool \<times> 'q) \<Rightarrow> (i32 \<Rightarrow> 'q \<Rightarrow> bool \<times> i32 \<times> 'q) \<Rightarrow> nat
    \<Rightarrow> 'q echo \<Rightarrow> 'q echo option" where
  "producer_req push pop n s =
     (if req_i s < n then
        (case req_at s of
           Sending \<Rightarrow>
             (let (b, q) = push (of_nat (req_i s)) (e_q0 s)
              in Some (s\<lparr>e_q0 := q, req_at := if b then Awaiting else Sending\<rparr>))
         | Awaiting \<Rightarrow>
             (let (b, out, q) = pop (req_echo s) (e_q1 s)
              in Some (if b
                       then s\<lparr>e_q1 := q, req_echo := out, echoes := echoes s @ [out],
                              req_i := Suc (req_i s), req_at := Sending\<rparr>
                       else s\<lparr>e_q1 := q, req_echo := out\<rparr>)))
      else None)"

definition consumer_resp :: "(i32 \<Rightarrow> 'q \<Rightarrow> bool \<times> 'q) \<Rightarrow> (i32 \<Rightarrow> 'q \<Rightarrow> bool \<times> i32 \<times> 'q) \<Rightarrow> nat
    \<Rightarrow> 'q echo \<Rightarrow> 'q echo option" where
  "consumer_resp push pop n s =
     (if resp_i s < n then
        (case resp_at s of
           Taking \<Rightarrow>
             (let (b, out, q) = pop (resp_val s) (e_q0 s)
              in Some (s\<lparr>e_q0 := q, resp_val := out, resp_at := if b then Answering else Taking\<rparr>))
         | Answering \<Rightarrow>
             (let (b, q) = push (resp_val s) (e_q1 s)
              in Some (if b then s\<lparr>e_q1 := q, resp_i := Suc (resp_i s), resp_at := Taking\<rparr>
                       else s\<lparr>e_q1 := q\<rparr>)))
      else None)"

definition echo_next :: "(i32 \<Rightarrow> 'q \<Rightarrow> bool \<times> 'q) \<Rightarrow> (i32 \<Rightarrow> 'q \<Rightarrow> bool \<times> i32 \<times> 'q) \<Rightarrow> nat \<Rightarrow> side
    \<Rightarrow> 'q echo \<Rightarrow> 'q echo option" where
  "echo_next push pop n c s =
     (case c of Producer_Side \<Rightarrow> producer_req push pop n s | Consumer_Side \<Rightarrow> consumer_resp push pop n s)"

definition echo_init :: "'q \<Rightarrow> 'q \<Rightarrow> i32 \<Rightarrow> i32 \<Rightarrow> 'q echo" where
  "echo_init q0 q1 echo0 val0 =
     \<lparr>e_q0 = q0, e_q1 = q1, req_i = 0, req_at = Sending, req_echo = echo0,
      resp_i = 0, resp_at = Taking, resp_val = val0, echoes = []\<rparr>"

definition echo_done :: "nat \<Rightarrow> 'q echo \<Rightarrow> bool" where
  "echo_done n s \<longleftrightarrow> req_i s = n \<and> resp_i s = n"

section \<open>Test case 3: bursts\<close>

text \<open>
  \<open>producer_burst\<close> pushes \<open>0 .. BATCH_SIZE - 1\<close>, \<open>NUM_BATCHES\<close> times; \<open>consumer_burst\<close>
  reads the clock, pops \<open>BATCH_SIZE\<close> values and appends the time they took.  \<open>b_t0\<close> is the
  clock read at the start of the batch, \<open>None\<close> between two batches.
\<close>

record 'q burst =
  b_queue :: 'q
  pb_batch :: nat
  pb_i :: nat
  cb_batch :: nat
  cb_i :: nat
  b_t0 :: "u64 option"
  b_val :: i32
  times :: "u64 list"

definition producer_burst :: "(i32 \<Rightarrow> 'q \<Rightarrow> bool \<times> 'q) \<Rightarrow> nat \<Rightarrow> nat \<Rightarrow> 'q burst \<Rightarrow> 'q burst option" where
  "producer_burst push batch_size num_batches s =
     (if pb_batch s < num_batches then
        if pb_i s < batch_size then
          (let (b, q) = push (of_nat (pb_i s)) (b_queue s)
           in Some (s\<lparr>b_queue := q, pb_i := if b then Suc (pb_i s) else pb_i s\<rparr>))
        else Some (s\<lparr>pb_batch := Suc (pb_batch s), pb_i := 0\<rparr>)
      else None)"

definition consumer_burst :: "(i32 \<Rightarrow> 'q \<Rightarrow> bool \<times> i32 \<times> 'q) \<Rightarrow> nat \<Rightarrow> nat \<Rightarrow> u64
    \<Rightarrow> 'q burst \<Rightarrow> 'q burst option" where
  "consumer_burst pop batch_size num_batches clock s =
     (if cb_batch s < num_batches then
        (case b_t0 s of
           None \<Rightarrow> Some (s\<lparr>b_t0 := Some clock, cb_i := 0\<rparr>)
         | Some t0 \<Rightarrow>
             if cb_i s < batch_size then
               (let (b, out, q) = pop (b_val s) (b_queue s)
                in Some (s\<lparr>b_queue := q, b_val := out, cb_i := if b then Suc (cb_i s) else cb_i s\<rparr>))
             else Some (s\<lparr>times := times s @ [clock - t0], b_t0 := None, cb_i := 0,
                          cb_batch := Suc (cb_batch s)\<rparr>))
      else None)"

datatype burst_choice = Burst_Producer | Burst_Consumer u64

definition burst_next :: "(i32 \<Rightarrow> 'q \<Rightarrow> bool \<times> 'q) \<Rightarrow> (i32 \<Rightarrow> 'q \<Rightarrow> bool \<times> i32 \<times> 'q) \<Rightarrow> nat \<Rightarrow> nat
    \<Rightarrow> burst_choice \<Rightarrow> 'q burst \<Rightarrow> 'q burst option" where
  "burst_next push pop batch_size num_batches c s =
     (case c of Burst_Producer \<Rightarrow> producer_burst push batch_size num_batches s
              | Burst_Consumer clock \<Rightarrow> consumer_burst pop batch_size num_batches clock s)"

definition burst_init :: "'q \<Rightarrow> i32 \<Rightarrow> 'q burst" where
  "burst_init q val0 =
     \<lparr>b_queue = q, pb_batch = 0, pb_i = 0, cb_batch = 0, cb_i = 0, b_t0 = None, b_val = val0, times = []\<rparr>"

definition burst_done :: "nat \<Rightarrow> 'q burst \<Rightarrow> bool" where
  "burst_done num_batches s \<longleftrightarrow> pb_batch s = num_batches \<and> cb_batch s = num_batches"

definition BENCH_ITERATION_COUNT_TC1 :: nat where "BENCH_ITERATION_COUNT_TC1 = 10000000"
definition BATCH_SIZE :: nat where "BATCH_SIZE = 64"
definition NUM_BATCHES :: nat where "NUM_BATCHES = 100000"

text \<open>The four cycle counts \<open>run\<close> prints for test case 3, before their conversion to
  nanoseconds.\<close>

definition burst_report :: "u64 list \<Rightarrow> u64 option list" where
  "burst_report samples =
     (let ts = sort samples; n = length ts
      in [vector_at ts (n * 25 div 100), vector_at ts (n * 50 div 100),
          vector_at ts (n * 75 div 100), vector_at ts (n * 99 div 100)])"

text \<open>\<open>to_ns\<close>, and the numbers as printed; \<open>'d\<close> stands for \<open>double\<close>.\<close>

definition burst_output :: "(u64 \<Rightarrow> 'd) \<Rightarrow> 'd :: inverse \<Rightarrow> u64 list \<Rightarrow> 'd option list" where
  "burst_output double_of_u64 ghz samples =
     (let to_ns = (\<lambda>c. double_of_u64 c / ghz) in map (map_option to_ns) (burst_report samples))"

section \<open>The test cases over any bounded queue\<close>

definition stream_init :: "'q \<Rightarrow> i32 \<Rightarrow> 'q stream" where
  "stream_init q out0 = \<lparr>st_queue = q, st_sent = 0, st_got = 0, st_out = out0, st_failed = False\<rparr>"

text \<open>Four steps to a round trip: the phase counts those made in the current one.\<close>

definition echo_phase :: "'q echo \<Rightarrow> nat" where
  "echo_phase s =
     (case req_at s of Sending \<Rightarrow> 0
      | Awaiting \<Rightarrow> if resp_at s = Answering then 2 else if resp_i s = req_i s then 1 else 3)"

text \<open>Pushes and pops of bursts made so far.\<close>

definition burst_pushed :: "nat \<Rightarrow> 'q burst \<Rightarrow> nat" where
  "burst_pushed batch_size s = batch_size * pb_batch s + pb_i s"

definition burst_popped :: "nat \<Rightarrow> 'q burst \<Rightarrow> nat" where
  "burst_popped batch_size s = batch_size * cb_batch s + cb_i s"

locale head_to_head = bounded_fifo push pop items ok limit
  for push :: "i32 \<Rightarrow> 'q \<Rightarrow> bool \<times> 'q" and pop :: "i32 \<Rightarrow> 'q \<Rightarrow> bool \<times> i32 \<times> 'q"
    and items :: "'q \<Rightarrow> i32 list" and ok :: "'q \<Rightarrow> bool" and limit :: nat +
  assumes room: "0 < limit"
begin

lemma push_cases:
  assumes "ok q" and "push x q = (b, q')"
  shows "ok q' \<and> items q' = (if b then items q @ [x] else items q) \<and> (b \<longleftrightarrow> length (items q) < limit)"
  using push_ok [OF assms(1), of x] push_items [OF assms(1), of x] push_ret [OF assms(1), of x] assms(2)
  by simp

lemma pop_cases:
  assumes "ok q" and "pop y q = (b, out, q')"
  shows "ok q' \<and> items q = (if b then out # items q' else items q') \<and> (b \<longleftrightarrow> items q \<noteq> []) \<and> (\<not> b \<longrightarrow> out = y)"
  using pop_ok [OF assms(1), of y] pop_items [OF assms(1), of y] pop_ret [OF assms(1), of y] assms(2)
  by auto

text \<open>Test case 1: the queue holds the values sent and not yet received.\<close>

definition stream_inv :: "nat \<Rightarrow> 'q stream \<Rightarrow> bool" where
  "stream_inv n s \<longleftrightarrow>
     ok (st_queue s) \<and> st_got s \<le> st_sent s \<and> st_sent s \<le> n \<and>
     items (st_queue s) = map of_nat [st_got s ..< st_sent s] \<and> \<not> st_failed s"

lemma stream_step:
  assumes i: "stream_inv n s" and step: "stream_next push pop n c s = Some t"
  shows "stream_inv n t"
proof (cases c)
  case Producer_Side
  obtain b q where p: "push (of_nat (st_sent s)) (st_queue s) = (b, q)" by fastforce
  then show ?thesis
    using push_cases [OF _ p] i step Producer_Side
    by (auto simp: stream_inv_def stream_next_def producer_thread_def split: if_splits)
next
  case Consumer_Side
  obtain b out q where p: "pop (st_out s) (st_queue s) = (b, out, q)" by (metis prod.collapse)
  show ?thesis
  proof (cases b)
    case True
    have "out # items q = map of_nat [st_got s ..< st_sent s]"
      using pop_cases [OF _ p] i True by (simp add: stream_inv_def)
    moreover from this have "st_got s < st_sent s" by (cases "st_got s < st_sent s") simp_all
    ultimately show ?thesis
      using pop_cases [OF _ p] i step Consumer_Side True p
      by (simp add: stream_inv_def stream_next_def consumer_thread_def upt_conv_Cons split: if_splits) auto
  next
    case False
    then show ?thesis
      using pop_cases [OF _ p] i step Consumer_Side p
      by (auto simp: stream_inv_def stream_next_def consumer_thread_def split: if_splits)
  qed
qed

lemma stream_progress:
  assumes i: "stream_inv n s" and left: "st_got s < n"
  shows "\<exists>c t. stream_next push pop n c s = Some t \<and> (n - st_sent t) + (n - st_got t) < (n - st_sent s) + (n - st_got s)"
proof -
  have inv: "ok (st_queue s)" "st_got s \<le> st_sent s" "st_sent s \<le> n" "length (items (st_queue s)) = st_sent s - st_got s"
    using i by (simp_all add: stream_inv_def)
  show ?thesis
  proof (cases "items (st_queue s) = []")
    case True
    then have n: "st_sent s < n" using inv left by simp
    obtain b q where p: "push (of_nat (st_sent s)) (st_queue s) = (b, q)" by fastforce
    have b using push_cases [OF inv(1) p] True room by simp
    with n p show ?thesis
      by (intro exI [of _ Producer_Side]) (simp add: stream_next_def producer_thread_def)
  next
    case False
    obtain b out q where p: "pop (st_out s) (st_queue s) = (b, out, q)" by (metis prod.collapse)
    have b using pop_cases [OF inv(1) p] False by simp
    with left p show ?thesis
      by (intro exI [of _ Consumer_Side]) (simp add: stream_next_def consumer_thread_def)
  qed
qed

text \<open>Test case 2: exactly one of four situations, one value under way.\<close>

definition echo_inv :: "nat \<Rightarrow> 'q echo \<Rightarrow> bool" where
  "echo_inv n s \<longleftrightarrow>
     ok (e_q0 s) \<and> ok (e_q1 s) \<and> req_i s \<le> n \<and> echoes s = map of_nat [0 ..< req_i s] \<and>
     (case req_at s of
        Sending \<Rightarrow> items (e_q0 s) = [] \<and> items (e_q1 s) = [] \<and> resp_at s = Taking \<and> resp_i s = req_i s
      | Awaiting \<Rightarrow> req_i s < n \<and>
          (if resp_at s = Answering
           then items (e_q0 s) = [] \<and> items (e_q1 s) = [] \<and> resp_i s = req_i s \<and> resp_val s = of_nat (req_i s)
           else if resp_i s = req_i s
           then items (e_q0 s) = [of_nat (req_i s)] \<and> items (e_q1 s) = []
           else items (e_q0 s) = [] \<and> items (e_q1 s) = [of_nat (req_i s)] \<and> resp_i s = Suc (req_i s)))"

lemma echo_req_step:
  assumes i: "echo_inv n s" and step: "producer_req push pop n s = Some t"
  shows "echo_inv n t"
proof (cases "req_at s")
  case Sending
  obtain b q where p: "push (of_nat (req_i s)) (e_q0 s) = (b, q)" by fastforce
  with i Sending push_cases [OF _ p] room have "b \<and> ok q \<and> items q = [of_nat (req_i s)]"
    by (simp add: echo_inv_def)
  with i step p Sending show ?thesis
    by (auto simp: echo_inv_def producer_req_def split: if_splits)
next
  case Awaiting
  obtain b out q where p: "pop (req_echo s) (e_q1 s) = (b, out, q)" by (metis prod.collapse)
  show ?thesis
  proof (cases b)
    case True
    with pop_cases [OF _ p] i have "ok q \<and> items (e_q1 s) = out # items q" by (simp add: echo_inv_def)
    with i step p Awaiting True show ?thesis
      by (cases "resp_at s") (auto simp: echo_inv_def producer_req_def split: if_splits)
  next
    case False
    with pop_cases [OF _ p] i have "ok q \<and> items q = items (e_q1 s)" by (simp add: echo_inv_def)
    with i step p Awaiting False show ?thesis
      by (simp add: echo_inv_def producer_req_def split: if_splits) auto
  qed
qed

lemma echo_resp_step:
  assumes i: "echo_inv n s" and step: "consumer_resp push pop n s = Some t"
  shows "echo_inv n t"
proof (cases "resp_at s")
  case Answering
  with i have a: "req_at s = Awaiting" by (cases "req_at s") (simp_all add: echo_inv_def)
  obtain b q where p: "push (resp_val s) (e_q1 s) = (b, q)" by fastforce
  with i Answering a push_cases [OF _ p] room have "b \<and> ok q \<and> items q = [of_nat (req_i s)]"
    by (simp add: echo_inv_def)
  with i step p Answering a show ?thesis
    by (simp add: echo_inv_def consumer_resp_def split: if_splits) auto
next
  case Taking
  obtain b out q where p: "pop (resp_val s) (e_q0 s) = (b, out, q)" by (metis prod.collapse)
  show ?thesis
  proof (cases b)
    case True
    with pop_cases [OF _ p] i have q: "ok q \<and> items (e_q0 s) = out # items q" by (simp add: echo_inv_def)
    with i have "req_at s = Awaiting \<and> resp_i s = req_i s"
      using Taking by (cases "req_at s") (simp_all add: echo_inv_def split: if_splits)
    with i q step p Taking True show ?thesis
      by (simp add: echo_inv_def consumer_resp_def split: if_splits) auto
  next
    case False
    with pop_cases [OF _ p] i have "ok q \<and> items q = items (e_q0 s)" by (simp add: echo_inv_def)
    with i step p Taking False show ?thesis
      by (cases "req_at s") (auto simp: echo_inv_def consumer_resp_def split: if_splits)
  qed
qed

lemma echo_step: "echo_inv n s \<Longrightarrow> echo_next push pop n c s = Some t \<Longrightarrow> echo_inv n t"
  by (cases c) (auto simp: echo_next_def intro: echo_req_step echo_resp_step)

lemma echo_progress:
  assumes i: "echo_inv n s" and left: "\<not> echo_done n s"
  shows "\<exists>c t. echo_next push pop n c s = Some t \<and>
           4 * (n - req_i t) - echo_phase t < 4 * (n - req_i s) - echo_phase s"
proof -
  obtain b q where p: "push (of_nat (req_i s)) (e_q0 s) = (b, q)" by fastforce
  obtain b' out q' where p': "pop (req_echo s) (e_q1 s) = (b', out, q')" by (metis prod.collapse)
  obtain c r where r: "push (resp_val s) (e_q1 s) = (c, r)" by fastforce
  obtain c' out' r' where r': "pop (resp_val s) (e_q0 s) = (c', out', r')" by (metis prod.collapse)
  let ?done = "\<lambda>side. \<exists>t. echo_next push pop n side s = Some t \<and>
      4 * (n - req_i t) - echo_phase t < 4 * (n - req_i s) - echo_phase s"
  note defs = echo_inv_def echo_next_def producer_req_def consumer_resp_def echo_phase_def echo_done_def
  have "?done Producer_Side \<or> ?done Consumer_Side"
  proof (cases "req_at s")
    case Sending
    with i left have n: "req_i s < n" by (auto simp: defs)
    have b using Sending i push_cases [OF _ p] room by (simp add: echo_inv_def)
    with Sending n i p have "?done Producer_Side" by (simp add: defs)
    then show ?thesis ..
  next
    case Awaiting
    then have n: "req_i s < n" using i by (simp add: echo_inv_def)
    show ?thesis
    proof (cases "resp_at s")
      case Answering
      with Awaiting i have c using push_cases [OF _ r] room by (simp add: echo_inv_def)
      with Awaiting Answering n i r have "?done Consumer_Side" by (simp add: defs)
      then show ?thesis ..
    next
      case Taking
      show ?thesis
      proof (cases "resp_i s = req_i s")
        case True
        with Awaiting Taking i have c' using pop_cases [OF _ r'] by (simp add: echo_inv_def)
        with Awaiting Taking True n i r' have "?done Consumer_Side" by (simp add: defs)
        then show ?thesis ..
      next
        case False
        with Awaiting Taking i have b' using pop_cases [OF _ p'] by (simp add: echo_inv_def)
        with Awaiting Taking False n i p' have "?done Producer_Side" by (simp add: defs)
        then show ?thesis ..
      qed
    qed
  qed
  then show ?thesis by blast
qed

lemma echo_completes: "echo_inv n s \<Longrightarrow> \<exists>t. reach (echo_next push pop n) s t \<and> echo_done n t"
proof (induction "4 * (n - req_i s) - echo_phase s" arbitrary: s rule: less_induct)
  case less
  show ?case
  proof (cases "echo_done n s")
    case False
    then obtain c t where t: "echo_next push pop n c s = Some t"
      "4 * (n - req_i t) - echo_phase t < 4 * (n - req_i s) - echo_phase s"
      using echo_progress [OF less.prems] by blast
    obtain u where "reach (echo_next push pop n) t u" "echo_done n u"
      using less.hyps [OF t(2) echo_step [OF less.prems t(1)]] by blast
    with reach_step [where nxt = "echo_next push pop n", OF reach_start t(1)] show ?thesis
      by (blast intro: reach_trans)
  qed (blast intro: reach_start)
qed

text \<open>Test case 3: the queue holds the pushes not yet popped, each its number modulo the batch size.\<close>

definition burst_inv :: "nat \<Rightarrow> nat \<Rightarrow> 'q burst \<Rightarrow> bool" where
  "burst_inv bs nb s \<longleftrightarrow>
     ok (b_queue s) \<and>
     pb_i s \<le> bs \<and> pb_batch s \<le> nb \<and> (pb_batch s = nb \<longrightarrow> pb_i s = 0) \<and>
     cb_i s \<le> bs \<and> cb_batch s \<le> nb \<and> (b_t0 s = None \<longrightarrow> cb_i s = 0) \<and> (cb_batch s = nb \<longrightarrow> b_t0 s = None) \<and>
     burst_popped bs s \<le> burst_pushed bs s \<and>
     items (b_queue s) = map (\<lambda>k. of_nat (k mod bs)) [burst_popped bs s ..< burst_pushed bs s] \<and>
     length (times s) = cb_batch s"

lemma producer_burst_step:
  assumes i: "burst_inv bs nb s" and step: "producer_burst push bs nb s = Some t"
  shows "burst_inv bs nb t"
proof (cases "pb_i s < bs")
  case True
  obtain b q where p: "push (of_nat (pb_i s)) (b_queue s) = (b, q)" by fastforce
  have "burst_pushed bs s mod bs = pb_i s" using True by (simp add: burst_pushed_def)
  moreover have "ok q \<and> items q = (if b then items (b_queue s) @ [of_nat (pb_i s)] else items (b_queue s))"
    using push_cases [OF _ p] i by (simp add: burst_inv_def)
  ultimately show ?thesis
    using i step p True
    by (auto simp: burst_inv_def producer_burst_def burst_pushed_def burst_popped_def split: if_splits)
next
  case False
  then have "pb_i s = bs" using i by (simp add: burst_inv_def)
  then show ?thesis
    using i step
    by (auto simp: burst_inv_def producer_burst_def burst_pushed_def burst_popped_def add.commute split: if_splits)
qed

lemma consumer_burst_step:
  assumes i: "burst_inv bs nb s" and step: "consumer_burst pop bs nb clock s = Some t"
  shows "burst_inv bs nb t"
proof (cases "b_t0 s")
  case None
  then show ?thesis
    using i step by (auto simp: burst_inv_def consumer_burst_def burst_pushed_def burst_popped_def split: if_splits)
next
  case (Some t0)
  have okq: "ok (b_queue s)" using i by (simp add: burst_inv_def)
  show ?thesis
  proof (cases "cb_i s < bs")
    case True
    obtain b out q where p: "pop (b_val s) (b_queue s) = (b, out, q)" by (metis prod.collapse)
    have q: "ok q \<and> items (b_queue s) = (if b then out # items q else items q) \<and> (b \<longleftrightarrow> items (b_queue s) \<noteq> [])"
      using pop_cases [OF okq p] by blast
    show ?thesis
    proof (cases b)
      case b: True
      have "burst_popped bs s < burst_pushed bs s"
        using q b i by (cases "burst_popped bs s < burst_pushed bs s") (simp_all add: burst_inv_def)
      note lt = this
      have t: "t = s\<lparr>b_queue := q, b_val := out, cb_i := Suc (cb_i s)\<rparr>"
        using step p True Some b by (simp add: consumer_burst_def split: if_splits)
      have popped: "burst_popped bs t = Suc (burst_popped bs s)" "burst_pushed bs t = burst_pushed bs s"
        by (simp_all add: t burst_popped_def burst_pushed_def)
      have "out # items q = map (\<lambda>k. of_nat (k mod bs)) [burst_popped bs s ..< burst_pushed bs s]"
        using q b i by (simp add: burst_inv_def)
      then have "items q = map (\<lambda>k. of_nat (k mod bs)) [Suc (burst_popped bs s) ..< burst_pushed bs s]"
        using lt by (simp add: upt_conv_Cons)
      moreover have "ok q" using q by blast
      moreover have "cb_batch s < nb" using i Some by (auto simp: burst_inv_def)
      ultimately show ?thesis
        using i lt True Some unfolding burst_inv_def popped by (simp add: t)
    next
      case False
      then have t: "t = s\<lparr>b_queue := q, b_val := out\<rparr>"
        using step p True Some by (simp add: consumer_burst_def split: if_splits)
      have "items q = items (b_queue s)" "ok q" using q False by simp_all
      then show ?thesis
        using i by (simp add: t burst_inv_def burst_pushed_def burst_popped_def)
    qed
  next
    case False
    then have "cb_i s = bs" using i by (simp add: burst_inv_def)
    with Some show ?thesis
      using i step
      by (auto simp: burst_inv_def consumer_burst_def burst_pushed_def burst_popped_def add.commute split: if_splits)
  qed
qed

lemma burst_step: "burst_inv bs nb s \<Longrightarrow> burst_next push pop bs nb c s = Some t \<Longrightarrow> burst_inv bs nb t"
  by (cases c) (auto simp: burst_next_def intro: producer_burst_step consumer_burst_step)

text \<open>Steps of the two loops still to be made.\<close>

definition burst_left :: "nat \<Rightarrow> nat \<Rightarrow> 'q burst \<Rightarrow> nat" where
  "burst_left bs nb s =
     ((nb - pb_batch s) * Suc bs - pb_i s) +
     ((nb - cb_batch s) * Suc (Suc bs) - (case b_t0 s of None \<Rightarrow> 0 | Some t0 \<Rightarrow> Suc (cb_i s)))"

lemma consumer_burst_progress:
  assumes i: "burst_inv bs nb s" and left: "cb_batch s < nb"
    and go: "b_t0 s \<noteq> None \<Longrightarrow> cb_i s < bs \<Longrightarrow> items (b_queue s) \<noteq> []"
  shows "\<exists>t. consumer_burst pop bs nb clock s = Some t \<and> burst_left bs nb t < burst_left bs nb s"
proof -
  obtain d where d: "nb - cb_batch s = Suc d" "nb - Suc (cb_batch s) = d" using left by (cases "nb - cb_batch s") auto
  have bound: "cb_i s \<le> bs" using i by (simp add: burst_inv_def)
  show ?thesis
  proof (cases "b_t0 s")
    case None
    then show ?thesis using left d by (simp add: consumer_burst_def burst_left_def)
  next
    case (Some t0)
    show ?thesis
    proof (cases "cb_i s < bs")
      case True
      obtain b out q where p: "pop (b_val s) (b_queue s) = (b, out, q)" by (metis prod.collapse)
      have "ok (b_queue s)" using i by (simp add: burst_inv_def)
      from pop_cases [OF this p] have b using go Some True by blast
      then show ?thesis using left d Some True p by (simp add: consumer_burst_def burst_left_def) arith
    next
      case False
      then have "cb_i s = bs" using bound by simp
      then show ?thesis using left d Some by (simp add: consumer_burst_def burst_left_def)
    qed
  qed
qed

lemma burst_progress:
  assumes i: "burst_inv bs nb s" and left: "\<not> burst_done nb s"
  shows "\<exists>c t. burst_next push pop bs nb c s = Some t \<and> burst_left bs nb t < burst_left bs nb s"
proof -
  have inv: "ok (b_queue s)" "pb_i s \<le> bs" "pb_batch s \<le> nb" "cb_batch s \<le> nb" "cb_i s \<le> bs"
    "pb_batch s = nb \<Longrightarrow> pb_i s = 0" "cb_batch s = nb \<Longrightarrow> b_t0 s = None" "b_t0 s = None \<Longrightarrow> cb_i s = 0"
    "length (items (b_queue s)) = burst_pushed bs s - burst_popped bs s" "burst_popped bs s \<le> burst_pushed bs s"
    using i by (simp_all add: burst_inv_def)
  show ?thesis
  proof (cases "pb_batch s < nb \<and> (pb_i s < bs \<longrightarrow> length (items (b_queue s)) < limit)")
    case True
    obtain d where d: "nb - pb_batch s = Suc d" "nb - Suc (pb_batch s) = d" using True by (cases "nb - pb_batch s") auto
    obtain b q where p: "push (of_nat (pb_i s)) (b_queue s) = (b, q)" by fastforce
    have b if "pb_i s < bs" using push_cases [OF inv(1) p] True that by blast
    then have "\<exists>t. burst_next push pop bs nb Burst_Producer s = Some t \<and> burst_left bs nb t < burst_left bs nb s"
      using True d p inv(2)
      by (cases "pb_i s < bs"; cases "b_t0 s"; simp add: burst_next_def producer_burst_def burst_left_def) arith+
    then show ?thesis by blast
  next
    case False
    have pops: "cb_batch s < nb \<and> (b_t0 s \<noteq> None \<longrightarrow> cb_i s < bs \<longrightarrow> items (b_queue s) \<noteq> [])"
    proof (cases "pb_batch s < nb")
      case True
      then have full: "items (b_queue s) \<noteq> []" using False room by auto
      have "cb_batch s \<noteq> nb"
      proof
        assume "cb_batch s = nb"
        moreover have "bs * pb_batch s + pb_i s \<le> bs * nb"
        proof -
          have "bs * Suc (pb_batch s) \<le> bs * nb" using True by (intro mult_le_mono2) simp
          then show ?thesis using inv(2) by simp
        qed
        ultimately have "burst_pushed bs s \<le> burst_popped bs s" by (simp add: burst_pushed_def burst_popped_def)
        then show False using full inv(9) by simp
      qed
      then show ?thesis using full inv(4) by simp
    next
      case False
      then have eq: "pb_batch s = nb" "pb_i s = 0" using inv(3,6) by simp_all
      then have c: "cb_batch s < nb" using left inv(4) by (auto simp: burst_done_def)
      have "items (b_queue s) \<noteq> []" if "cb_i s < bs"
      proof -
        have "bs * Suc (cb_batch s) \<le> bs * nb" using c by (intro mult_le_mono2) simp
        then have "burst_popped bs s < burst_pushed bs s"
          using that eq by (simp add: burst_pushed_def burst_popped_def)
        then show ?thesis using inv(9) by auto
      qed
      then show ?thesis using c by blast
    qed
    then obtain t where "consumer_burst pop bs nb 0 s = Some t" "burst_left bs nb t < burst_left bs nb s"
      using consumer_burst_progress [OF i] by blast
    then show ?thesis by (intro exI [of _ "Burst_Consumer 0"]) (simp add: burst_next_def)
  qed
qed

lemma stream_reach:
  "reach (stream_next push pop n) (stream_init q out0) s \<Longrightarrow> ok q \<Longrightarrow> items q = [] \<Longrightarrow> stream_inv n s"
proof (induction rule: reach.induct)
  case reach_start
  then show ?case by (simp add: stream_inv_def stream_init_def)
qed (blast intro: stream_step)

lemma echo_reach:
  "reach (echo_next push pop n) (echo_init q0 q1 e v) s \<Longrightarrow>
     ok q0 \<Longrightarrow> items q0 = [] \<Longrightarrow> ok q1 \<Longrightarrow> items q1 = [] \<Longrightarrow> echo_inv n s"
proof (induction rule: reach.induct)
  case reach_start
  then show ?case by (simp add: echo_inv_def echo_init_def)
qed (blast intro: echo_step)

lemma burst_reach:
  "reach (burst_next push pop bs nb) (burst_init q v) s \<Longrightarrow> ok q \<Longrightarrow> items q = [] \<Longrightarrow> burst_inv bs nb s"
proof (induction rule: reach.induct)
  case reach_start
  then show ?case by (simp add: burst_inv_def burst_init_def burst_pushed_def burst_popped_def)
qed (blast intro: burst_step)

end

text \<open>The five queue sizes of \<open>main\<close>, for the repository's queue.\<close>

lemma my_head_to_head: "0 < unat N \<Longrightarrow> head_to_head (my_try_push N) (my_try_pop N) (contents N) (spsc_ok N) (unat N)"
  by (intro head_to_head.intro my_wrapper.bounded_fifo_axioms head_to_head_axioms.intro)

interpretation mine_64: head_to_head "my_try_push 64" "my_try_pop 64" "contents 64" "spsc_ok 64" "unat (64 :: u64)"
  by (rule my_head_to_head) simp

interpretation mine_128: head_to_head "my_try_push 128" "my_try_pop 128" "contents 128" "spsc_ok 128" "unat (128 :: u64)"
  by (rule my_head_to_head) simp

interpretation mine_256: head_to_head "my_try_push 256" "my_try_pop 256" "contents 256" "spsc_ok 256" "unat (256 :: u64)"
  by (rule my_head_to_head) simp

interpretation mine_512: head_to_head "my_try_push 512" "my_try_pop 512" "contents 512" "spsc_ok 512" "unat (512 :: u64)"
  by (rule my_head_to_head) simp

interpretation mine_1024: head_to_head "my_try_push 1024" "my_try_pop 1024" "contents 1024" "spsc_ok 1024" "unat (1024 :: u64)"
  by (rule my_head_to_head) simp

text \<open>A new queue of the smallest size, for the witnesses.\<close>

definition fresh_64 :: "i32 spsc_queue" where
  "fresh_64 = spsc_new (replicate 64 0)"

lemma fresh_64: "spsc_ok 64 fresh_64" "contents 64 fresh_64 = []"
proof -
  have "capacity_ok 64" by code_simp
  then show "spsc_ok 64 fresh_64" unfolding fresh_64_def by (rule spsc_new_ok) simp
qed (simp add: fresh_64_def)

text \<open>
  Test case 1 cannot fail on any queue that keeps the contract: the value popped
  is always the one the consumer asserts, so the queue holds exactly the values sent and not
  yet received, in order.
\<close>

theorem stream_in_order:
  assumes "bounded_fifo push pop items ok limit" and "0 < limit" and "ok q" and "items q = []"
    and "reach (stream_next push pop n) (stream_init q out0) s"
  shows "\<not> st_failed s \<and> items (st_queue s) = map of_nat [st_got s ..< st_sent s] \<and> st_sent s \<le> n"
proof -
  have h: "head_to_head push pop items ok limit"
    using assms(1,2) by (intro head_to_head.intro head_to_head_axioms.intro)
  from head_to_head.stream_reach [OF h assms(5,3,4)] show ?thesis
    by (simp add: head_to_head.stream_inv_def [OF h])
qed

theorem stream_in_order_witness:
  "\<exists>s. reach (stream_next (my_try_push 64) (my_try_pop 64) 3) (stream_init fresh_64 9) s \<and>
       st_got s = 1 \<and> st_sent s = 2 \<and> \<not> st_failed s \<and> contents 64 (st_queue s) = [1]"
proof -
  let ?run = "run_to (stream_next (my_try_push 64) (my_try_pop 64) 3)
      [Consumer_Side, Producer_Side, Consumer_Side, Producer_Side] (stream_init fresh_64 9)
      (\<lambda>s. st_got s = 1 \<and> st_sent s = 2)"
  have ?run by code_simp
  then obtain s where s: "reach (stream_next (my_try_push 64) (my_try_pop 64) 3) (stream_init fresh_64 9) s"
      "st_got s = 1" "st_sent s = 2"
    by (blast dest: run_toD)
  from stream_in_order [OF my_wrapper.bounded_fifo_axioms [of 64] mine_64.room fresh_64 s(1)] s(2,3)
  have "\<not> st_failed s \<and> contents 64 (st_queue s) = [1]" by (simp add: upt_rec)
  with s show ?thesis by blast
qed

text \<open>
  In test case 2 every request comes back: after each round the echo is the
  value sent in that round, at most one value is under way, so no push is ever refused; and
  from every state the two threads can get into, both can still finish all rounds.
\<close>

theorem echo_round_trips:
  assumes "bounded_fifo push pop items ok limit" and "0 < limit"
    and "ok q0" "items q0 = []" "ok q1" "items q1 = []"
    and "reach (echo_next push pop n) (echo_init q0 q1 e v) s"
  shows "echoes s = map of_nat [0 ..< req_i s] \<and>
         length (items (e_q0 s)) + length (items (e_q1 s)) \<le> 1 \<and>
         (\<exists>t. reach (echo_next push pop n) s t \<and> echo_done n t \<and> echoes t = map of_nat [0 ..< n])"
proof -
  have h: "head_to_head push pop items ok limit"
    using assms(1,2) by (intro head_to_head.intro head_to_head_axioms.intro)
  note inv_def = head_to_head.echo_inv_def [OF h]
  have i: "head_to_head.echo_inv items ok n s" by (rule head_to_head.echo_reach [OF h assms(7,3-6)])
  obtain t where t: "reach (echo_next push pop n) s t" "echo_done n t"
    using head_to_head.echo_completes [OF h i] by blast
  have "head_to_head.echo_inv items ok n t"
    by (rule head_to_head.echo_reach [OF h reach_trans [OF assms(7) t(1)] assms(3-6)])
  then have "echoes t = map of_nat [0 ..< n]" using t(2) by (simp add: inv_def echo_done_def)
  moreover have "length (items (e_q0 s)) + length (items (e_q1 s)) \<le> 1"
    using i by (auto simp: inv_def split: req_pc.splits if_splits)
  ultimately show ?thesis using i t by (auto simp: inv_def)
qed

theorem echo_round_trips_witness:
  "\<exists>s t. reach (echo_next (my_try_push 64) (my_try_pop 64) 3) (echo_init fresh_64 fresh_64 9 9) s \<and>
     req_i s = 1 \<and> echoes s = [0] \<and>
     reach (echo_next (my_try_push 64) (my_try_pop 64) 3) s t \<and> echoes t = map of_nat [0 ..< 3]"
proof -
  have "run_to (echo_next (my_try_push 64) (my_try_pop 64) 3)
      [Consumer_Side, Producer_Side, Producer_Side, Consumer_Side, Consumer_Side, Producer_Side]
      (echo_init fresh_64 fresh_64 9 9) (\<lambda>s. req_i s = 1)"
    by code_simp
  then obtain s where s: "reach (echo_next (my_try_push 64) (my_try_pop 64) 3) (echo_init fresh_64 fresh_64 9 9) s"
      "req_i s = 1"
    by (blast dest: run_toD)
  from echo_round_trips [OF my_wrapper.bounded_fifo_axioms [of 64] mine_64.room fresh_64 fresh_64 s(1)] s
  show ?thesis by auto
qed

text \<open>The four percentiles printed are elements of the right rank.\<close>

lemma burst_report_ranks:
  assumes l: "length ts = nb" and "0 < nb"
  shows "\<exists>p25 p50 p75 p99. burst_report ts = [Some p25, Some p50, Some p75, Some p99] \<and>
           has_rank ts (nb * 25 div 100) p25 \<and> has_rank ts (nb * 50 div 100) p50 \<and>
           has_rank ts (nb * 75 div 100) p75 \<and> has_rank ts (nb * 99 div 100) p99"
proof -
  have rank: "vector_at (sort ts) (nb * p div 100) = Some (sort ts ! (nb * p div 100)) \<and>
      has_rank ts (nb * p div 100) (sort ts ! (nb * p div 100))" if "p < 100" for p
  proof -
    have "nb * p div 100 < nb" using that assms(2) by (simp add: div_less_iff_less_mult)
    then show ?thesis
      using l sorted_has_rank [of "sort ts" "nb * p div 100"] by (simp add: vector_at_def has_rank_sort)
  qed
  show ?thesis
    using rank [of 25] rank [of 50] rank [of 75] rank [of 99] l by (simp add: burst_report_def Let_def)
qed

text \<open>
  In test case 3 the batches stay aligned: the queue always holds the pushed and
  not yet popped values, each its number modulo the batch size, one time is recorded per
  finished batch, and when both threads have ended the queue is empty, every batch has its
  time, and the four percentiles printed are elements of the right rank.
\<close>

theorem burst_measures_every_batch:
  assumes "bounded_fifo push pop items ok limit" and "0 < limit" and "ok q" "items q = []" and "0 < nb"
    and "reach (burst_next push pop bs nb) (burst_init q v) s"
  shows "items (b_queue s) =
           map (\<lambda>k. of_nat (k mod bs)) [burst_popped bs s ..< burst_pushed bs s] \<and>
         length (times s) = cb_batch s \<and>
         (burst_done nb s \<longrightarrow> items (b_queue s) = [] \<and> length (times s) = nb \<and>
           (\<exists>p25 p50 p75 p99. burst_report (times s) = [Some p25, Some p50, Some p75, Some p99] \<and>
              has_rank (times s) (nb * 25 div 100) p25 \<and> has_rank (times s) (nb * 50 div 100) p50 \<and>
              has_rank (times s) (nb * 75 div 100) p75 \<and> has_rank (times s) (nb * 99 div 100) p99))"
proof -
  have h: "head_to_head push pop items ok limit"
    using assms(1,2) by (intro head_to_head.intro head_to_head_axioms.intro)
  have i: "head_to_head.burst_inv items ok bs nb s" by (rule head_to_head.burst_reach [OF h assms(6,3,4)])
  note inv = i [unfolded head_to_head.burst_inv_def [OF h]]
  show ?thesis
  proof (intro conjI impI)
    assume d: "burst_done nb s"
    then have l: "length (times s) = nb" using inv by (simp add: burst_done_def)
    then show "length (times s) = nb" .
    show "items (b_queue s) = []"
      using inv d by (simp add: burst_done_def burst_popped_def burst_pushed_def)
    show "\<exists>p25 p50 p75 p99. burst_report (times s) = [Some p25, Some p50, Some p75, Some p99] \<and>
              has_rank (times s) (nb * 25 div 100) p25 \<and> has_rank (times s) (nb * 50 div 100) p50 \<and>
              has_rank (times s) (nb * 75 div 100) p75 \<and> has_rank (times s) (nb * 99 div 100) p99"
      by (rule burst_report_ranks [OF l assms(5)])
  qed (use inv in simp_all)
qed

theorem burst_measures_every_batch_witness:
  "\<exists>s. reach (burst_next (my_try_push 64) (my_try_pop 64) 2 1) (burst_init fresh_64 9) s \<and>
       burst_done 1 s \<and> contents 64 (b_queue s) = [] \<and> times s = [7]"
proof -
  have "run_to (burst_next (my_try_push 64) (my_try_pop 64) 2 1)
      [Burst_Consumer 3, Burst_Producer, Burst_Consumer 4, Burst_Producer, Burst_Producer,
       Burst_Consumer 5, Burst_Consumer 10]
      (burst_init fresh_64 9) (\<lambda>s. burst_done 1 s \<and> times s = [7])"
    by code_simp
  then obtain s where s: "reach (burst_next (my_try_push 64) (my_try_pop 64) 2 1) (burst_init fresh_64 9) s"
      "burst_done 1 s" "times s = [7]"
    by (blast dest: run_toD)
  from burst_measures_every_batch [OF my_wrapper.bounded_fifo_axioms [of 64] mine_64.room fresh_64 _ s(1)] s
  show ?thesis by auto
qed

section \<open>Dispatch\<close>

text \<open>
  The test that runs, on which queue and of which size, or the message printed instead.
  \<open>main\<close> (on Linux) returns the exit code; an exception of \<open>std::stoi\<close> is not caught.
\<close>

datatype target = Mine | Rigtorp | Moodycamel | Folly | Boost

datatype outcome =
    Stream_Test target int nat
  | Echo_Test target int nat
  | Burst_Test target int
  | Bad_Test_Case | Bad_Target string | Bad_Queue_Size | Usage

definition run_test_case :: "target \<Rightarrow> int \<Rightarrow> int \<Rightarrow> outcome" where
  "run_test_case tgt qsize test_case =
     (if test_case = 1 then Stream_Test tgt qsize BENCH_ITERATION_COUNT_TC1
      else if test_case = 2 then Echo_Test tgt qsize BENCH_ITERATION_COUNT_TC1
      else if test_case = 3 then Burst_Test tgt qsize
      else Bad_Test_Case)"

definition run_for_target :: "int \<Rightarrow> string \<Rightarrow> int \<Rightarrow> outcome" where
  "run_for_target qsize tgt test_case =
     (if tgt = ''mine'' then run_test_case Mine qsize test_case
      else if tgt = ''rigtorp'' then run_test_case Rigtorp qsize test_case
      else if tgt = ''moodycamel'' then run_test_case Moodycamel qsize test_case
      else if tgt = ''folly'' then run_test_case Folly qsize test_case
      else if tgt = ''boost'' then run_test_case Boost qsize test_case
      else Bad_Target tgt)"

definition head_to_head_main :: "string list \<Rightarrow> stoi_error + int \<times> outcome" where
  "head_to_head_main argv =
     (if length argv \<noteq> 4 then Inr (1, Usage)
      else
        case stoi (argv ! 2) of
          Inl e \<Rightarrow> Inl e
        | Inr test_case \<Rightarrow>
            (case stoi (argv ! 3) of
               Inl e \<Rightarrow> Inl e
             | Inr queue_size \<Rightarrow>
                 if queue_size = 64 then Inr (0, run_for_target 64 (argv ! 1) test_case)
                 else if queue_size = 128 then Inr (0, run_for_target 128 (argv ! 1) test_case)
                 else if queue_size = 256 then Inr (0, run_for_target 256 (argv ! 1) test_case)
                 else if queue_size = 512 then Inr (0, run_for_target 512 (argv ! 1) test_case)
                 else if queue_size = 1024 then Inr (0, run_for_target 1024 (argv ! 1) test_case)
                 else Inr (1, Bad_Queue_Size)))"

text \<open>
  The exit code only reflects the number of arguments and the queue size: with
  three arguments whose numbers can be read it is zero exactly for the sizes 64 to 1024, also
  if the target or the test case is not valid and nothing is run; the size 2048, which the
  usage text offers, is refused.
\<close>

theorem head_to_head_exit_code:
  assumes "int_min \<le> tc" "tc \<le> int_max" "int_min \<le> qsize" "qsize \<le> int_max"
  shows "\<exists>out. head_to_head_main [prog, tgt, to_string tc, to_string qsize] =
             Inr (if qsize \<in> {64, 128, 256, 512, 1024} then 0 else 1, out) \<and>
           (out = Bad_Queue_Size \<longleftrightarrow> qsize \<notin> {64, 128, 256, 512, 1024}) \<and>
           (out \<in> {Bad_Test_Case, Bad_Target tgt} \<longleftrightarrow>
              qsize \<in> {64, 128, 256, 512, 1024} \<and>
              (tgt \<notin> {''mine'', ''rigtorp'', ''moodycamel'', ''folly'', ''boost''} \<or> tc \<notin> {1, 2, 3}))"
  using stoi_to_string [OF assms(1,2)] stoi_to_string [OF assms(3,4)]
  by (simp add: head_to_head_main_def run_for_target_def run_test_case_def)

theorem head_to_head_exit_code_witness:
  "\<exists>out. head_to_head_main [''spsc_head_to_head'', ''mine'', to_string 1, to_string 2048] = Inr (1, out) \<and>
         out = Bad_Queue_Size"
  using head_to_head_exit_code [of 1 2048 "''spsc_head_to_head''" "''mine''"]
  by (auto simp: int_min_def int_max_def)

end
