(* ===== verification/Stepwise_Fifo.thy ===== *)
theory Stepwise_Fifo
  imports Head_To_Head
begin

text \<open>
  The worker loops of \<open>bench/spsc_head_to_head.cpp\<close> over a queue whose calls take several
  steps, which the two threads interleave.  Every loop of the source repeats a call that returns
  false with the same argument and does nothing else, so a call in progress looks to it like one
  that has not succeeded yet: the loops of \<open>Head_To_Head\<close> are run unchanged on the single steps
  of a call, where a step answers true when the call returns true.

  The locale \<open>stepwise_fifo\<close> is the contract of such a queue: a call takes effect at one of its
  steps and returns later.  Its lemmas show that the loops do then what they do on a queue of
  atomic calls, and that they can always finish.
\<close>

section \<open>The queue of atomic calls\<close>

definition list_pop :: "'T \<Rightarrow> 'T list \<Rightarrow> bool \<times> 'T \<times> 'T list" where
  "list_pop y xs = (case xs of [] \<Rightarrow> (False, y, []) | x # xs' \<Rightarrow> (True, x, xs'))"

lemma list_queue: "0 < limit \<Longrightarrow> head_to_head (list_push limit) list_pop (\<lambda>xs. xs) (\<lambda>xs. length xs \<le> limit) limit"
  by unfold_locales (auto simp: list_push_def list_pop_def split: list.splits)

section \<open>The contract\<close>

text \<open>
  The number is the scheduler's choice in a step.  \<open>calling\<close> is the argument of a push that has
  begun and not taken effect, \<open>published\<close> says that a push has taken effect and not returned,
  \<open>taken\<close> is the item of a pop that has taken effect and not returned.  The ranks bound the
  steps a call needs until it takes effect, when it can.
\<close>

locale stepwise_fifo =
  fixes push :: "nat \<Rightarrow> 'a \<Rightarrow> 'q \<Rightarrow> bool \<times> 'q"
    and pop :: "nat \<Rightarrow> 'a \<Rightarrow> 'q \<Rightarrow> bool \<times> 'a \<times> 'q"
    and items :: "'q \<Rightarrow> 'a list"
    and ok :: "'q \<Rightarrow> bool"
    and limit :: nat
    and calling :: "'q \<Rightarrow> 'a option"
    and published :: "'q \<Rightarrow> bool"
    and taken :: "'q \<Rightarrow> 'a option"
    and push_left :: "'q \<Rightarrow> nat"
    and pop_left :: "'q \<Rightarrow> nat"
  assumes push_law: "ok q \<Longrightarrow> calling q \<in> {None, Some x} \<Longrightarrow> push k x q = (b, q') \<Longrightarrow>
      ok q' \<and> taken q' = taken q \<and> calling q' \<in> {None, Some x} \<and> b = published q \<and>
      (if published q then \<not> published q' \<and> calling q' = None \<and> items q' = items q
       else if published q' then calling q' = None \<and> items q' = items q @ [x] \<and> length (items q) < limit
       else items q' = items q)"
    and pop_law: "ok q \<Longrightarrow> pop k y q = (b, out, q') \<Longrightarrow>
      ok q' \<and> published q' = published q \<and> calling q' = calling q \<and>
      (case taken q of
         Some v \<Rightarrow> b \<and> out = v \<and> taken q' = None \<and> items q' = items q
       | None \<Rightarrow> \<not> b \<and> out = y \<and> items q = (case taken q' of None \<Rightarrow> items q' | Some v \<Rightarrow> v # items q'))"
    and published_call: "ok q \<Longrightarrow> published q \<Longrightarrow> calling q = None"
    and push_progress: "ok q \<Longrightarrow> calling q \<in> {None, Some x} \<Longrightarrow> \<not> published q \<Longrightarrow> length (items q) < limit \<Longrightarrow>
      \<exists>k. published (snd (push k x q)) \<or> push_left (snd (push k x q)) < push_left q"
    and pop_progress: "ok q \<Longrightarrow> taken q = None \<Longrightarrow> items q \<noteq> [] \<Longrightarrow>
      \<exists>k. taken (snd (snd (pop k y q))) \<noteq> None \<or> pop_left (snd (snd (pop k y q))) < pop_left q"
begin

text \<open>One step of a call, by what it did.\<close>

lemma push_step_cases:
  assumes "ok q" and "calling q \<in> {None, Some x}" and "push k x q = (b, q')"
  obtains (returns) "b" "published q" "\<not> published q'" "calling q' = None" "items q' = items q"
      "ok q'" "taken q' = taken q"
    | (commits) "\<not> b" "\<not> published q" "published q'" "calling q' = None" "items q' = items q @ [x]"
      "length (items q) < limit" "ok q'" "taken q' = taken q"
    | (moves) "\<not> b" "\<not> published q" "\<not> published q'" "calling q' \<in> {None, Some x}" "items q' = items q"
      "ok q'" "taken q' = taken q"
  using push_law [OF assms] by (cases "published q"; cases "published q'") auto

lemma pop_step_cases:
  assumes "ok q" and "pop k y q = (b, out, q')"
  obtains (returns) v where "b" "taken q = Some v" "out = v" "taken q' = None" "items q' = items q"
      "ok q'" "published q' = published q" "calling q' = calling q"
    | (commits) v where "\<not> b" "taken q = None" "taken q' = Some v" "out = y" "items q = v # items q'"
      "ok q'" "published q' = published q" "calling q' = calling q"
    | (moves) "\<not> b" "taken q = None" "taken q' = None" "out = y" "items q = items q'"
      "ok q'" "published q' = published q" "calling q' = calling q"
  using pop_law [OF assms] by (cases "taken q"; cases "taken q'") auto

text \<open>The steps of a call that do not return yet, and a call that takes effect in the end.\<close>

definition push_pending :: "'a \<Rightarrow> nat \<Rightarrow> 'q \<Rightarrow> 'q option" where
  "push_pending x k q = (let (b, q') = push k x q in if b then None else Some q')"

definition pop_pending :: "'a \<Rightarrow> nat \<Rightarrow> 'q \<Rightarrow> 'q option" where
  "pop_pending y k q = (let (b, out, q') = pop k y q in if b \<or> out \<noteq> y then None else Some q')"

lemma push_commits:
  assumes "ok q" and "calling q \<in> {None, Some x}" and "\<not> published q" and "length (items q) < limit"
  shows "\<exists>q'. reach (push_pending x) q q' \<and> ok q' \<and> published q' \<and> calling q' = None \<and>
              taken q' = taken q \<and> items q' = items q @ [x]"
  using assms
proof (induction "push_left q" arbitrary: q rule: less_induct)
  case less
  obtain k where k: "published (snd (push k x q)) \<or> push_left (snd (push k x q)) < push_left q"
    using push_progress [OF less.prems] by blast
  obtain b q1 where p: "push k x q = (b, q1)" by fastforce
  from less.prems(1,2) p show ?case
  proof (cases rule: push_step_cases)
    case commits
    then have "push_pending x k q = Some q1" using p by (simp add: push_pending_def)
    then show ?thesis using commits by (blast intro: reach_one)
  next
    case moves
    then have step: "push_pending x k q = Some q1" using p by (simp add: push_pending_def)
    have "push_left q1 < push_left q" using k p moves by simp
    then obtain q' where "reach (push_pending x) q1 q'" "ok q'" "published q'" "calling q' = None"
      "taken q' = taken q1" "items q' = items q1 @ [x]"
      using less.hyps [of q1] moves less.prems(4) by auto
    with moves show ?thesis using reach_trans [OF reach_one [where nxt = "push_pending x", OF step]] by auto
  qed (use less.prems(3) in simp)
qed

lemma pop_commits:
  assumes "ok q" and "taken q = None" and "items q \<noteq> []"
  shows "\<exists>q' v. reach (pop_pending y) q q' \<and> ok q' \<and> taken q' = Some v \<and> published q' = published q \<and>
              calling q' = calling q \<and> items q = v # items q'"
  using assms
proof (induction "pop_left q" arbitrary: q rule: less_induct)
  case less
  obtain k where k: "taken (snd (snd (pop k y q))) \<noteq> None \<or> pop_left (snd (snd (pop k y q))) < pop_left q"
    using pop_progress [OF less.prems] by blast
  obtain b out q1 where p: "pop k y q = (b, out, q1)" by (metis prod.collapse)
  from less.prems(1) p show ?case
  proof (cases rule: pop_step_cases)
    case (commits v)
    then have "pop_pending y k q = Some q1" using p by (simp add: pop_pending_def)
    then show ?thesis using commits by (blast intro: reach_one)
  next
    case moves
    then have step: "pop_pending y k q = Some q1" using p by (simp add: pop_pending_def)
    have "pop_left q1 < pop_left q" using k p moves by simp
    then obtain q' v where "reach (pop_pending y) q1 q'" "ok q'" "taken q' = Some v" "published q' = published q1"
      "calling q' = calling q1" "items q1 = v # items q'"
      using less.hyps [of q1] moves less.prems(3) by auto
    with moves show ?thesis using reach_trans [OF reach_one [where nxt = "pop_pending y", OF step]] by auto
  qed (use less.prems(2) in simp)
qed

lemma push_pendingD: "push_pending x k q = Some q' \<Longrightarrow> push k x q = (False, q')"
  by (simp add: push_pending_def split: prod.splits if_splits)

lemma pop_pendingD: "pop_pending y k q = Some q' \<Longrightarrow> pop k y q = (False, y, q')"
  by (simp add: pop_pending_def split: prod.splits if_splits)

text \<open>A loop \<open>nxt\<close> that repeats the call, in a state \<open>f q\<close>, brings it to its effect.\<close>

lemma push_lift:
  assumes "ok q" and "calling q \<in> {None, Some x}" and "\<not> published q" and "length (items q) < limit"
    and repeats: "\<And>k a b. push k x a = (False, b) \<Longrightarrow> nxt (d k) (f a) = Some (f b)"
  obtains q' where "reach nxt (f q) (f q')" "published q'" "taken q' = taken q" "items q' = items q @ [x]"
proof -
  obtain q' where q': "reach (push_pending x) q q'" "published q'" "taken q' = taken q" "items q' = items q @ [x]"
    using push_commits [OF assms(1-4)] by blast
  have "reach nxt (f q) (f q')"
    by (rule reach_lift [OF q'(1)]) (blast dest: push_pendingD repeats)
  then show thesis using that q' by blast
qed

lemma pop_lift:
  assumes "ok q" and "taken q = None" and "items q \<noteq> []"
    and repeats: "\<And>k a b. pop k y a = (False, y, b) \<Longrightarrow> nxt (d k) (f a) = Some (f b)"
  obtains q' where "reach nxt (f q) (f q')" "taken q' = Some (hd (items q))" "published q' = published q"
    "items q' = tl (items q)"
proof -
  obtain q' v where q': "reach (pop_pending y) q q'" "taken q' = Some v" "published q' = published q"
    "items q = v # items q'"
    using pop_commits [OF assms(1-3)] by blast
  have "reach nxt (f q) (f q')"
    by (rule reach_lift [OF q'(1)]) (blast dest: pop_pendingD repeats)
  then show thesis using that q' by simp
qed

end

section \<open>The loops, step by step\<close>

text \<open>A choice is that of the loop and the scheduler's for the step of the call.\<close>

definition stream_steps :: "(nat \<Rightarrow> i32 \<Rightarrow> 'q \<Rightarrow> bool \<times> 'q) \<Rightarrow> (nat \<Rightarrow> i32 \<Rightarrow> 'q \<Rightarrow> bool \<times> i32 \<times> 'q) \<Rightarrow> nat
    \<Rightarrow> side \<times> nat \<Rightarrow> 'q stream \<Rightarrow> 'q stream option" where
  "stream_steps push pop n c s = stream_next (push (snd c)) (pop (snd c)) n (fst c) s"

definition echo_steps :: "(nat \<Rightarrow> i32 \<Rightarrow> 'q \<Rightarrow> bool \<times> 'q) \<Rightarrow> (nat \<Rightarrow> i32 \<Rightarrow> 'q \<Rightarrow> bool \<times> i32 \<times> 'q) \<Rightarrow> nat
    \<Rightarrow> side \<times> nat \<Rightarrow> 'q echo \<Rightarrow> 'q echo option" where
  "echo_steps push pop n c s = echo_next (push (snd c)) (pop (snd c)) n (fst c) s"

definition burst_steps :: "(nat \<Rightarrow> i32 \<Rightarrow> 'q \<Rightarrow> bool \<times> 'q) \<Rightarrow> (nat \<Rightarrow> i32 \<Rightarrow> 'q \<Rightarrow> bool \<times> i32 \<times> 'q) \<Rightarrow> nat \<Rightarrow> nat
    \<Rightarrow> burst_choice \<times> nat \<Rightarrow> 'q burst \<Rightarrow> 'q burst option" where
  "burst_steps push pop bs nb c s = burst_next (push (snd c)) (pop (snd c)) bs nb (fst c) s"

locale stepwise_loops = stepwise_fifo push pop items ok limit calling published taken push_left pop_left
  for push :: "nat \<Rightarrow> i32 \<Rightarrow> 'q \<Rightarrow> bool \<times> 'q" and pop :: "nat \<Rightarrow> i32 \<Rightarrow> 'q \<Rightarrow> bool \<times> i32 \<times> 'q"
    and items :: "'q \<Rightarrow> i32 list" and ok :: "'q \<Rightarrow> bool" and limit :: nat
    and calling :: "'q \<Rightarrow> i32 option" and published :: "'q \<Rightarrow> bool" and taken :: "'q \<Rightarrow> i32 option"
    and push_left :: "'q \<Rightarrow> nat" and pop_left :: "'q \<Rightarrow> nat" +
  assumes room: "0 < limit"
begin

text \<open>
  Test case 1 as it looks if every call happens at the step where it takes effect, and what a
  call in progress says of the loop that made it.
\<close>

definition stream_view :: "'q stream \<Rightarrow> i32 list stream" where
  "stream_view s =
     \<lparr>st_queue = items (st_queue s), st_sent = (if published (st_queue s) then Suc (st_sent s) else st_sent s),
      st_got = (case taken (st_queue s) of None \<Rightarrow> st_got s | Some v \<Rightarrow> Suc (st_got s)),
      st_out = (case taken (st_queue s) of None \<Rightarrow> st_out s | Some v \<Rightarrow> v),
      st_failed = (st_failed s \<or> (case taken (st_queue s) of None \<Rightarrow> False | Some v \<Rightarrow> v \<noteq> of_nat (st_got s)))\<rparr>"

definition stream_ok :: "nat \<Rightarrow> 'q stream \<Rightarrow> bool" where
  "stream_ok n s \<longleftrightarrow>
     ok (st_queue s) \<and> (published (st_queue s) \<longrightarrow> st_sent s < n) \<and>
     (\<forall>x. calling (st_queue s) = Some x \<longrightarrow> st_sent s < n \<and> x = of_nat (st_sent s)) \<and>
     (taken (st_queue s) \<noteq> None \<longrightarrow> st_got s < n)"

abbreviation "view_stream n \<equiv> stream_next (list_push limit) list_pop n"

lemma producer_thread_sim:
  assumes i: "stream_ok n s" and step: "producer_thread (push k) n s = Some t"
  shows "stream_ok n t \<and> (stream_view t = stream_view s \<or> view_stream n Producer_Side (stream_view s) = Some (stream_view t))"
proof -
  obtain b q where p: "push k (of_nat (st_sent s)) (st_queue s) = (b, q)" by fastforce
  have t: "st_sent s < n" "t = s\<lparr>st_queue := q, st_sent := if b then Suc (st_sent s) else st_sent s\<rparr>"
    using step p by (simp_all add: producer_thread_def split: if_splits)
  have q: "ok (st_queue s)" "calling (st_queue s) \<in> {None, Some (of_nat (st_sent s))}"
    using i by (cases "calling (st_queue s)"; simp add: stream_ok_def)+
  from q p show ?thesis
  proof (cases rule: push_step_cases)
    case returns
    then have "stream_ok n t" using i t by (simp add: stream_ok_def)
    moreover have "stream_view t = stream_view s" using returns t by (simp add: stream_view_def cong: option.case_cong)
    ultimately show ?thesis by blast
  next
    case commits
    then have "stream_ok n t" using i t by (simp add: stream_ok_def)
    moreover have "view_stream n Producer_Side (stream_view s) = Some (stream_view t)"
      using commits t
      by (simp add: stream_view_def stream_next_def producer_thread_def list_push_def cong: option.case_cong)
    ultimately show ?thesis by blast
  next
    case moves
    then have "stream_ok n t" using i t by (simp add: stream_ok_def) auto
    moreover have "stream_view t = stream_view s" using moves t by (simp add: stream_view_def cong: option.case_cong)
    ultimately show ?thesis by blast
  qed
qed

lemma consumer_thread_sim:
  assumes i: "stream_ok n s" and step: "consumer_thread (pop k) n s = Some t"
  shows "stream_ok n t \<and> (stream_view t = stream_view s \<or> view_stream n Consumer_Side (stream_view s) = Some (stream_view t))"
proof -
  obtain b out q where p: "pop k (st_out s) (st_queue s) = (b, out, q)" by (metis prod.collapse)
  have t: "st_got s < n" "t = (if b then s\<lparr>st_queue := q, st_out := out, st_got := Suc (st_got s),
      st_failed := st_failed s \<or> out \<noteq> of_nat (st_got s)\<rparr> else s\<lparr>st_queue := q, st_out := out\<rparr>)"
    using step p by (simp_all add: consumer_thread_def split: if_splits)
  have q: "ok (st_queue s)" using i by (simp add: stream_ok_def)
  from q p show ?thesis
  proof (cases rule: pop_step_cases)
    case (returns v)
    then have "stream_ok n t" using i t by (simp add: stream_ok_def)
    moreover have "stream_view t = stream_view s" using returns t by (simp add: stream_view_def cong: option.case_cong)
    ultimately show ?thesis by blast
  next
    case (commits v)
    then have "stream_ok n t" using i t by (simp add: stream_ok_def)
    moreover have "view_stream n Consumer_Side (stream_view s) = Some (stream_view t)"
      using commits t by (simp add: stream_view_def stream_next_def consumer_thread_def list_pop_def cong: option.case_cong)
    ultimately show ?thesis by blast
  next
    case moves
    then have "stream_ok n t" using i t by (simp add: stream_ok_def)
    moreover have "stream_view t = stream_view s" using moves t by (simp add: stream_view_def cong: option.case_cong)
    ultimately show ?thesis by blast
  qed
qed

lemma stream_steps_sim:
  assumes "stream_ok n s" and "stream_steps push pop n c s = Some t"
  shows "stream_ok n t \<and> (stream_view t = stream_view s \<or> view_stream n (fst c) (stream_view s) = Some (stream_view t))"
proof (cases "fst c")
  case Producer_Side
  then have "producer_thread (push (snd c)) n s = Some t"
    using assms(2) by (simp add: stream_steps_def stream_next_def)
  from producer_thread_sim [OF assms(1) this] Producer_Side show ?thesis by simp
next
  case Consumer_Side
  then have "consumer_thread (pop (snd c)) n s = Some t"
    using assms(2) by (simp add: stream_steps_def stream_next_def)
  from consumer_thread_sim [OF assms(1) this] Consumer_Side show ?thesis by simp
qed

text \<open>Test case 2 likewise.\<close>

definition echo_view :: "'q echo \<Rightarrow> i32 list echo" where
  "echo_view s =
     \<lparr>e_q0 = items (e_q0 s), e_q1 = items (e_q1 s),
      req_i = (case taken (e_q1 s) of None \<Rightarrow> req_i s | Some v \<Rightarrow> Suc (req_i s)),
      req_at = (case taken (e_q1 s) of
                  Some v \<Rightarrow> Sending | None \<Rightarrow> if published (e_q0 s) then Awaiting else req_at s),
      req_echo = (case taken (e_q1 s) of None \<Rightarrow> req_echo s | Some v \<Rightarrow> v),
      resp_i = (if published (e_q1 s) then Suc (resp_i s) else resp_i s),
      resp_at = (if published (e_q1 s) then Taking
                 else case taken (e_q0 s) of Some v \<Rightarrow> Answering | None \<Rightarrow> resp_at s),
      resp_val = (case taken (e_q0 s) of Some v \<Rightarrow> v | None \<Rightarrow> resp_val s),
      echoes = echoes s @ (case taken (e_q1 s) of None \<Rightarrow> [] | Some v \<Rightarrow> [v])\<rparr>"

definition echo_ok :: "nat \<Rightarrow> 'q echo \<Rightarrow> bool" where
  "echo_ok n s \<longleftrightarrow>
     ok (e_q0 s) \<and> ok (e_q1 s) \<and>
     (published (e_q0 s) \<longrightarrow> req_at s = Sending \<and> req_i s < n) \<and>
     (\<forall>x. calling (e_q0 s) = Some x \<longrightarrow> req_at s = Sending \<and> x = of_nat (req_i s)) \<and>
     (taken (e_q1 s) \<noteq> None \<longrightarrow> req_at s = Awaiting \<and> req_i s < n) \<and>
     (published (e_q1 s) \<longrightarrow> resp_at s = Answering \<and> resp_i s < n) \<and>
     (\<forall>x. calling (e_q1 s) = Some x \<longrightarrow> resp_at s = Answering \<and> x = resp_val s) \<and>
     (taken (e_q0 s) \<noteq> None \<longrightarrow> resp_at s = Taking \<and> resp_i s < n)"

abbreviation "view_step n \<equiv> echo_next (list_push limit) list_pop n"

lemma echo_req_sim:
  assumes i: "echo_ok n s" and step: "producer_req (push k) (pop k) n s = Some t"
  shows "echo_ok n t \<and> (echo_view t = echo_view s \<or> view_step n Producer_Side (echo_view s) = Some (echo_view t))"
proof (cases "req_at s")
  case Sending
  obtain b q where p: "push k (of_nat (req_i s)) (e_q0 s) = (b, q)" by fastforce
  have t: "req_i s < n" "t = s\<lparr>e_q0 := q, req_at := if b then Awaiting else Sending\<rparr>"
    using step p Sending by (simp_all add: producer_req_def split: if_splits)
  have q: "ok (e_q0 s)" "calling (e_q0 s) \<in> {None, Some (of_nat (req_i s))}" "taken (e_q1 s) = None"
    using i Sending by (cases "calling (e_q0 s)"; simp add: echo_ok_def)+
  from q(1,2) p show ?thesis
  proof (cases rule: push_step_cases)
    case returns
    then have "echo_ok n t" using i t q(3) by (simp add: echo_ok_def)
    moreover have "echo_view t = echo_view s" using returns t q(3) Sending by (simp add: echo_view_def cong: option.case_cong)
    ultimately show ?thesis by blast
  next
    case commits
    then have "echo_ok n t" using i t q(3) Sending by (simp add: echo_ok_def)
    moreover have "view_step n Producer_Side (echo_view s) = Some (echo_view t)"
      using commits t q(3) Sending by (simp add: echo_view_def echo_next_def producer_req_def list_push_def cong: option.case_cong)
    ultimately show ?thesis by blast
  next
    case moves
    then have "echo_ok n t" using i t q(3) Sending by (simp add: echo_ok_def) auto
    moreover have "echo_view t = echo_view s" using moves t q(3) Sending by (simp add: echo_view_def cong: option.case_cong)
    ultimately show ?thesis by blast
  qed
next
  case Awaiting
  obtain b out q where p: "pop k (req_echo s) (e_q1 s) = (b, out, q)" by (metis prod.collapse)
  have n: "req_i s < n" and t: "t = (if b then s\<lparr>e_q1 := q, req_echo := out, echoes := echoes s @ [out],
      req_i := Suc (req_i s), req_at := Sending\<rparr> else s\<lparr>e_q1 := q, req_echo := out\<rparr>)"
    using step p Awaiting by (simp_all add: producer_req_def split: if_splits)
  have q: "ok (e_q1 s)" "\<not> published (e_q0 s)" "calling (e_q0 s) = None"
    using i Awaiting by (cases "calling (e_q0 s)"; simp add: echo_ok_def)+
  from q(1) p show ?thesis
  proof (cases rule: pop_step_cases)
    case (returns v)
    then have "echo_ok n t" using i t q Awaiting by (simp add: echo_ok_def)
    moreover have "echo_view t = echo_view s" using returns t q by (simp add: echo_view_def cong: option.case_cong)
    ultimately show ?thesis by blast
  next
    case (commits v)
    then have "echo_ok n t" using i t n q Awaiting by (simp add: echo_ok_def)
    moreover have "view_step n Producer_Side (echo_view s) = Some (echo_view t)"
      using commits t n q Awaiting by (simp add: echo_view_def echo_next_def producer_req_def list_pop_def cong: option.case_cong)
    ultimately show ?thesis by blast
  next
    case moves
    then have "echo_ok n t" using i t q Awaiting by (simp add: echo_ok_def)
    moreover have "echo_view t = echo_view s" using moves t q by (simp add: echo_view_def cong: option.case_cong)
    ultimately show ?thesis by blast
  qed
qed

lemma echo_resp_sim:
  assumes i: "echo_ok n s" and step: "consumer_resp (push k) (pop k) n s = Some t"
  shows "echo_ok n t \<and> (echo_view t = echo_view s \<or> view_step n Consumer_Side (echo_view s) = Some (echo_view t))"
proof (cases "resp_at s")
  case Answering
  obtain b q where p: "push k (resp_val s) (e_q1 s) = (b, q)" by fastforce
  have t: "resp_i s < n" "t = (if b then s\<lparr>e_q1 := q, resp_i := Suc (resp_i s), resp_at := Taking\<rparr> else s\<lparr>e_q1 := q\<rparr>)"
    using step p Answering by (simp_all add: consumer_resp_def split: if_splits)
  have q: "ok (e_q1 s)" "calling (e_q1 s) \<in> {None, Some (resp_val s)}" "taken (e_q0 s) = None"
    using i Answering by (cases "calling (e_q1 s)"; simp add: echo_ok_def)+
  from q(1,2) p show ?thesis
  proof (cases rule: push_step_cases)
    case returns
    then have "echo_ok n t" using i t q(3) by (simp add: echo_ok_def)
    moreover have "echo_view t = echo_view s" using returns t q(3) Answering by (simp add: echo_view_def cong: option.case_cong)
    ultimately show ?thesis by blast
  next
    case commits
    then have "echo_ok n t" using i t q(3) Answering by (simp add: echo_ok_def)
    moreover have "view_step n Consumer_Side (echo_view s) = Some (echo_view t)"
      using commits t q(3) Answering by (simp add: echo_view_def echo_next_def consumer_resp_def list_push_def cong: option.case_cong)
    ultimately show ?thesis by blast
  next
    case moves
    then have "echo_ok n t" using i t q(3) Answering by (simp add: echo_ok_def) auto
    moreover have "echo_view t = echo_view s" using moves t q(3) Answering by (simp add: echo_view_def cong: option.case_cong)
    ultimately show ?thesis by blast
  qed
next
  case Taking
  obtain b out q where p: "pop k (resp_val s) (e_q0 s) = (b, out, q)" by (metis prod.collapse)
  have t: "resp_i s < n" "t = s\<lparr>e_q0 := q, resp_val := out, resp_at := if b then Answering else Taking\<rparr>"
    using step p Taking by (simp_all add: consumer_resp_def split: if_splits)
  have q: "ok (e_q0 s)" "\<not> published (e_q1 s)" "calling (e_q1 s) = None"
    using i Taking by (cases "calling (e_q1 s)"; simp add: echo_ok_def)+
  from q(1) p show ?thesis
  proof (cases rule: pop_step_cases)
    case (returns v)
    then have "echo_ok n t" using i t q by (simp add: echo_ok_def)
    moreover have "echo_view t = echo_view s" using returns t q by (simp add: echo_view_def cong: option.case_cong)
    ultimately show ?thesis by blast
  next
    case (commits v)
    then have "echo_ok n t" using i t q Taking by (simp add: echo_ok_def)
    moreover have "view_step n Consumer_Side (echo_view s) = Some (echo_view t)"
      using commits t q Taking by (simp add: echo_view_def echo_next_def consumer_resp_def list_pop_def cong: option.case_cong)
    ultimately show ?thesis by blast
  next
    case moves
    then have "echo_ok n t" using i t q Taking by (simp add: echo_ok_def)
    moreover have "echo_view t = echo_view s" using moves t q Taking by (simp add: echo_view_def cong: option.case_cong)
    ultimately show ?thesis by blast
  qed
qed

lemma echo_steps_sim:
  assumes "echo_ok n s" and "echo_steps push pop n c s = Some t"
  shows "echo_ok n t \<and> (echo_view t = echo_view s \<or> view_step n (fst c) (echo_view s) = Some (echo_view t))"
proof (cases "fst c")
  case Producer_Side
  then have "producer_req (push (snd c)) (pop (snd c)) n s = Some t"
    using assms(2) by (simp add: echo_steps_def echo_next_def)
  from echo_req_sim [OF assms(1) this] Producer_Side show ?thesis by simp
next
  case Consumer_Side
  then have "consumer_resp (push (snd c)) (pop (snd c)) n s = Some t"
    using assms(2) by (simp add: echo_steps_def echo_next_def)
  from echo_resp_sim [OF assms(1) this] Consumer_Side show ?thesis by simp
qed

text \<open>Test case 3 likewise.\<close>

definition burst_view :: "'q burst \<Rightarrow> i32 list burst" where
  "burst_view s =
     \<lparr>b_queue = items (b_queue s), pb_batch = pb_batch s,
      pb_i = (if published (b_queue s) then Suc (pb_i s) else pb_i s), cb_batch = cb_batch s,
      cb_i = (case taken (b_queue s) of None \<Rightarrow> cb_i s | Some v \<Rightarrow> Suc (cb_i s)), b_t0 = b_t0 s,
      b_val = (case taken (b_queue s) of None \<Rightarrow> b_val s | Some v \<Rightarrow> v), times = times s\<rparr>"

definition burst_ok :: "nat \<Rightarrow> nat \<Rightarrow> 'q burst \<Rightarrow> bool" where
  "burst_ok bs nb s \<longleftrightarrow>
     ok (b_queue s) \<and>
     (published (b_queue s) \<longrightarrow> pb_batch s < nb \<and> pb_i s < bs) \<and>
     (\<forall>x. calling (b_queue s) = Some x \<longrightarrow> pb_batch s < nb \<and> pb_i s < bs \<and> x = of_nat (pb_i s)) \<and>
     (taken (b_queue s) \<noteq> None \<longrightarrow> cb_batch s < nb \<and> b_t0 s \<noteq> None \<and> cb_i s < bs)"

abbreviation "view_burst bs nb \<equiv> burst_next (list_push limit) list_pop bs nb"

lemma producer_burst_sim:
  assumes i: "burst_ok bs nb s" and step: "producer_burst (push k) bs nb s = Some t"
  shows "burst_ok bs nb t \<and>
     (burst_view t = burst_view s \<or> view_burst bs nb Burst_Producer (burst_view s) = Some (burst_view t))"
proof (cases "pb_i s < bs")
  case True
  obtain b q where p: "push k (of_nat (pb_i s)) (b_queue s) = (b, q)" by fastforce
  have t: "pb_batch s < nb" "t = s\<lparr>b_queue := q, pb_i := if b then Suc (pb_i s) else pb_i s\<rparr>"
    using step p True by (simp_all add: producer_burst_def split: if_splits)
  have q: "ok (b_queue s)" "calling (b_queue s) \<in> {None, Some (of_nat (pb_i s))}"
    using i by (cases "calling (b_queue s)"; simp add: burst_ok_def)+
  from q p show ?thesis
  proof (cases rule: push_step_cases)
    case returns
    then have "burst_ok bs nb t" using i t by (simp add: burst_ok_def)
    moreover have "burst_view t = burst_view s" using returns t by (simp add: burst_view_def cong: option.case_cong)
    ultimately show ?thesis by blast
  next
    case commits
    then have "burst_ok bs nb t" using i t True by (simp add: burst_ok_def)
    moreover have "view_burst bs nb Burst_Producer (burst_view s) = Some (burst_view t)"
      using commits t True
      by (simp add: burst_view_def burst_next_def producer_burst_def list_push_def cong: option.case_cong)
    ultimately show ?thesis by blast
  next
    case moves
    then have "burst_ok bs nb t" using i t True by (simp add: burst_ok_def) auto
    moreover have "burst_view t = burst_view s" using moves t by (simp add: burst_view_def cong: option.case_cong)
    ultimately show ?thesis by blast
  qed
next
  case False
  have t: "pb_batch s < nb" "t = s\<lparr>pb_batch := Suc (pb_batch s), pb_i := 0\<rparr>"
    using step False by (simp_all add: producer_burst_def split: if_splits)
  have q: "\<not> published (b_queue s)" "calling (b_queue s) = None"
    using i False by (cases "calling (b_queue s)"; simp add: burst_ok_def)+
  show ?thesis
    using i t q False
    by (simp add: burst_ok_def burst_view_def burst_next_def producer_burst_def cong: option.case_cong)
qed

lemma consumer_burst_sim:
  assumes i: "burst_ok bs nb s" and step: "consumer_burst (pop k) bs nb clock s = Some t"
  shows "burst_ok bs nb t \<and>
     (burst_view t = burst_view s \<or> view_burst bs nb (Burst_Consumer clock) (burst_view s) = Some (burst_view t))"
proof (cases "\<exists>t0. b_t0 s = Some t0 \<and> cb_i s < bs")
  case True
  then obtain t0 where t0: "b_t0 s = Some t0" "cb_i s < bs" by blast
  obtain b out q where p: "pop k (b_val s) (b_queue s) = (b, out, q)" by (metis prod.collapse)
  have t: "cb_batch s < nb" "t = s\<lparr>b_queue := q, b_val := out, cb_i := if b then Suc (cb_i s) else cb_i s\<rparr>"
    using step p t0 by (simp_all add: consumer_burst_def split: if_splits)
  have q: "ok (b_queue s)" using i by (simp add: burst_ok_def)
  from q p show ?thesis
  proof (cases rule: pop_step_cases)
    case (returns v)
    then have "burst_ok bs nb t" using i t t0 by (simp add: burst_ok_def)
    moreover have "burst_view t = burst_view s" using returns t by (simp add: burst_view_def cong: option.case_cong)
    ultimately show ?thesis by blast
  next
    case (commits v)
    then have "burst_ok bs nb t" using i t t0 by (simp add: burst_ok_def)
    moreover have "view_burst bs nb (Burst_Consumer clock) (burst_view s) = Some (burst_view t)"
      using commits t t0 by (simp add: burst_view_def burst_next_def consumer_burst_def list_pop_def cong: option.case_cong)
    ultimately show ?thesis by blast
  next
    case moves
    then have "burst_ok bs nb t" using i t t0 by (simp add: burst_ok_def)
    moreover have "burst_view t = burst_view s" using moves t by (simp add: burst_view_def cong: option.case_cong)
    ultimately show ?thesis by blast
  qed
next
  case False
  then have q: "taken (b_queue s) = None" using i by (auto simp: burst_ok_def)
  have n: "cb_batch s < nb" using step by (simp add: consumer_burst_def split: if_splits)
  have "burst_ok bs nb t" using i q step n False
    by (cases "b_t0 s") (auto simp: consumer_burst_def burst_ok_def)
  moreover have "view_burst bs nb (Burst_Consumer clock) (burst_view s) = Some (burst_view t)"
    using q step n False by (cases "b_t0 s") (auto simp: consumer_burst_def burst_view_def burst_next_def)
  ultimately show ?thesis by blast
qed

lemma burst_steps_sim:
  assumes "burst_ok bs nb s" and "burst_steps push pop bs nb c s = Some t"
  shows "burst_ok bs nb t \<and> (burst_view t = burst_view s \<or> view_burst bs nb (fst c) (burst_view s) = Some (burst_view t))"
proof (cases "fst c")
  case Burst_Producer
  then have "producer_burst (push (snd c)) bs nb s = Some t"
    using assms(2) by (simp add: burst_steps_def burst_next_def)
  from producer_burst_sim [OF assms(1) this] Burst_Producer show ?thesis by simp
next
  case (Burst_Consumer clock)
  then have "consumer_burst (pop (snd c)) bs nb clock s = Some t"
    using assms(2) by (simp add: burst_steps_def burst_next_def)
  from consumer_burst_sim [OF assms(1) this] Burst_Consumer show ?thesis by simp
qed

end

section \<open>The loops always get done\<close>

sublocale stepwise_loops \<subseteq> atomic: head_to_head "list_push limit" list_pop "\<lambda>xs. xs" "\<lambda>xs. length xs \<le> limit" limit
  by (rule list_queue) (rule room)

context stepwise_loops
begin

definition new_queue :: "'q \<Rightarrow> bool" where
  "new_queue q \<longleftrightarrow> ok q \<and> items q = [] \<and> calling q = None \<and> \<not> published q \<and> taken q = None"

abbreviation "stream_nexts n \<equiv> stream_steps push pop n"
abbreviation "stream_good n s \<equiv> stream_ok n s \<and> atomic.stream_inv n (stream_view s)"

lemma stream_good_init: "new_queue q \<Longrightarrow> stream_good n (stream_init q v)"
  by (simp add: new_queue_def stream_init_def stream_ok_def stream_view_def atomic.stream_inv_def)

lemma stream_good_step:
  assumes "stream_good n s" and "stream_nexts n c s = Some t"
  shows "stream_good n t"
  using stream_steps_sim [OF _ assms(2)] assms(1) atomic.stream_step [of n "stream_view s"] by metis

lemma stream_good_reach: "reach (stream_nexts n) s t \<Longrightarrow> stream_good n s \<Longrightarrow> stream_good n t"
proof (induction rule: reach.induct)
  case (reach_step u c t)
  then show ?case using stream_good_step by blast
qed

text \<open>A call that has taken effect returns at the next step of its thread.\<close>

lemma stream_return_push:
  assumes i: "stream_ok n s"
  shows "\<exists>t. reach (stream_nexts n) s t \<and> stream_view t = stream_view s \<and> \<not> published (st_queue t) \<and>
             taken (st_queue t) = taken (st_queue s)"
proof (cases "published (st_queue s)")
  case True
  then have s: "ok (st_queue s)" "st_sent s < n" "calling (st_queue s) = None"
    using i published_call by (auto simp: stream_ok_def)
  obtain b q where p: "push 0 (of_nat (st_sent s)) (st_queue s) = (b, q)" by fastforce
  have "calling (st_queue s) \<in> {None, Some (of_nat (st_sent s))}" using s(3) by simp
  from s(1) this p show ?thesis
  proof (cases rule: push_step_cases)
    case returns
    let ?t = "s\<lparr>st_queue := q, st_sent := Suc (st_sent s)\<rparr>"
    have "stream_nexts n (Producer_Side, 0) s = Some ?t"
      using s p returns by (simp add: stream_steps_def stream_next_def producer_thread_def)
    from reach_one [where nxt = "stream_nexts n", OF this] returns s show ?thesis
      by (intro exI [of _ ?t]) (simp add: stream_view_def cong: option.case_cong)
  qed (use True in simp_all)
qed (blast intro: reach_start)

lemma stream_return_pop:
  assumes i: "stream_ok n s"
  shows "\<exists>t. reach (stream_nexts n) s t \<and> stream_view t = stream_view s \<and> taken (st_queue t) = None \<and>
             published (st_queue t) = published (st_queue s)"
proof (cases "taken (st_queue s)")
  case (Some v)
  then have s: "ok (st_queue s)" "st_got s < n" using i by (auto simp: stream_ok_def)
  obtain b out q where p: "pop 0 (st_out s) (st_queue s) = (b, out, q)" by (metis prod.collapse)
  from s(1) p show ?thesis
  proof (cases rule: pop_step_cases)
    case (returns w)
    let ?t = "s\<lparr>st_queue := q, st_out := out, st_got := Suc (st_got s), st_failed := st_failed s \<or> out \<noteq> of_nat (st_got s)\<rparr>"
    have "stream_nexts n (Consumer_Side, 0) s = Some ?t"
      using s p returns by (simp add: stream_steps_def stream_next_def consumer_thread_def)
    from reach_one [where nxt = "stream_nexts n", OF this] returns s show ?thesis
      by (intro exI [of _ ?t]) (simp add: stream_view_def cong: option.case_cong)
  qed (use Some in simp_all)
qed (blast intro: reach_start)

lemma stream_return_all:
  assumes i: "stream_good n s"
  shows "\<exists>t. reach (stream_nexts n) s t \<and> stream_good n t \<and> stream_view t = stream_view s \<and>
             \<not> published (st_queue t) \<and> taken (st_queue t) = None"
proof -
  obtain t where t: "reach (stream_nexts n) s t" "stream_view t = stream_view s" "\<not> published (st_queue t)"
    using stream_return_push i by blast
  obtain u where u: "reach (stream_nexts n) t u" "stream_view u = stream_view t" "taken (st_queue u) = None"
    "published (st_queue u) = published (st_queue t)"
    using stream_return_pop stream_good_reach [OF t(1) i] by blast
  have "reach (stream_nexts n) s u" using t(1) u(1) by (rule reach_trans)
  with stream_good_reach [OF this i] t u show ?thesis by auto
qed

text \<open>With no call about to return, what an atomic call would do can be done step by step.\<close>

lemma stream_commit_push:
  assumes i: "stream_ok n s" and none: "\<not> published (st_queue s)" "taken (st_queue s) = None"
    and step: "view_stream n Producer_Side (stream_view s) = Some w" and moved: "w \<noteq> stream_view s"
  shows "\<exists>t. reach (stream_nexts n) s t \<and> stream_view t = w"
proof -
  let ?x = "of_nat (st_sent s)"
  have n: "st_sent s < n" "length (items (st_queue s)) < limit"
    and w: "w = (stream_view s)\<lparr>st_queue := items (st_queue s) @ [?x], st_sent := Suc (st_sent s)\<rparr>"
    using step moved none
    by (auto simp: stream_next_def producer_thread_def stream_view_def list_push_def split: if_splits)
  have q: "ok (st_queue s)" "calling (st_queue s) \<in> {None, Some ?x}"
    using i by (cases "calling (st_queue s)"; simp add: stream_ok_def)+
  obtain q' where "reach (stream_nexts n) (s\<lparr>st_queue := st_queue s\<rparr>) (s\<lparr>st_queue := q'\<rparr>)" "published q'"
    "taken q' = taken (st_queue s)" "items q' = items (st_queue s) @ [?x]"
    by (rule push_lift [OF q none(1) n(2), of "stream_nexts n" "Pair Producer_Side" "\<lambda>q. s\<lparr>st_queue := q\<rparr>"])
      (use n in \<open>cases s; simp add: stream_steps_def stream_next_def producer_thread_def\<close>)
  then show ?thesis using none w by (intro exI [of _ "s\<lparr>st_queue := q'\<rparr>"]) (simp add: stream_view_def)
qed

lemma stream_commit_pop:
  assumes i: "stream_ok n s" and none: "\<not> published (st_queue s)" "taken (st_queue s) = None"
    and step: "view_stream n Consumer_Side (stream_view s) = Some w" and moved: "w \<noteq> stream_view s"
  shows "\<exists>t. reach (stream_nexts n) s t \<and> stream_view t = w"
proof -
  have n: "st_got s < n" "items (st_queue s) \<noteq> []"
    and w: "w = (stream_view s)\<lparr>st_queue := tl (items (st_queue s)), st_out := hd (items (st_queue s)),
        st_got := Suc (st_got s), st_failed := st_failed s \<or> hd (items (st_queue s)) \<noteq> of_nat (st_got s)\<rparr>"
    using step moved none
    by (auto simp: stream_next_def consumer_thread_def stream_view_def list_pop_def split: if_splits list.splits)
  have q: "ok (st_queue s)" using i by (simp add: stream_ok_def)
  obtain q' where "reach (stream_nexts n) (s\<lparr>st_queue := st_queue s\<rparr>) (s\<lparr>st_queue := q'\<rparr>)"
    "taken q' = Some (hd (items (st_queue s)))" "published q' = published (st_queue s)" "items q' = tl (items (st_queue s))"
    by (rule pop_lift [OF q none(2) n(2), of "st_out s" "stream_nexts n" "Pair Consumer_Side" "\<lambda>q. s\<lparr>st_queue := q\<rparr>"])
      (use n in \<open>cases s; simp add: stream_steps_def stream_next_def consumer_thread_def\<close>)
  then show ?thesis using none w by (intro exI [of _ "s\<lparr>st_queue := q'\<rparr>"]) (simp add: stream_view_def)
qed

lemma stream_steps_complete:
  "stream_good n s \<Longrightarrow> \<exists>t. reach (stream_nexts n) s t \<and> st_got t = n"
proof (induction "(n - st_sent (stream_view s)) + (n - st_got (stream_view s))" arbitrary: s rule: less_induct)
  case less
  obtain t where t: "reach (stream_nexts n) s t" "stream_good n t" "stream_view t = stream_view s"
    "\<not> published (st_queue t)" "taken (st_queue t) = None"
    using stream_return_all [OF less.prems] by blast
  show ?case
  proof (cases "st_got (stream_view t) < n")
    case False
    then have "st_got t = n" using t(2,5) by (simp add: atomic.stream_inv_def stream_view_def)
    with t(1) show ?thesis by blast
  next
    case True
    then obtain c w where w: "view_stream n c (stream_view t) = Some w"
      "(n - st_sent w) + (n - st_got w) < (n - st_sent (stream_view t)) + (n - st_got (stream_view t))"
      using atomic.stream_progress [of n "stream_view t"] t(2) by blast
    then have "w \<noteq> stream_view t" by auto
    then obtain u where u: "reach (stream_nexts n) t u" "stream_view u = w"
      using stream_commit_push [of n t w] stream_commit_pop [of n t w] t(2,4,5) w(1) by (cases c) blast+
    have "(n - st_sent (stream_view u)) + (n - st_got (stream_view u)) <
        (n - st_sent (stream_view s)) + (n - st_got (stream_view s))"
      using w(2) u(2) t(3) by simp
    from less.hyps [OF this stream_good_reach [OF u(1) t(2)]] show ?thesis
      using reach_trans [OF reach_trans [OF t(1) u(1)]] by blast
  qed
qed

text \<open>Test case 2.\<close>

abbreviation "echo_nexts n \<equiv> echo_steps push pop n"
abbreviation "echo_good n s \<equiv> echo_ok n s \<and> atomic.echo_inv n (echo_view s)"

lemma echo_good_init: "new_queue q0 \<Longrightarrow> new_queue q1 \<Longrightarrow> echo_good n (echo_init q0 q1 e v)"
  by (simp add: new_queue_def echo_init_def echo_ok_def echo_view_def atomic.echo_inv_def)

lemma echo_good_step:
  assumes "echo_good n s" and "echo_nexts n c s = Some t"
  shows "echo_good n t"
  using echo_steps_sim [OF _ assms(2)] assms(1) atomic.echo_step [of n "echo_view s"] by metis

lemma echo_good_reach: "reach (echo_nexts n) s t \<Longrightarrow> echo_good n s \<Longrightarrow> echo_good n t"
proof (induction rule: reach.induct)
  case (reach_step u c t)
  then show ?case using echo_good_step by blast
qed

lemma echo_return_req:
  assumes i: "echo_ok n s"
  shows "\<exists>t. reach (echo_nexts n) s t \<and> echo_view t = echo_view s \<and> \<not> published (e_q0 t) \<and> taken (e_q1 t) = None \<and>
             published (e_q1 t) = published (e_q1 s) \<and> taken (e_q0 t) = taken (e_q0 s)"
proof -
  consider "published (e_q0 s)" | v where "taken (e_q1 s) = Some v" | "\<not> published (e_q0 s)" "taken (e_q1 s) = None"
    by blast
  then show ?thesis
  proof cases
    case 1
    then have s: "ok (e_q0 s)" "req_at s = Sending" "req_i s < n" "taken (e_q1 s) = None" "calling (e_q0 s) = None"
      using i published_call by (auto simp: echo_ok_def)
    obtain b q where p: "push 0 (of_nat (req_i s)) (e_q0 s) = (b, q)" by fastforce
    have "calling (e_q0 s) \<in> {None, Some (of_nat (req_i s))}" using s(5) by simp
    from s(1) this p show ?thesis
    proof (cases rule: push_step_cases)
      case returns
      let ?t = "s\<lparr>e_q0 := q, req_at := Awaiting\<rparr>"
      have "echo_nexts n (Producer_Side, 0) s = Some ?t"
        using s p returns by (simp add: echo_steps_def echo_next_def producer_req_def)
      from reach_one [where nxt = "echo_nexts n", OF this] returns s show ?thesis
        by (intro exI [of _ ?t]) (simp add: echo_view_def cong: option.case_cong)
    qed (use 1 in simp_all)
  next
    case (2 v)
    then have s: "ok (e_q1 s)" "req_at s = Awaiting" "req_i s < n" "\<not> published (e_q0 s)"
      using i by (auto simp: echo_ok_def)
    obtain b out q where p: "pop 0 (req_echo s) (e_q1 s) = (b, out, q)" by (metis prod.collapse)
    from s(1) p show ?thesis
    proof (cases rule: pop_step_cases)
      case (returns w)
      let ?t = "s\<lparr>e_q1 := q, req_echo := out, echoes := echoes s @ [out], req_i := Suc (req_i s), req_at := Sending\<rparr>"
      have "echo_nexts n (Producer_Side, 0) s = Some ?t"
        using s p returns by (simp add: echo_steps_def echo_next_def producer_req_def)
      from reach_one [where nxt = "echo_nexts n", OF this] returns s show ?thesis
        by (intro exI [of _ ?t]) (simp add: echo_view_def cong: option.case_cong)
    qed (use 2 in simp_all)
  qed (blast intro: reach_start)
qed

lemma echo_return_resp:
  assumes i: "echo_ok n s"
  shows "\<exists>t. reach (echo_nexts n) s t \<and> echo_view t = echo_view s \<and> \<not> published (e_q1 t) \<and> taken (e_q0 t) = None \<and>
             published (e_q0 t) = published (e_q0 s) \<and> taken (e_q1 t) = taken (e_q1 s)"
proof -
  consider "published (e_q1 s)" | v where "taken (e_q0 s) = Some v" | "\<not> published (e_q1 s)" "taken (e_q0 s) = None"
    by blast
  then show ?thesis
  proof cases
    case 1
    then have s: "ok (e_q1 s)" "resp_at s = Answering" "resp_i s < n" "taken (e_q0 s) = None" "calling (e_q1 s) = None"
      using i published_call by (auto simp: echo_ok_def)
    obtain b q where p: "push 0 (resp_val s) (e_q1 s) = (b, q)" by fastforce
    have "calling (e_q1 s) \<in> {None, Some (resp_val s)}" using s(5) by simp
    from s(1) this p show ?thesis
    proof (cases rule: push_step_cases)
      case returns
      let ?t = "s\<lparr>e_q1 := q, resp_i := Suc (resp_i s), resp_at := Taking\<rparr>"
      have "echo_nexts n (Consumer_Side, 0) s = Some ?t"
        using s p returns by (simp add: echo_steps_def echo_next_def consumer_resp_def)
      from reach_one [where nxt = "echo_nexts n", OF this] returns s show ?thesis
        by (intro exI [of _ ?t]) (simp add: echo_view_def cong: option.case_cong)
    qed (use 1 in simp_all)
  next
    case (2 v)
    then have s: "ok (e_q0 s)" "resp_at s = Taking" "resp_i s < n" "\<not> published (e_q1 s)"
      using i by (auto simp: echo_ok_def)
    obtain b out q where p: "pop 0 (resp_val s) (e_q0 s) = (b, out, q)" by (metis prod.collapse)
    from s(1) p show ?thesis
    proof (cases rule: pop_step_cases)
      case (returns w)
      let ?t = "s\<lparr>e_q0 := q, resp_val := out, resp_at := Answering\<rparr>"
      have "echo_nexts n (Consumer_Side, 0) s = Some ?t"
        using s p returns by (simp add: echo_steps_def echo_next_def consumer_resp_def)
      from reach_one [where nxt = "echo_nexts n", OF this] returns s show ?thesis
        by (intro exI [of _ ?t]) (simp add: echo_view_def cong: option.case_cong)
    qed (use 2 in simp_all)
  qed (blast intro: reach_start)
qed

lemma echo_return_all:
  assumes i: "echo_good n s"
  shows "\<exists>t. reach (echo_nexts n) s t \<and> echo_good n t \<and> echo_view t = echo_view s \<and> \<not> published (e_q0 t) \<and>
             taken (e_q1 t) = None \<and> \<not> published (e_q1 t) \<and> taken (e_q0 t) = None"
proof -
  obtain t where t: "reach (echo_nexts n) s t" "echo_view t = echo_view s" "\<not> published (e_q0 t)" "taken (e_q1 t) = None"
    using echo_return_req i by blast
  obtain u where u: "reach (echo_nexts n) t u" "echo_view u = echo_view t" "\<not> published (e_q1 u)" "taken (e_q0 u) = None"
    "published (e_q0 u) = published (e_q0 t)" "taken (e_q1 u) = taken (e_q1 t)"
    using echo_return_resp echo_good_reach [OF t(1) i] by blast
  have "reach (echo_nexts n) s u" using t(1) u(1) by (rule reach_trans)
  with echo_good_reach [OF this i] t u show ?thesis by auto
qed

lemma echo_commit_req:
  assumes i: "echo_ok n s" and none: "\<not> published (e_q0 s)" "taken (e_q1 s) = None"
    and step: "view_step n Producer_Side (echo_view s) = Some w" and moved: "w \<noteq> echo_view s"
    and resp: "\<not> published (e_q1 s)" "taken (e_q0 s) = None"
  shows "\<exists>t. reach (echo_nexts n) s t \<and> echo_view t = w"
proof (cases "req_at s")
  case Sending
  let ?x = "of_nat (req_i s)"
  have n: "req_i s < n" "length (items (e_q0 s)) < limit"
    and w: "w = (echo_view s)\<lparr>e_q0 := items (e_q0 s) @ [?x], req_at := Awaiting\<rparr>"
    using step moved none resp Sending
    by (auto simp: echo_next_def producer_req_def echo_view_def list_push_def split: if_splits)
  have q: "ok (e_q0 s)" "calling (e_q0 s) \<in> {None, Some ?x}"
    using i by (cases "calling (e_q0 s)"; simp add: echo_ok_def)+
  obtain q' where "reach (echo_nexts n) (s\<lparr>e_q0 := e_q0 s\<rparr>) (s\<lparr>e_q0 := q'\<rparr>)" "published q'"
    "taken q' = taken (e_q0 s)" "items q' = items (e_q0 s) @ [?x]"
    by (rule push_lift [OF q none(1) n(2), of "echo_nexts n" "Pair Producer_Side" "\<lambda>q. s\<lparr>e_q0 := q\<rparr>"])
      (use n Sending in \<open>cases s; simp add: echo_steps_def echo_next_def producer_req_def\<close>)
  then show ?thesis using none resp w by (intro exI [of _ "s\<lparr>e_q0 := q'\<rparr>"]) (simp add: echo_view_def)
next
  case Awaiting
  have n: "req_i s < n" "items (e_q1 s) \<noteq> []"
    and w: "w = (echo_view s)\<lparr>e_q1 := tl (items (e_q1 s)), req_echo := hd (items (e_q1 s)),
        echoes := echoes s @ [hd (items (e_q1 s))], req_i := Suc (req_i s), req_at := Sending\<rparr>"
    using step moved none resp Awaiting
    by (auto simp: echo_next_def producer_req_def echo_view_def list_pop_def split: if_splits list.splits)
  have q: "ok (e_q1 s)" using i by (simp add: echo_ok_def)
  obtain q' where "reach (echo_nexts n) (s\<lparr>e_q1 := e_q1 s\<rparr>) (s\<lparr>e_q1 := q'\<rparr>)" "taken q' = Some (hd (items (e_q1 s)))"
    "published q' = published (e_q1 s)" "items q' = tl (items (e_q1 s))"
    by (rule pop_lift [OF q none(2) n(2), of "req_echo s" "echo_nexts n" "Pair Producer_Side" "\<lambda>q. s\<lparr>e_q1 := q\<rparr>"])
      (use n Awaiting in \<open>cases s; simp add: echo_steps_def echo_next_def producer_req_def\<close>)
  then show ?thesis using none resp w by (intro exI [of _ "s\<lparr>e_q1 := q'\<rparr>"]) (simp add: echo_view_def)
qed

lemma echo_commit_resp:
  assumes i: "echo_ok n s" and none: "\<not> published (e_q1 s)" "taken (e_q0 s) = None"
    and step: "view_step n Consumer_Side (echo_view s) = Some w" and moved: "w \<noteq> echo_view s"
    and req: "\<not> published (e_q0 s)" "taken (e_q1 s) = None"
  shows "\<exists>t. reach (echo_nexts n) s t \<and> echo_view t = w"
proof (cases "resp_at s")
  case Answering
  have n: "resp_i s < n" "length (items (e_q1 s)) < limit"
    and w: "w = (echo_view s)\<lparr>e_q1 := items (e_q1 s) @ [resp_val s], resp_i := Suc (resp_i s), resp_at := Taking\<rparr>"
    using step moved none req Answering
    by (auto simp: echo_next_def consumer_resp_def echo_view_def list_push_def split: if_splits)
  have q: "ok (e_q1 s)" "calling (e_q1 s) \<in> {None, Some (resp_val s)}"
    using i by (cases "calling (e_q1 s)"; simp add: echo_ok_def)+
  obtain q' where "reach (echo_nexts n) (s\<lparr>e_q1 := e_q1 s\<rparr>) (s\<lparr>e_q1 := q'\<rparr>)" "published q'"
    "taken q' = taken (e_q1 s)" "items q' = items (e_q1 s) @ [resp_val s]"
    by (rule push_lift [OF q none(1) n(2), of "echo_nexts n" "Pair Consumer_Side" "\<lambda>q. s\<lparr>e_q1 := q\<rparr>"])
      (use n Answering in \<open>cases s; simp add: echo_steps_def echo_next_def consumer_resp_def\<close>)
  then show ?thesis using none req w by (intro exI [of _ "s\<lparr>e_q1 := q'\<rparr>"]) (simp add: echo_view_def)
next
  case Taking
  have n: "resp_i s < n" "items (e_q0 s) \<noteq> []"
    and w: "w = (echo_view s)\<lparr>e_q0 := tl (items (e_q0 s)), resp_val := hd (items (e_q0 s)), resp_at := Answering\<rparr>"
    using step moved none req Taking
    by (auto simp: echo_next_def consumer_resp_def echo_view_def list_pop_def split: if_splits list.splits)
  have q: "ok (e_q0 s)" using i by (simp add: echo_ok_def)
  obtain q' where "reach (echo_nexts n) (s\<lparr>e_q0 := e_q0 s\<rparr>) (s\<lparr>e_q0 := q'\<rparr>)" "taken q' = Some (hd (items (e_q0 s)))"
    "published q' = published (e_q0 s)" "items q' = tl (items (e_q0 s))"
    by (rule pop_lift [OF q none(2) n(2), of "resp_val s" "echo_nexts n" "Pair Consumer_Side" "\<lambda>q. s\<lparr>e_q0 := q\<rparr>"])
      (use n Taking in \<open>cases s; simp add: echo_steps_def echo_next_def consumer_resp_def\<close>)
  then show ?thesis using none req w by (intro exI [of _ "s\<lparr>e_q0 := q'\<rparr>"]) (simp add: echo_view_def)
qed

lemma echo_steps_complete: "echo_good n s \<Longrightarrow> \<exists>t. reach (echo_nexts n) s t \<and> echo_done n t"
proof (induction "4 * (n - req_i (echo_view s)) - echo_phase (echo_view s)" arbitrary: s rule: less_induct)
  case less
  obtain t where t: "reach (echo_nexts n) s t" "echo_good n t" "echo_view t = echo_view s"
    "\<not> published (e_q0 t)" "taken (e_q1 t) = None" "\<not> published (e_q1 t)" "taken (e_q0 t) = None"
    using echo_return_all [OF less.prems] by blast
  show ?case
  proof (cases "echo_done n (echo_view t)")
    case True
    then have "echo_done n t" using t(5,6) by (simp add: echo_done_def echo_view_def)
    with t(1) show ?thesis by blast
  next
    case False
    then obtain c w where w: "view_step n c (echo_view t) = Some w"
      "4 * (n - req_i w) - echo_phase w < 4 * (n - req_i (echo_view t)) - echo_phase (echo_view t)"
      using atomic.echo_progress [of n "echo_view t"] t(2) by blast
    then have "w \<noteq> echo_view t" by auto
    then obtain u where u: "reach (echo_nexts n) t u" "echo_view u = w"
      using echo_commit_req [of n t w] echo_commit_resp [of n t w] t(2,4-7) w(1) by (cases c) blast+
    have "4 * (n - req_i (echo_view u)) - echo_phase (echo_view u) <
        4 * (n - req_i (echo_view s)) - echo_phase (echo_view s)"
      using w(2) u(2) t(3) by simp
    from less.hyps [OF this echo_good_reach [OF u(1) t(2)]] show ?thesis
      using reach_trans [OF reach_trans [OF t(1) u(1)]] by blast
  qed
qed

text \<open>Test case 3.\<close>

abbreviation "burst_nexts bs nb \<equiv> burst_steps push pop bs nb"
abbreviation "burst_good bs nb s \<equiv> burst_ok bs nb s \<and> atomic.burst_inv bs nb (burst_view s)"

lemma burst_good_init: "new_queue q \<Longrightarrow> burst_good bs nb (burst_init q v)"
  by (simp add: new_queue_def burst_init_def burst_ok_def burst_view_def atomic.burst_inv_def
      burst_pushed_def burst_popped_def)

lemma burst_good_step:
  assumes "burst_good bs nb s" and "burst_nexts bs nb c s = Some t"
  shows "burst_good bs nb t"
  using burst_steps_sim [OF _ assms(2)] assms(1) atomic.burst_step [of bs nb "burst_view s"] by metis

lemma burst_good_reach: "reach (burst_nexts bs nb) s t \<Longrightarrow> burst_good bs nb s \<Longrightarrow> burst_good bs nb t"
proof (induction rule: reach.induct)
  case (reach_step u c t)
  then show ?case using burst_good_step by blast
qed

lemma burst_return_push:
  assumes i: "burst_ok bs nb s"
  shows "\<exists>t. reach (burst_nexts bs nb) s t \<and> burst_view t = burst_view s \<and> \<not> published (b_queue t) \<and>
             taken (b_queue t) = taken (b_queue s)"
proof (cases "published (b_queue s)")
  case True
  then have s: "ok (b_queue s)" "pb_batch s < nb" "pb_i s < bs" "calling (b_queue s) = None"
    using i published_call by (auto simp: burst_ok_def)
  obtain b q where p: "push 0 (of_nat (pb_i s)) (b_queue s) = (b, q)" by fastforce
  have "calling (b_queue s) \<in> {None, Some (of_nat (pb_i s))}" using s(4) by simp
  from s(1) this p show ?thesis
  proof (cases rule: push_step_cases)
    case returns
    let ?t = "s\<lparr>b_queue := q, pb_i := Suc (pb_i s)\<rparr>"
    have "burst_nexts bs nb (Burst_Producer, 0) s = Some ?t"
      using s p returns by (simp add: burst_steps_def burst_next_def producer_burst_def)
    from reach_one [where nxt = "burst_nexts bs nb", OF this] returns s show ?thesis
      by (intro exI [of _ ?t]) (simp add: burst_view_def cong: option.case_cong)
  qed (use True in simp_all)
qed (blast intro: reach_start)

lemma burst_return_pop:
  assumes i: "burst_ok bs nb s"
  shows "\<exists>t. reach (burst_nexts bs nb) s t \<and> burst_view t = burst_view s \<and> taken (b_queue t) = None \<and>
             published (b_queue t) = published (b_queue s)"
proof (cases "taken (b_queue s)")
  case (Some v)
  then obtain t0 where s: "ok (b_queue s)" "cb_batch s < nb" "b_t0 s = Some t0" "cb_i s < bs"
    using i by (auto simp: burst_ok_def)
  obtain b out q where p: "pop 0 (b_val s) (b_queue s) = (b, out, q)" by (metis prod.collapse)
  from s(1) p show ?thesis
  proof (cases rule: pop_step_cases)
    case (returns w)
    let ?t = "s\<lparr>b_queue := q, b_val := out, cb_i := Suc (cb_i s)\<rparr>"
    have "burst_nexts bs nb (Burst_Consumer 0, 0) s = Some ?t"
      using s p returns by (simp add: burst_steps_def burst_next_def consumer_burst_def)
    from reach_one [where nxt = "burst_nexts bs nb", OF this] returns s show ?thesis
      by (intro exI [of _ ?t]) (simp add: burst_view_def cong: option.case_cong)
  qed (use Some in simp_all)
qed (blast intro: reach_start)

lemma burst_return_all:
  assumes i: "burst_good bs nb s"
  shows "\<exists>t. reach (burst_nexts bs nb) s t \<and> burst_good bs nb t \<and> burst_view t = burst_view s \<and>
             \<not> published (b_queue t) \<and> taken (b_queue t) = None"
proof -
  obtain t where t: "reach (burst_nexts bs nb) s t" "burst_view t = burst_view s" "\<not> published (b_queue t)"
    using burst_return_push i by blast
  obtain u where u: "reach (burst_nexts bs nb) t u" "burst_view u = burst_view t" "taken (b_queue u) = None"
    "published (b_queue u) = published (b_queue t)"
    using burst_return_pop burst_good_reach [OF t(1) i] by blast
  have "reach (burst_nexts bs nb) s u" using t(1) u(1) by (rule reach_trans)
  with burst_good_reach [OF this i] t u show ?thesis by auto
qed

lemma burst_commit_push:
  assumes i: "burst_ok bs nb s" and none: "\<not> published (b_queue s)" "taken (b_queue s) = None"
    and step: "view_burst bs nb Burst_Producer (burst_view s) = Some w" and moved: "w \<noteq> burst_view s"
  shows "\<exists>t. reach (burst_nexts bs nb) s t \<and> burst_view t = w"
proof (cases "pb_i s < bs")
  case True
  let ?x = "of_nat (pb_i s)"
  have n: "pb_batch s < nb" "length (items (b_queue s)) < limit"
    and w: "w = (burst_view s)\<lparr>b_queue := items (b_queue s) @ [?x], pb_i := Suc (pb_i s)\<rparr>"
    using step moved none True
    by (auto simp: burst_next_def producer_burst_def burst_view_def list_push_def split: if_splits)
  have q: "ok (b_queue s)" "calling (b_queue s) \<in> {None, Some ?x}"
    using i by (cases "calling (b_queue s)"; simp add: burst_ok_def)+
  obtain q' where "reach (burst_nexts bs nb) (s\<lparr>b_queue := b_queue s\<rparr>) (s\<lparr>b_queue := q'\<rparr>)" "published q'"
    "taken q' = taken (b_queue s)" "items q' = items (b_queue s) @ [?x]"
    by (rule push_lift [OF q none(1) n(2), of "burst_nexts bs nb" "Pair Burst_Producer" "\<lambda>q. s\<lparr>b_queue := q\<rparr>"])
      (use n True in \<open>cases s; simp add: burst_steps_def burst_next_def producer_burst_def\<close>)
  then show ?thesis using none w by (intro exI [of _ "s\<lparr>b_queue := q'\<rparr>"]) (simp add: burst_view_def)
next
  case False
  let ?t = "s\<lparr>pb_batch := Suc (pb_batch s), pb_i := 0\<rparr>"
  have "pb_batch s < nb" "w = burst_view ?t"
    using step none False by (auto simp: burst_next_def producer_burst_def burst_view_def split: if_splits)
  moreover from this have "burst_nexts bs nb (Burst_Producer, 0) s = Some ?t"
    using False by (simp add: burst_steps_def burst_next_def producer_burst_def)
  ultimately show ?thesis using reach_one [where nxt = "burst_nexts bs nb"] by blast
qed

lemma burst_commit_pop:
  assumes i: "burst_ok bs nb s" and none: "\<not> published (b_queue s)" "taken (b_queue s) = None"
    and step: "view_burst bs nb (Burst_Consumer clock) (burst_view s) = Some w" and moved: "w \<noteq> burst_view s"
  shows "\<exists>t. reach (burst_nexts bs nb) s t \<and> burst_view t = w"
proof (cases "\<exists>t0. b_t0 s = Some t0 \<and> cb_i s < bs")
  case True
  then obtain t0 where t0: "b_t0 s = Some t0" "cb_i s < bs" by blast
  have n: "cb_batch s < nb" "items (b_queue s) \<noteq> []"
    and w: "w = (burst_view s)\<lparr>b_queue := tl (items (b_queue s)), b_val := hd (items (b_queue s)), cb_i := Suc (cb_i s)\<rparr>"
    using step moved none t0
    by (auto simp: burst_next_def consumer_burst_def burst_view_def list_pop_def split: if_splits list.splits)
  have q: "ok (b_queue s)" using i by (simp add: burst_ok_def)
  obtain q' where "reach (burst_nexts bs nb) (s\<lparr>b_queue := b_queue s\<rparr>) (s\<lparr>b_queue := q'\<rparr>)"
    "taken q' = Some (hd (items (b_queue s)))" "published q' = published (b_queue s)" "items q' = tl (items (b_queue s))"
    by (rule pop_lift [OF q none(2) n(2), of "b_val s" "burst_nexts bs nb" "Pair (Burst_Consumer clock)" "\<lambda>q. s\<lparr>b_queue := q\<rparr>"])
      (use n t0 in \<open>cases s; simp add: burst_steps_def burst_next_def consumer_burst_def\<close>)
  then show ?thesis using none w by (intro exI [of _ "s\<lparr>b_queue := q'\<rparr>"]) (simp add: burst_view_def)
next
  case False
  have n: "cb_batch s < nb" using step by (simp add: burst_next_def consumer_burst_def burst_view_def split: if_splits)
  obtain t where t: "consumer_burst (pop 0) bs nb clock s = Some t"
    using n False by (cases "b_t0 s") (auto simp: consumer_burst_def)
  then have "w = burst_view t"
    using n none False step
    by (cases "b_t0 s") (auto simp: burst_next_def consumer_burst_def burst_view_def)
  moreover have "burst_nexts bs nb (Burst_Consumer clock, 0) s = Some t"
    using t by (simp add: burst_steps_def burst_next_def)
  ultimately show ?thesis using reach_one [where nxt = "burst_nexts bs nb"] by blast
qed

lemma burst_steps_complete: "burst_good bs nb s \<Longrightarrow> \<exists>t. reach (burst_nexts bs nb) s t \<and> burst_done nb t"
proof (induction "atomic.burst_left bs nb (burst_view s)" arbitrary: s rule: less_induct)
  case less
  obtain t where t: "reach (burst_nexts bs nb) s t" "burst_good bs nb t" "burst_view t = burst_view s"
    "\<not> published (b_queue t)" "taken (b_queue t) = None"
    using burst_return_all [OF less.prems] by blast
  show ?case
  proof (cases "burst_done nb (burst_view t)")
    case True
    then have "burst_done nb t" by (simp add: burst_done_def burst_view_def)
    with t(1) show ?thesis by blast
  next
    case False
    then obtain c w where w: "view_burst bs nb c (burst_view t) = Some w"
      "atomic.burst_left bs nb w < atomic.burst_left bs nb (burst_view t)"
      using atomic.burst_progress [of bs nb "burst_view t"] t(2) by blast
    then have "w \<noteq> burst_view t" by auto
    then obtain u where u: "reach (burst_nexts bs nb) t u" "burst_view u = w"
      using burst_commit_push [of bs nb t w] burst_commit_pop [of bs nb t _ w] t(2,4,5) w(1) by (cases c) blast+
    have "atomic.burst_left bs nb (burst_view u) < atomic.burst_left bs nb (burst_view s)"
      using w(2) u(2) t(3) by simp
    from less.hyps [OF this burst_good_reach [OF u(1) t(2)]] show ?thesis
      using reach_trans [OF reach_trans [OF t(1) u(1)]] by blast
  qed
qed

section \<open>What the loops do\<close>

lemma stream_outcome:
  assumes "new_queue q" and "reach (stream_nexts n) (stream_init q v) s"
  shows "ok (st_queue s)" and "\<not> st_failed s" and "st_sent s \<le> n"
    and "\<exists>t. reach (stream_nexts n) s t \<and> st_got t = n \<and> \<not> st_failed t"
proof -
  have outcome: "ok (st_queue s) \<and> \<not> st_failed s \<and> st_sent s \<le> n" if "stream_good n s" for s
    using that by (auto simp: stream_ok_def atomic.stream_inv_def stream_view_def split: if_splits)
  have good: "stream_good n s" using stream_good_reach [OF assms(2) stream_good_init [OF assms(1)]] .
  then show "ok (st_queue s)" "\<not> st_failed s" "st_sent s \<le> n" using outcome by blast+
  obtain t where t: "reach (stream_nexts n) s t" "st_got t = n" using stream_steps_complete [OF good] by blast
  with outcome stream_good_reach [OF t(1) good]
  show "\<exists>t. reach (stream_nexts n) s t \<and> st_got t = n \<and> \<not> st_failed t" by blast
qed

lemma stream_reaches_end:
  assumes "new_queue q"
  shows "\<exists>t. reach (stream_nexts n) (stream_init q v) t \<and> st_sent t = n \<and> st_got t = n"
proof -
  have start: "stream_good n (stream_init q v)" by (rule stream_good_init [OF assms])
  obtain s where s: "reach (stream_nexts n) (stream_init q v) s" "st_got s = n"
    using stream_steps_complete [OF start] by blast
  have good: "stream_good n s" by (rule stream_good_reach [OF s(1) start])
  have none: "taken (st_queue s) = None" using good s(2) by (auto simp: stream_ok_def)
  then have "st_got (stream_view s) = n" using s(2) by (simp add: stream_view_def)
  then have sent: "st_sent (stream_view s) = n" using good by (simp add: atomic.stream_inv_def)
  obtain t where t: "reach (stream_nexts n) s t" "stream_view t = stream_view s" "\<not> published (st_queue t)"
    "taken (st_queue t) = None"
    using stream_return_push [of n s] good none by auto
  have "st_sent (stream_view t) = st_sent t" "st_got (stream_view t) = st_got t"
    using t(3,4) by (simp_all add: stream_view_def)
  with t(2) sent \<open>st_got (stream_view s) = n\<close> reach_trans [OF s(1) t(1)] show ?thesis by (intro exI [of _ t]) simp
qed

lemma echo_outcome:
  assumes "new_queue q0" and "new_queue q1" and "reach (echo_nexts n) (echo_init q0 q1 e v) s"
  shows "ok (e_q0 s)" and "ok (e_q1 s)" and "echoes s = map of_nat [0 ..< req_i s]"
    and "\<exists>t. reach (echo_nexts n) s t \<and> echo_done n t \<and> echoes t = map of_nat [0 ..< n]"
proof -
  have outcome: "ok (e_q0 s) \<and> ok (e_q1 s) \<and> echoes s = map of_nat [0 ..< req_i s]" if "echo_good n s" for s
    using that by (cases "taken (e_q1 s)") (auto simp: echo_ok_def atomic.echo_inv_def echo_view_def)
  have good: "echo_good n s" using echo_good_reach [OF assms(3) echo_good_init [OF assms(1,2)]] .
  then show "ok (e_q0 s)" "ok (e_q1 s)" "echoes s = map of_nat [0 ..< req_i s]" using outcome by blast+
  obtain t where t: "reach (echo_nexts n) s t" "echo_done n t" using echo_steps_complete [OF good] by blast
  with outcome echo_good_reach [OF t(1) good]
  show "\<exists>t. reach (echo_nexts n) s t \<and> echo_done n t \<and> echoes t = map of_nat [0 ..< n]"
    by (auto simp: echo_done_def)
qed

lemma burst_end:
  assumes "burst_good bs nb s" and "burst_done nb s"
  shows "items (b_queue s) = []" and "length (times s) = nb"
proof -
  have "\<not> published (b_queue s)" "taken (b_queue s) = None" "pb_i s = 0" "cb_i s = 0"
    using assms by (auto simp: burst_ok_def atomic.burst_inv_def burst_view_def burst_done_def split: if_splits option.splits)
  with assms show "items (b_queue s) = []" "length (times s) = nb"
    by (simp_all add: atomic.burst_inv_def burst_view_def burst_done_def burst_popped_def burst_pushed_def)
qed

text \<open>Between calls the queue of test case 3 holds exactly the values not yet popped.\<close>

lemma burst_outcome:
  assumes "new_queue q" and "reach (burst_nexts bs nb) (burst_init q v) s"
  shows "ok (b_queue s)" and "length (times s) = cb_batch s"
    and "\<not> published (b_queue s) \<Longrightarrow> taken (b_queue s) = None \<Longrightarrow>
         items (b_queue s) = map (\<lambda>k. of_nat (k mod bs)) [burst_popped bs s ..< burst_pushed bs s]"
    and "\<exists>t. reach (burst_nexts bs nb) s t \<and> burst_done nb t \<and> items (b_queue t) = [] \<and> length (times t) = nb"
proof -
  have outcome: "ok (b_queue s) \<and> length (times s) = cb_batch s \<and>
      (\<not> published (b_queue s) \<longrightarrow> taken (b_queue s) = None \<longrightarrow>
         items (b_queue s) = map (\<lambda>k. of_nat (k mod bs)) [burst_popped bs s ..< burst_pushed bs s])"
    if "burst_good bs nb s" for s
    using that by (simp add: burst_ok_def atomic.burst_inv_def burst_view_def burst_popped_def burst_pushed_def)
  have good: "burst_good bs nb s" using burst_good_reach [OF assms(2) burst_good_init [OF assms(1)]] .
  then show "ok (b_queue s)" "length (times s) = cb_batch s"
    "\<not> published (b_queue s) \<Longrightarrow> taken (b_queue s) = None \<Longrightarrow>
       items (b_queue s) = map (\<lambda>k. of_nat (k mod bs)) [burst_popped bs s ..< burst_pushed bs s]"
    using outcome by blast+
  obtain t where t: "reach (burst_nexts bs nb) s t" "burst_done nb t" using burst_steps_complete [OF good] by blast
  with burst_end [OF burst_good_reach [OF t(1) good] t(2)] show "\<exists>t. reach (burst_nexts bs nb) s t \<and> burst_done nb t \<and> items (b_queue t) = [] \<and> length (times t) = nb"
    by blast
qed

end

end
