(* ===== verification/Spsc_Head_To_Head.thy ===== *)
theory Spsc_Head_To_Head
  imports Stepwise_Fifo Spsc_Progress
begin

text \<open>
  The worker loops of \<open>bench/spsc_head_to_head.cpp\<close> over \<open>MySpscWrapper\<close>, that is over
  \<open>spsc/SpscQueue.h\<close> with every access of a shared member a step of its own
  (\<open>Spsc_Concurrent\<close>).  In test case 2 there are two such queues, and each of the two
  threads is the producer of one and the consumer of the other; each queue has a memory of its
  own here, which orders less than the one memory of the program, so whatever holds in every
  execution of the model holds in every execution of the program.
\<close>

section \<open>One step of a call\<close>

text \<open>
  A step of \<open>try_push(x)\<close>: the call, one access, or the return, with the answer; \<open>try_pop\<close>
  likewise, where \<open>y\<close> is the caller's variable before the call.  The result is true exactly at
  the return of a call that succeeded.  A choice of a message that the thread cannot read any more
  leaves the queue as it is.
\<close>

definition advance :: "u64 \<Rightarrow> 'T action \<Rightarrow> 'T spsc_sys \<Rightarrow> 'T spsc_sys" where
  "advance C a q = (case spsc_next C a q of None \<Rightarrow> q | Some q' \<Rightarrow> q')"

definition push_access :: "u64 \<Rightarrow> nat \<Rightarrow> 'T \<Rightarrow> 'T spsc_sys \<Rightarrow> bool \<times> 'T spsc_sys" where
  "push_access C k x q =
     (case ppc q of
        P_Idle \<Rightarrow> (False, advance C (Call_Push x) q)
      | P_Done b \<Rightarrow> (b, advance C Ret_Push q)
      | _ \<Rightarrow> (False, advance C (Step_Push k) q))"

definition pop_access :: "u64 \<Rightarrow> nat \<Rightarrow> 'T \<Rightarrow> 'T spsc_sys \<Rightarrow> bool \<times> 'T \<times> 'T spsc_sys" where
  "pop_access C k y q =
     (case cpc q of
        C_Idle \<Rightarrow> (False, y, advance C Call_Pop q)
      | C_Done None \<Rightarrow> (False, y, advance C Ret_Pop q)
      | C_Done (Some v) \<Rightarrow> (True, v, advance C Ret_Pop q)
      | _ \<Rightarrow> (False, y, advance C (Step_Pop k) q))"

section \<open>The contract\<close>

lemma advance_inv: "capacity_ok C \<Longrightarrow> spsc_inv C q \<Longrightarrow> spsc_inv C (advance C a q)"
  using spsc_next_inv [of C q a] by (simp add: advance_def split: option.splits)

lemma push_access_inv: "capacity_ok C \<Longrightarrow> spsc_inv C q \<Longrightarrow> push_access C k x q = (b, q') \<Longrightarrow> spsc_inv C q'"
  by (auto simp: push_access_def intro: advance_inv split: producer_pc.splits)

lemma pop_access_inv: "capacity_ok C \<Longrightarrow> spsc_inv C q \<Longrightarrow> pop_access C k y q = (b, out, q') \<Longrightarrow> spsc_inv C q'"
  by (auto simp: pop_access_def intro: advance_inv split: consumer_pc.splits option.splits)

lemma push_access_law:
  assumes C: "capacity_ok C" and inv: "spsc_inv C q" and arg: "push_argument (ppc q) \<in> {None, Some x}"
    and p: "push_access C k x q = (b, q')"
  shows "pop_result (cpc q') = pop_result (cpc q) \<and> push_argument (ppc q') \<in> {None, Some x} \<and> b = (ppc q = P_Done True) \<and>
    (if ppc q = P_Done True then ppc q' \<noteq> P_Done True \<and> push_argument (ppc q') = None \<and> queued q' = queued q
     else if ppc q' = P_Done True
     then push_argument (ppc q') = None \<and> queued q' = queued q @ [x] \<and> length (queued q) < unat C
     else queued q' = queued q)"
proof (cases "push_rank (ppc q) = 0")
  case True
  then show ?thesis using p arg
    by (cases "ppc q") (auto simp: push_access_def advance_def spsc_next_def queued_def)
next
  case False
  then have step: "(b, q') = (False, case push_step C k q of None \<Rightarrow> q | Some t \<Rightarrow> t)" and pc: "ppc q \<noteq> P_Done True"
    using p by (cases "ppc q"; simp add: push_access_def advance_def spsc_next_def)+
  show ?thesis
  proof (cases "push_step C k q")
    case None
    then show ?thesis using step arg pc by simp
  next
    case (Some t)
    then have t: "q' = t" "\<not> b" using step by simp_all
    from push_step_effect [OF Some] show ?thesis
    proof (elim disjE exE conjE)
      fix y i assume e: "ppc q = P_Store_Tail y i" "ppc t = P_Done True" "pushed t = pushed q @ [y]"
      with queued_push [OF inv e(1,3)] push_step_frame [OF Some] arg show ?thesis by (simp add: t)
    next
      assume "ppc t \<noteq> P_Done True" "push_argument (ppc t) \<in> {None, push_argument (ppc q)}" "pushed t = pushed q"
      with push_step_frame [OF Some] arg pc show ?thesis by (auto simp: t queued_def)
    qed
  qed
qed

lemma pop_access_law:
  assumes C: "capacity_ok C" and inv: "spsc_inv C q" and p: "pop_access C k y q = (b, out, q')"
  shows "ppc q' = ppc q \<and>
    (case pop_result (cpc q) of
       Some v \<Rightarrow> b \<and> out = v \<and> pop_result (cpc q') = None \<and> queued q' = queued q
     | None \<Rightarrow> \<not> b \<and> out = y \<and>
         queued q = (case pop_result (cpc q') of None \<Rightarrow> queued q' | Some v \<Rightarrow> v # queued q'))"
proof (cases "pop_rank (cpc q) = 0")
  case True
  then show ?thesis using p
    by (cases "cpc q") (auto simp: pop_access_def advance_def spsc_next_def queued_def split: option.splits)
next
  case False
  then have step: "(b, out, q') = (False, y, case pop_step C k q of None \<Rightarrow> q | Some t \<Rightarrow> t)"
    and pc: "pop_result (cpc q) = None"
    using p by (cases "cpc q"; simp add: pop_access_def advance_def spsc_next_def)+
  show ?thesis
  proof (cases "pop_step C k q")
    case None
    then show ?thesis using step pc by simp
  next
    case (Some t)
    then have t: "q' = t" "out = y" "\<not> b" using step by simp_all
    from pop_step_effect [OF Some] show ?thesis
    proof (elim disjE exE conjE)
      fix h v assume e: "cpc q = C_Store_Head h v" "cpc t = C_Done (Some v)" "popped t = popped q @ [v]"
      with queued_pop [OF inv e(1,3)] pop_step_frame [OF Some] pc show ?thesis by (simp add: t)
    next
      assume "pop_result (cpc t) = None" "popped t = popped q"
      with pop_step_frame [OF Some] pc show ?thesis by (simp add: t queued_def)
    qed
  qed
qed

text \<open>A call that reads the other thread's newest index makes progress.\<close>

lemma push_access_progress:
  assumes inv: "spsc_inv C q" and room: "length (queued q) < unat C" and pc: "ppc q \<noteq> P_Done True"
  shows "\<exists>k. ppc (snd (push_access C k x q)) = P_Done True \<or>
             push_away (ppc (snd (push_access C k x q))) < push_away (ppc q)"
proof (cases "push_rank (ppc q) = 0")
  case True
  then show ?thesis using pc by (cases "ppc q") (auto simp: push_access_def advance_def spsc_next_def)
next
  case False
  obtain k t where t: "push_step C k q = Some t" "\<And>l m. push_reads k q = Some (l, m) \<Longrightarrow> index_messages q l = Suc m"
    using push_newest_possible [OF inv] False by blast
  then have "snd (push_access C k x q) = t"
    using False by (cases "ppc q") (simp_all add: push_access_def advance_def spsc_next_def)
  with push_step_newest [OF inv room t] show ?thesis by (intro exI [of _ k]) simp
qed

lemma pop_access_progress:
  assumes inv: "spsc_inv C q" and some: "queued q \<noteq> []" and pc: "pop_result (cpc q) = None"
  shows "\<exists>k. pop_result (cpc (snd (snd (pop_access C k y q)))) \<noteq> None \<or>
             pop_away (cpc (snd (snd (pop_access C k y q)))) < pop_away (cpc q)"
proof (cases "pop_rank (cpc q) = 0")
  case True
  then show ?thesis using pc by (cases "cpc q") (auto simp: pop_access_def advance_def spsc_next_def)
next
  case False
  obtain k t where t: "pop_step C k q = Some t" "\<And>l m. pop_reads k q = Some (l, m) \<Longrightarrow> index_messages q l = Suc m"
    using pop_newest_possible [OF inv] False by blast
  then have "snd (snd (pop_access C k y q)) = t"
    using False by (cases "cpc q") (simp_all add: pop_access_def advance_def spsc_next_def)
  with pop_step_newest [OF inv some t] show ?thesis by (intro exI [of _ k]) simp
qed

interpretation accesses: stepwise_fifo "push_access C" "pop_access C" queued
    "\<lambda>q. capacity_ok C \<and> spsc_inv C q" "unat C" "\<lambda>q. push_argument (ppc q)" "\<lambda>q. ppc q = P_Done True"
    "\<lambda>q. pop_result (cpc q)" "\<lambda>q. push_away (ppc q)" "\<lambda>q. pop_away (cpc q)" for C
proof
  fix q x k b q'
  assume "capacity_ok C \<and> spsc_inv C q" "push_argument (ppc q) \<in> {None, Some x}" "push_access C k x q = (b, q')"
  then show "(capacity_ok C \<and> spsc_inv C q') \<and> pop_result (cpc q') = pop_result (cpc q) \<and>
      push_argument (ppc q') \<in> {None, Some x} \<and> b = (ppc q = P_Done True) \<and>
      (if ppc q = P_Done True then ppc q' \<noteq> P_Done True \<and> push_argument (ppc q') = None \<and> queued q' = queued q
       else if ppc q' = P_Done True
       then push_argument (ppc q') = None \<and> queued q' = queued q @ [x] \<and> length (queued q) < unat C
       else queued q' = queued q)"
    using push_access_law [of C q x k b q'] push_access_inv [of C q k x b q'] by blast
next
  fix q y k b out q'
  assume a: "capacity_ok C \<and> spsc_inv C q" "pop_access C k y q = (b, out, q')"
  show "(capacity_ok C \<and> spsc_inv C q') \<and> (ppc q' = P_Done True) = (ppc q = P_Done True) \<and>
      push_argument (ppc q') = push_argument (ppc q) \<and>
      (case pop_result (cpc q) of
         Some v \<Rightarrow> b \<and> out = v \<and> pop_result (cpc q') = None \<and> queued q' = queued q
       | None \<Rightarrow> \<not> b \<and> out = y \<and>
           queued q = (case pop_result (cpc q') of None \<Rightarrow> queued q' | Some v \<Rightarrow> v # queued q'))"
    using pop_access_law [of C q k y b out q'] pop_access_inv [of C q k y b out q'] a by simp
qed (use push_access_progress pop_access_progress in auto)


text \<open>The five sizes \<open>main\<close> accepts.\<close>

lemma spsc_stepwise_loops:
  "0 < unat C \<Longrightarrow> stepwise_loops (push_access C) (pop_access C) queued (\<lambda>q. capacity_ok C \<and> spsc_inv C q)
     (unat C) (\<lambda>q. push_argument (ppc q)) (\<lambda>q. ppc q = P_Done True) (\<lambda>q. pop_result (cpc q))
     (\<lambda>q. push_away (ppc q)) (\<lambda>q. pop_away (cpc q))"
  by (intro stepwise_loops.intro accesses.stepwise_fifo_axioms stepwise_loops_axioms.intro)

interpretation spsc_64: stepwise_loops "push_access 64" "pop_access 64" queued
    "\<lambda>q. capacity_ok 64 \<and> spsc_inv 64 q" "unat (64 :: u64)" "\<lambda>q. push_argument (ppc q)" "\<lambda>q. ppc q = P_Done True"
    "\<lambda>q. pop_result (cpc q)" "\<lambda>q. push_away (ppc q)" "\<lambda>q. pop_away (cpc q)"
  by (rule spsc_stepwise_loops) simp

interpretation spsc_128: stepwise_loops "push_access 128" "pop_access 128" queued
    "\<lambda>q. capacity_ok 128 \<and> spsc_inv 128 q" "unat (128 :: u64)" "\<lambda>q. push_argument (ppc q)" "\<lambda>q. ppc q = P_Done True"
    "\<lambda>q. pop_result (cpc q)" "\<lambda>q. push_away (ppc q)" "\<lambda>q. pop_away (cpc q)"
  by (rule spsc_stepwise_loops) simp

interpretation spsc_256: stepwise_loops "push_access 256" "pop_access 256" queued
    "\<lambda>q. capacity_ok 256 \<and> spsc_inv 256 q" "unat (256 :: u64)" "\<lambda>q. push_argument (ppc q)" "\<lambda>q. ppc q = P_Done True"
    "\<lambda>q. pop_result (cpc q)" "\<lambda>q. push_away (ppc q)" "\<lambda>q. pop_away (cpc q)"
  by (rule spsc_stepwise_loops) simp

interpretation spsc_512: stepwise_loops "push_access 512" "pop_access 512" queued
    "\<lambda>q. capacity_ok 512 \<and> spsc_inv 512 q" "unat (512 :: u64)" "\<lambda>q. push_argument (ppc q)" "\<lambda>q. ppc q = P_Done True"
    "\<lambda>q. pop_result (cpc q)" "\<lambda>q. push_away (ppc q)" "\<lambda>q. pop_away (cpc q)"
  by (rule spsc_stepwise_loops) simp

interpretation spsc_1024: stepwise_loops "push_access 1024" "pop_access 1024" queued
    "\<lambda>q. capacity_ok 1024 \<and> spsc_inv 1024 q" "unat (1024 :: u64)" "\<lambda>q. push_argument (ppc q)" "\<lambda>q. ppc q = P_Done True"
    "\<lambda>q. pop_result (cpc q)" "\<lambda>q. push_away (ppc q)" "\<lambda>q. pop_away (cpc q)"
  by (rule spsc_stepwise_loops) simp

lemma spsc_new_queue:
  assumes "capacity_ok C" and "C \<noteq> 0"
  shows "stepwise_loops.new_queue queued (\<lambda>q. capacity_ok C \<and> spsc_inv C q) (\<lambda>q. push_argument (ppc q))
           (\<lambda>q. ppc q = P_Done True) (\<lambda>q. pop_result (cpc q)) (spsc_init g)"
proof -
  have "0 < unat C" using assms(2) by (simp add: unat_gt_0)
  from stepwise_loops.new_queue_def [OF spsc_stepwise_loops [OF this]] assms(1) spsc_inv_init [of C g]
  show ?thesis by (simp add: spsc_init_def queued_def)
qed

section \<open>The test cases on the concurrent queue\<close>

text \<open>
  Test case 1 on the repository's queue, access by access: whatever the
  interleaving of the two threads and however stale the indices they read, the queue has no data
  race and the consumer's assertion holds, and from every state the consumer can still receive
  every value.
\<close>

theorem spsc_stream_in_order:
  assumes "capacity_ok C" and "C \<noteq> 0"
    and "reach (stream_steps (push_access C) (pop_access C) n) (stream_init (spsc_init g) v) s"
  shows "\<not> race (qmem (st_queue s)) \<and> \<not> st_failed s \<and>
         (\<exists>t. reach (stream_steps (push_access C) (pop_access C) n) s t \<and> st_got t = n \<and> \<not> st_failed t)"
proof -
  have loops: "0 < unat C" using assms(2) by (simp add: unat_gt_0)
  note outcome = stepwise_loops.stream_outcome [OF spsc_stepwise_loops [OF loops] spsc_new_queue [OF assms(1,2)] assms(3)]
  show ?thesis using outcome(1,2,4) spsc_inv_facts(4) by blast
qed

text \<open>One value sent and received.\<close>

definition one_transfer :: "(side \<times> nat) list" where
  "one_transfer =
     [(Producer_Side, 0), (Consumer_Side, 0), (Producer_Side, 0), (Consumer_Side, 0), (Producer_Side, 0),
      (Producer_Side, 0), (Producer_Side, 0), (Consumer_Side, 1), (Consumer_Side, 0), (Consumer_Side, 0),
      (Consumer_Side, 0)]"

theorem spsc_stream_in_order_witness:
  "\<exists>s. reach (stream_steps (push_access 2) (pop_access 2) 2) (stream_init (spsc_init (\<lambda>_. 9)) 9) s \<and>
       st_got s = 1 \<and> \<not> race (qmem (st_queue s)) \<and> \<not> st_failed s"
proof -
  have "run_to (stream_steps (push_access 2) (pop_access 2) 2) one_transfer (stream_init (spsc_init (\<lambda>_. 9)) 9)
      (\<lambda>s. st_got s = 1)"
    by code_simp
  then obtain s where s: "reach (stream_steps (push_access 2) (pop_access 2) 2) (stream_init (spsc_init (\<lambda>_. 9)) 9) s"
      "st_got s = 1"
    by (blast dest: run_toD)
  have "capacity_ok 2" by code_simp
  with s spsc_stream_in_order [OF _ _ s(1)] show ?thesis by auto
qed

text \<open>
  Property C6. Test case 2 on the repository's queue, access by access, with each thread the
  producer of one queue and the consumer of the other: neither queue has a data race, every echo
  received is the value sent in its round, and from every state both threads can still finish all
  rounds.
\<close>

theorem spsc_echo_round_trips:
  assumes "capacity_ok C" and "C \<noteq> 0"
    and "reach (echo_steps (push_access C) (pop_access C) n) (echo_init (spsc_init g0) (spsc_init g1) e v) s"
  shows "\<not> race (qmem (e_q0 s)) \<and> \<not> race (qmem (e_q1 s)) \<and> echoes s = map of_nat [0 ..< req_i s] \<and>
         (\<exists>t. reach (echo_steps (push_access C) (pop_access C) n) s t \<and> echo_done n t \<and>
              echoes t = map of_nat [0 ..< n])"
proof -
  have loops: "0 < unat C" using assms(2) by (simp add: unat_gt_0)
  note outcome = stepwise_loops.echo_outcome [OF spsc_stepwise_loops [OF loops]
      spsc_new_queue [OF assms(1,2)] spsc_new_queue [OF assms(1,2)] assms(3)]
  show ?thesis using outcome spsc_inv_facts(4) by blast
qed

definition other_side :: "side \<times> nat \<Rightarrow> side \<times> nat" where
  "other_side c = (case fst c of Producer_Side \<Rightarrow> Consumer_Side | Consumer_Side \<Rightarrow> Producer_Side, snd c)"

theorem spsc_echo_round_trips_witness:
  "\<exists>s. reach (echo_steps (push_access 2) (pop_access 2) 2) (echo_init (spsc_init (\<lambda>_. 9)) (spsc_init (\<lambda>_. 9)) 9 9) s \<and>
       req_i s = 1 \<and> echoes s = [0] \<and> \<not> race (qmem (e_q0 s)) \<and> \<not> race (qmem (e_q1 s))"
proof -
  have "run_to (echo_steps (push_access 2) (pop_access 2) 2)
      (one_transfer @ map other_side one_transfer)
      (echo_init (spsc_init (\<lambda>_. 9)) (spsc_init (\<lambda>_. 9)) 9 9) (\<lambda>s. req_i s = 1)"
    by code_simp
  then obtain s where s: "reach (echo_steps (push_access 2) (pop_access 2) 2)
        (echo_init (spsc_init (\<lambda>_. 9)) (spsc_init (\<lambda>_. 9)) 9 9) s"
      "req_i s = 1"
    by (blast dest: run_toD)
  have "capacity_ok 2" by code_simp
  with s spsc_echo_round_trips [OF _ _ s(1)] show ?thesis by auto
qed

text \<open>
  Property C8. Test case 3 on the repository's queue, access by access: no data race, one time
  for each finished batch, between calls exactly the values not yet popped are in the queue, each
  its number modulo the batch size, and from every state both threads can still finish, which
  leaves the queue empty.
\<close>

theorem spsc_burst_measures_every_batch:
  assumes "capacity_ok C" and "C \<noteq> 0"
    and "reach (burst_steps (push_access C) (pop_access C) bs nb) (burst_init (spsc_init g) v) s"
  shows "\<not> race (qmem (b_queue s)) \<and> length (times s) = cb_batch s \<and>
         (ppc (b_queue s) = P_Idle \<and> cpc (b_queue s) = C_Idle \<longrightarrow>
            queued (b_queue s) = map (\<lambda>k. of_nat (k mod bs)) [burst_popped bs s ..< burst_pushed bs s]) \<and>
         (\<exists>t. reach (burst_steps (push_access C) (pop_access C) bs nb) s t \<and> burst_done nb t \<and>
              queued (b_queue t) = [] \<and> length (times t) = nb)"
proof -
  have loops: "0 < unat C" using assms(2) by (simp add: unat_gt_0)
  note outcome = stepwise_loops.burst_outcome [OF spsc_stepwise_loops [OF loops] spsc_new_queue [OF assms(1,2)] assms(3)]
  have "\<not> race (qmem (b_queue s))" using outcome(1) spsc_inv_facts(4) by blast
  then show ?thesis using outcome(2-4) by auto
qed

theorem spsc_burst_measures_every_batch_witness:
  "\<exists>s. reach (burst_steps (push_access 2) (pop_access 2) 2 1) (burst_init (spsc_init (\<lambda>_. 9)) 9) s \<and>
       ppc (b_queue s) = P_Idle \<and> cpc (b_queue s) = C_Idle \<and> pb_i s = 2 \<and>
       \<not> race (qmem (b_queue s)) \<and> queued (b_queue s) = [0, 1]"
proof -
  have "run_to (burst_steps (push_access 2) (pop_access 2) 2 1)
      (replicate 5 (Burst_Producer, 0) @ (Burst_Consumer 7, 0) #
       [(Burst_Producer, 0), (Burst_Producer, 1), (Burst_Producer, 0), (Burst_Producer, 0), (Burst_Producer, 0)])
      (burst_init (spsc_init (\<lambda>_. 9)) 9)
      (\<lambda>s. ppc (b_queue s) = P_Idle \<and> cpc (b_queue s) = C_Idle \<and> pb_i s = 2 \<and> burst_popped 2 s = 0 \<and> burst_pushed 2 s = 2)"
    by code_simp
  then obtain s where s: "reach (burst_steps (push_access 2) (pop_access 2) 2 1) (burst_init (spsc_init (\<lambda>_. 9)) 9) s"
      "ppc (b_queue s) = P_Idle" "cpc (b_queue s) = C_Idle" "pb_i s = 2" "burst_popped 2 s = 0" "burst_pushed 2 s = 2"
    by (blast dest: run_toD)
  have "capacity_ok 2" by code_simp
  with s spsc_burst_measures_every_batch [OF _ _ s(1)] show ?thesis by (auto simp: upt_rec)
qed

end
