(* ===== verification/Fair_Loops.thy ===== *)
theory Fair_Loops
  imports Stepwise_Fifo Fair_Runs
begin

text \<open>
  The three test cases of \<open>bench/spsc_head_to_head.cpp\<close> under a fair scheduler, over any queue
  whose calls take several steps (\<open>Stepwise_Fifo\<close>).  The locale \<open>fair_fifo\<close> adds to its contract
  which message a step loads, and that a call all of whose loads return the newest message comes
  closer to its effect with every step.
\<close>

section \<open>What a step of the loops loads\<close>

text \<open>
  \<open>push_loads\<close> and \<open>pop_loads\<close> give the load that a step of a call makes, \<open>messages\<close> the number of
  messages of a location.  In test case 2 the locations of the second queue are marked.
\<close>

definition stream_loads :: "(nat \<Rightarrow> 'q \<Rightarrow> ('l \<times> nat) option) \<Rightarrow> (nat \<Rightarrow> 'q \<Rightarrow> ('l \<times> nat) option)
    \<Rightarrow> side \<times> nat \<Rightarrow> 'q stream \<Rightarrow> ('l \<times> nat) option" where
  "stream_loads push_loads pop_loads c s =
     (case fst c of Producer_Side \<Rightarrow> push_loads (snd c) (st_queue s) | Consumer_Side \<Rightarrow> pop_loads (snd c) (st_queue s))"

definition echo_loads :: "(nat \<Rightarrow> 'q \<Rightarrow> ('l \<times> nat) option) \<Rightarrow> (nat \<Rightarrow> 'q \<Rightarrow> ('l \<times> nat) option)
    \<Rightarrow> side \<times> nat \<Rightarrow> 'q echo \<Rightarrow> ((bool \<times> 'l) \<times> nat) option" where
  "echo_loads push_loads pop_loads c s =
     (case fst c of
        Producer_Side \<Rightarrow>
          (case req_at s of Sending \<Rightarrow> map_option (apfst (Pair False)) (push_loads (snd c) (e_q0 s))
           | Awaiting \<Rightarrow> map_option (apfst (Pair True)) (pop_loads (snd c) (e_q1 s)))
      | Consumer_Side \<Rightarrow>
          (case resp_at s of Taking \<Rightarrow> map_option (apfst (Pair False)) (pop_loads (snd c) (e_q0 s))
           | Answering \<Rightarrow> map_option (apfst (Pair True)) (push_loads (snd c) (e_q1 s))))"

definition echo_stores :: "('q \<Rightarrow> 'l \<Rightarrow> nat) \<Rightarrow> 'q echo \<Rightarrow> bool \<times> 'l \<Rightarrow> nat" where
  "echo_stores messages s l = messages (if fst l then e_q1 s else e_q0 s) (snd l)"

definition burst_side :: "burst_choice \<times> nat \<Rightarrow> side" where
  "burst_side c = (case fst c of Burst_Producer \<Rightarrow> Producer_Side | Burst_Consumer clock \<Rightarrow> Consumer_Side)"

definition burst_loads :: "(nat \<Rightarrow> 'q \<Rightarrow> ('l \<times> nat) option) \<Rightarrow> (nat \<Rightarrow> 'q \<Rightarrow> ('l \<times> nat) option) \<Rightarrow> nat
    \<Rightarrow> burst_choice \<times> nat \<Rightarrow> 'q burst \<Rightarrow> ('l \<times> nat) option" where
  "burst_loads push_loads pop_loads bs c s =
     (case fst c of
        Burst_Producer \<Rightarrow> if pb_i s < bs then push_loads (snd c) (b_queue s) else None
      | Burst_Consumer clock \<Rightarrow>
          if b_t0 s \<noteq> None \<and> cb_i s < bs then pop_loads (snd c) (b_queue s) else None)"

section \<open>The contract\<close>

locale fair_fifo = stepwise_loops push pop items ok limit calling published taken push_left pop_left
  for push :: "nat \<Rightarrow> i32 \<Rightarrow> 'q \<Rightarrow> bool \<times> 'q" and pop :: "nat \<Rightarrow> i32 \<Rightarrow> 'q \<Rightarrow> bool \<times> i32 \<times> 'q"
    and items :: "'q \<Rightarrow> i32 list" and ok :: "'q \<Rightarrow> bool" and limit :: nat
    and calling :: "'q \<Rightarrow> i32 option" and published :: "'q \<Rightarrow> bool" and taken :: "'q \<Rightarrow> i32 option"
    and push_left :: "'q \<Rightarrow> nat" and pop_left :: "'q \<Rightarrow> nat" +
  fixes push_loads :: "nat \<Rightarrow> 'q \<Rightarrow> ('l \<times> nat) option" and pop_loads :: "nat \<Rightarrow> 'q \<Rightarrow> ('l \<times> nat) option"
    and messages :: "'q \<Rightarrow> 'l \<Rightarrow> nat"
  assumes push_newest: "ok q \<Longrightarrow> \<not> published q \<Longrightarrow> length (items q) < limit \<Longrightarrow> push k x q = (b, q') \<Longrightarrow>
      (\<And>l m. push_loads k q = Some (l, m) \<Longrightarrow> messages q l = Suc m) \<Longrightarrow>
      published q' \<or> push_left q' < push_left q"
    and pop_newest: "ok q \<Longrightarrow> taken q = None \<Longrightarrow> items q \<noteq> [] \<Longrightarrow> pop k y q = (b, out, q') \<Longrightarrow>
      (\<And>l m. pop_loads k q = Some (l, m) \<Longrightarrow> messages q l = Suc m) \<Longrightarrow>
      taken q' \<noteq> None \<or> pop_left q' < pop_left q"
    and push_frame: "ok q \<Longrightarrow> push k x q = (b, q') \<Longrightarrow> published q' \<longrightarrow> published q \<Longrightarrow> messages q' = messages q"
    and push_keeps_pop_left: "push k x q = (b, q') \<Longrightarrow> pop_left q' = pop_left q"
    and pop_frame: "ok q \<Longrightarrow> pop k y q = (b, out, q') \<Longrightarrow> taken q' \<noteq> None \<longrightarrow> taken q \<noteq> None \<Longrightarrow>
      messages q' = messages q"
    and pop_keeps_push_left: "pop k y q = (b, out, q') \<Longrightarrow> push_left q' = push_left q"
begin

abbreviation "stream_reads \<equiv> stream_loads push_loads pop_loads"
abbreviation "echo_reads \<equiv> echo_loads push_loads pop_loads"
abbreviation "echo_messages \<equiv> echo_stores messages"
abbreviation "burst_reads \<equiv> burst_loads push_loads pop_loads"

section \<open>Test case 1\<close>

text \<open>Calls that have taken effect and calls that have returned.\<close>

definition stream_score :: "'q stream \<Rightarrow> nat" where
  "stream_score s = st_sent s + st_got s + st_sent (stream_view s) + st_got (stream_view s)"

definition stream_pops :: "'q stream \<Rightarrow> bool" where
  "stream_pops s \<longleftrightarrow> items (st_queue s) \<noteq> [] \<or> taken (st_queue s) \<noteq> None"

definition stream_helper :: "'q stream \<Rightarrow> side" where
  "stream_helper s = (if stream_pops s then Consumer_Side else Producer_Side)"

definition stream_rank :: "'q stream \<Rightarrow> nat" where
  "stream_rank s = (if stream_pops s then pop_left (st_queue s) else push_left (st_queue s))"

text \<open>A step makes a call take effect or return, or leaves the loops where they are.\<close>

definition same_items :: "'q \<Rightarrow> 'q \<Rightarrow> bool" where
  "same_items q q' \<longleftrightarrow> items q' = items q \<and> published q' = published q \<and> taken q' = taken q"

lemma producer_thread_moves:
  assumes i: "stream_ok n s" and step: "producer_thread (push k) n s = Some t"
  shows "stream_score s < stream_score t \<or>
    (\<exists>q. t = s\<lparr>st_queue := q\<rparr> \<and> push k (of_nat (st_sent s)) (st_queue s) = (False, q) \<and>
         \<not> published (st_queue s) \<and> same_items (st_queue s) q)"
proof -
  obtain b q where p: "push k (of_nat (st_sent s)) (st_queue s) = (b, q)" by fastforce
  have t: "t = s\<lparr>st_queue := q, st_sent := if b then Suc (st_sent s) else st_sent s\<rparr>"
    using step p by (simp_all add: producer_thread_def split: if_splits)
  have q: "ok (st_queue s)" "calling (st_queue s) \<in> {None, Some (of_nat (st_sent s))}"
    using i by (cases "calling (st_queue s)"; simp add: stream_ok_def)+
  from q p show ?thesis
  proof (cases rule: push_step_cases)
    case returns
    then show ?thesis by (simp add: t stream_score_def stream_view_def cong: option.case_cong)
  next
    case commits
    then show ?thesis by (simp add: t stream_score_def stream_view_def cong: option.case_cong)
  next
    case moves
    then show ?thesis using p by (intro disjI2 exI [of _ q]) (simp add: t same_items_def)
  qed
qed

lemma consumer_thread_moves:
  assumes i: "stream_ok n s" and step: "consumer_thread (pop k) n s = Some t"
  shows "stream_score s < stream_score t \<or>
    (\<exists>q. t = s\<lparr>st_queue := q\<rparr> \<and> pop k (st_out s) (st_queue s) = (False, st_out s, q) \<and>
         taken (st_queue s) = None \<and> same_items (st_queue s) q)"
proof -
  obtain b out q where p: "pop k (st_out s) (st_queue s) = (b, out, q)" by (metis prod.collapse)
  have t: "t = (if b then s\<lparr>st_queue := q, st_out := out, st_got := Suc (st_got s),
      st_failed := st_failed s \<or> out \<noteq> of_nat (st_got s)\<rparr> else s\<lparr>st_queue := q, st_out := out\<rparr>)"
    using step p by (simp_all add: consumer_thread_def split: if_splits)
  have q: "ok (st_queue s)" using i by (simp add: stream_ok_def)
  from q p show ?thesis
  proof (cases rule: pop_step_cases)
    case (returns v)
    then show ?thesis by (simp add: t stream_score_def stream_view_def cong: option.case_cong)
  next
    case (commits v)
    then show ?thesis by (simp add: t stream_score_def stream_view_def cong: option.case_cong)
  next
    case moves
    then show ?thesis using p by (intro disjI2 exI [of _ q]) (simp add: t same_items_def)
  qed
qed

lemma stream_facts:
  assumes "stream_good n s"
  shows "ok (st_queue s)" and "stream_score s \<le> 4 * n"
    and "stream_pops s \<Longrightarrow> st_got s < n"
    and "\<not> stream_pops s \<Longrightarrow> \<not> (st_sent s = n \<and> st_got s = n) \<Longrightarrow> st_sent s < n"
    and "\<not> stream_pops s \<Longrightarrow> length (items (st_queue s)) < limit"
proof -
  let ?v = "stream_view s"
  have v: "st_got ?v \<le> st_sent ?v" "st_sent ?v \<le> n" "items (st_queue s) = map of_nat [st_got ?v ..< st_sent ?v]"
    using assms by (simp_all add: atomic.stream_inv_def) (simp add: stream_view_def)
  have le: "st_sent s \<le> st_sent ?v" "st_got s \<le> st_got ?v" by (simp_all add: stream_view_def split: option.split)
  show "ok (st_queue s)" using assms by (simp add: stream_ok_def)
  show "stream_score s \<le> 4 * n" using v le by (simp add: stream_score_def)
  show "length (items (st_queue s)) < limit" if "\<not> stream_pops s" using that room by (simp add: stream_pops_def)
  show "st_got s < n" if "stream_pops s"
  proof (cases "taken (st_queue s)")
    case None
    then have "st_got ?v < st_sent ?v" using that v(3) by (cases "st_got ?v < st_sent ?v") (auto simp: stream_pops_def)
    then show ?thesis using v le by simp
  qed (use assms in \<open>simp add: stream_ok_def\<close>)
  show "st_sent s < n" if "\<not> stream_pops s" "\<not> (st_sent s = n \<and> st_got s = n)"
  proof (rule ccontr)
    assume "\<not> st_sent s < n"
    then have n: "st_sent s = n" "st_sent ?v = n" using v le by simp_all
    have none: "taken (st_queue s) = None" "items (st_queue s) = []" using that(1) by (simp_all add: stream_pops_def)
    have "st_sent ?v \<le> st_got ?v" using v(3) none(2) by auto
    moreover have "st_got ?v = st_got s" using none(1) by (simp add: stream_view_def)
    ultimately have "st_got s = n" using n v(1,2) by linarith
    with n that(2) show False by simp
  qed
qed

lemma stream_can_move:
  assumes i: "stream_good n s" and left: "\<not> (st_sent s = n \<and> st_got s = n)"
  shows "can_move (stream_nexts n) fst (stream_helper s) s"
proof (cases "stream_pops s")
  case True
  have "stream_nexts n (Consumer_Side, 0) s \<noteq> None"
    using stream_facts(3) [OF i True] by (simp add: stream_steps_def stream_next_def consumer_thread_def split_beta)
  then show ?thesis unfolding can_move_def using True by (intro exI [of _ "(Consumer_Side, 0)"]) (simp add: stream_helper_def)
next
  case False
  have "stream_nexts n (Producer_Side, 0) s \<noteq> None"
    using stream_facts(4) [OF i False left] by (simp add: stream_steps_def stream_next_def producer_thread_def split_beta)
  then show ?thesis unfolding can_move_def using False by (intro exI [of _ "(Producer_Side, 0)"]) (simp add: stream_helper_def)
qed

lemma stream_moves:
  assumes i: "stream_good n s" and step: "stream_nexts n c s = Some t"
  shows "stream_score s < stream_score t \<or>
    (\<exists>q. t = s\<lparr>st_queue := q\<rparr> \<and> same_items (st_queue s) q \<and> messages q = messages (st_queue s) \<and>
       (case fst c of
          Producer_Side \<Rightarrow> \<not> published (st_queue s) \<and> push (snd c) (of_nat (st_sent s)) (st_queue s) = (False, q)
        | Consumer_Side \<Rightarrow> taken (st_queue s) = None \<and> pop (snd c) (st_out s) (st_queue s) = (False, st_out s, q)))"
proof (cases "fst c")
  case Producer_Side
  then have "producer_thread (push (snd c)) n s = Some t" using step by (simp add: stream_steps_def stream_next_def)
  from producer_thread_moves [OF _ this] i Producer_Side push_frame [OF stream_facts(1) [OF i]]
  show ?thesis by (auto simp: same_items_def)
next
  case Consumer_Side
  then have "consumer_thread (pop (snd c)) n s = Some t" using step by (simp add: stream_steps_def stream_next_def)
  from consumer_thread_moves [OF _ this] i Consumer_Side pop_frame [OF stream_facts(1) [OF i]]
  show ?thesis by (auto simp: same_items_def)
qed

lemma stream_helps:
  assumes i: "stream_good n s" and step: "stream_nexts n c s = Some t" and same: "stream_score t = stream_score s"
    and newest: "\<And>l m. stream_reads c s = Some (l, m) \<Longrightarrow> messages (st_queue s) l = Suc m"
  shows "stream_helper t = stream_helper s \<and> stream_rank t \<le> stream_rank s \<and>
         (fst c = stream_helper s \<longrightarrow> stream_rank t < stream_rank s)"
proof -
  from stream_moves [OF i step] same obtain q where t: "t = s\<lparr>st_queue := q\<rparr>" and q: "same_items (st_queue s) q"
    and call: "case fst c of
          Producer_Side \<Rightarrow> \<not> published (st_queue s) \<and> push (snd c) (of_nat (st_sent s)) (st_queue s) = (False, q)
        | Consumer_Side \<Rightarrow> taken (st_queue s) = None \<and> pop (snd c) (st_out s) (st_queue s) = (False, st_out s, q)"
    by auto
  have turn: "stream_pops t = stream_pops s" using q by (simp add: t stream_pops_def same_items_def)
  note ok = stream_facts(1) [OF i]
  show ?thesis
  proof (cases "fst c")
    case Producer_Side
    then have p: "\<not> published (st_queue s)" "push (snd c) (of_nat (st_sent s)) (st_queue s) = (False, q)"
      and loads: "\<And>l m. push_loads (snd c) (st_queue s) = Some (l, m) \<Longrightarrow> messages (st_queue s) l = Suc m"
      using call newest by (simp_all add: stream_loads_def)
    have "push_left q < push_left (st_queue s)" if "\<not> stream_pops s"
      using push_newest [OF ok p(1) stream_facts(5) [OF i that] p(2) loads] p(1) q by (simp add: same_items_def)
    with Producer_Side turn push_keeps_pop_left [OF p(2)] show ?thesis
      by (auto simp: stream_helper_def stream_rank_def t intro: less_imp_le)
  next
    case Consumer_Side
    then have p: "taken (st_queue s) = None" "pop (snd c) (st_out s) (st_queue s) = (False, st_out s, q)"
      and loads: "\<And>l m. pop_loads (snd c) (st_queue s) = Some (l, m) \<Longrightarrow> messages (st_queue s) l = Suc m"
      using call newest by (simp_all add: stream_loads_def)
    have "pop_left q < pop_left (st_queue s)" if "stream_pops s"
    proof -
      have "items (st_queue s) \<noteq> []" using that p(1) by (simp add: stream_pops_def)
      from pop_newest [OF ok p(1) this p(2) loads] p(1) q show ?thesis by (simp add: same_items_def)
    qed
    with Consumer_Side turn pop_keeps_push_left [OF p(2)] show ?thesis
      by (auto simp: stream_helper_def stream_rank_def t intro: less_imp_le)
  qed
qed

section \<open>Test case 2\<close>

definition echo_count :: "'b echo \<Rightarrow> nat" where
  "echo_count s =
     2 * req_i s + (if req_at s = Awaiting then 1 else 0) + 2 * resp_i s + (if resp_at s = Answering then 1 else 0)"

definition echo_score :: "'q echo \<Rightarrow> nat" where
  "echo_score s = echo_count s + echo_count (echo_view s)"

text \<open>The responder has something to do.\<close>

definition echo_responds :: "'q echo \<Rightarrow> bool" where
  "echo_responds s \<longleftrightarrow> resp_at s = Answering \<or> items (e_q0 s) \<noteq> [] \<or> taken (e_q0 s) \<noteq> None"

definition echo_helper :: "'q echo \<Rightarrow> side" where
  "echo_helper s = (if echo_responds s then Consumer_Side else Producer_Side)"

definition echo_rank :: "'q echo \<Rightarrow> nat" where
  "echo_rank s =
     (if echo_responds s then (if resp_at s = Answering then push_left (e_q1 s) else pop_left (e_q0 s))
      else (if req_at s = Sending then push_left (e_q0 s) else pop_left (e_q1 s)))"

lemma echo_req_moves:
  assumes i: "echo_ok n s" and step: "producer_req (push k) (pop k) n s = Some t"
  shows "echo_score s < echo_score t \<or>
    (\<exists>q. req_at s = Sending \<and> t = s\<lparr>e_q0 := q\<rparr> \<and> push k (of_nat (req_i s)) (e_q0 s) = (False, q) \<and>
         \<not> published (e_q0 s) \<and> same_items (e_q0 s) q) \<or>
    (\<exists>q. req_at s = Awaiting \<and> t = s\<lparr>e_q1 := q\<rparr> \<and> pop k (req_echo s) (e_q1 s) = (False, req_echo s, q) \<and>
         taken (e_q1 s) = None \<and> same_items (e_q1 s) q)"
proof (cases "req_at s")
  case Sending
  obtain b q where p: "push k (of_nat (req_i s)) (e_q0 s) = (b, q)" by fastforce
  have t: "t = s\<lparr>e_q0 := q, req_at := if b then Awaiting else Sending\<rparr>"
    using step p Sending by (simp_all add: producer_req_def split: if_splits)
  have q: "ok (e_q0 s)" "calling (e_q0 s) \<in> {None, Some (of_nat (req_i s))}" "taken (e_q1 s) = None"
    using i Sending by (cases "calling (e_q0 s)"; simp add: echo_ok_def)+
  from q(1,2) p show ?thesis
  proof (cases rule: push_step_cases)
    case returns
    then show ?thesis using Sending q(3)
      by (simp add: t echo_score_def echo_count_def echo_view_def cong: option.case_cong)
  next
    case commits
    then show ?thesis using Sending q(3)
      by (simp add: t echo_score_def echo_count_def echo_view_def cong: option.case_cong)
  next
    case moves
    then show ?thesis using p Sending by (intro disjI2 disjI1 exI [of _ q]) (cases s; simp add: t same_items_def)
  qed
next
  case Awaiting
  obtain b out q where p: "pop k (req_echo s) (e_q1 s) = (b, out, q)" by (metis prod.collapse)
  have t: "t = (if b then s\<lparr>e_q1 := q, req_echo := out, echoes := echoes s @ [out],
      req_i := Suc (req_i s), req_at := Sending\<rparr> else s\<lparr>e_q1 := q, req_echo := out\<rparr>)"
    using step p Awaiting by (simp_all add: producer_req_def split: if_splits)
  have q: "ok (e_q1 s)" "\<not> published (e_q0 s)"
    using i Awaiting by (simp_all add: echo_ok_def)
  from q(1) p show ?thesis
  proof (cases rule: pop_step_cases)
    case (returns v)
    then show ?thesis using Awaiting q(2)
      by (simp add: t echo_score_def echo_count_def echo_view_def cong: option.case_cong)
  next
    case (commits v)
    then show ?thesis using Awaiting q(2)
      by (simp add: t echo_score_def echo_count_def echo_view_def cong: option.case_cong)
  next
    case moves
    then show ?thesis using p Awaiting by (intro disjI2 exI [of _ q]) (cases s; simp add: t same_items_def)
  qed
qed

lemma echo_resp_moves:
  assumes i: "echo_ok n s" and step: "consumer_resp (push k) (pop k) n s = Some t"
  shows "echo_score s < echo_score t \<or>
    (\<exists>q. resp_at s = Answering \<and> t = s\<lparr>e_q1 := q\<rparr> \<and> push k (resp_val s) (e_q1 s) = (False, q) \<and>
         \<not> published (e_q1 s) \<and> same_items (e_q1 s) q) \<or>
    (\<exists>q. resp_at s = Taking \<and> t = s\<lparr>e_q0 := q\<rparr> \<and> pop k (resp_val s) (e_q0 s) = (False, resp_val s, q) \<and>
         taken (e_q0 s) = None \<and> same_items (e_q0 s) q)"
proof (cases "resp_at s")
  case Answering
  obtain b q where p: "push k (resp_val s) (e_q1 s) = (b, q)" by fastforce
  have t: "t = (if b then s\<lparr>e_q1 := q, resp_i := Suc (resp_i s), resp_at := Taking\<rparr> else s\<lparr>e_q1 := q\<rparr>)"
    using step p Answering by (simp_all add: consumer_resp_def split: if_splits)
  have q: "ok (e_q1 s)" "calling (e_q1 s) \<in> {None, Some (resp_val s)}" "taken (e_q0 s) = None"
    using i Answering by (cases "calling (e_q1 s)"; simp add: echo_ok_def)+
  from q(1,2) p show ?thesis
  proof (cases rule: push_step_cases)
    case returns
    then show ?thesis using Answering q(3)
      by (simp add: t echo_score_def echo_count_def echo_view_def cong: option.case_cong)
  next
    case commits
    then show ?thesis using Answering q(3)
      by (simp add: t echo_score_def echo_count_def echo_view_def cong: option.case_cong)
  next
    case moves
    then show ?thesis using p Answering by (intro disjI2 disjI1 exI [of _ q]) (cases s; simp add: t same_items_def)
  qed
next
  case Taking
  obtain b out q where p: "pop k (resp_val s) (e_q0 s) = (b, out, q)" by (metis prod.collapse)
  have t: "t = s\<lparr>e_q0 := q, resp_val := out, resp_at := if b then Answering else Taking\<rparr>"
    using step p Taking by (simp_all add: consumer_resp_def split: if_splits)
  have q: "ok (e_q0 s)" "\<not> published (e_q1 s)"
    using i Taking by (simp_all add: echo_ok_def)
  from q(1) p show ?thesis
  proof (cases rule: pop_step_cases)
    case (returns v)
    then show ?thesis using Taking q(2)
      by (simp add: t echo_score_def echo_count_def echo_view_def cong: option.case_cong)
  next
    case (commits v)
    then show ?thesis using Taking q(2)
      by (simp add: t echo_score_def echo_count_def echo_view_def cong: option.case_cong)
  next
    case moves
    then show ?thesis using p Taking by (intro disjI2 exI [of _ q]) (cases s; simp add: t same_items_def)
  qed
qed

lemma echo_facts:
  assumes i: "echo_good n s"
  shows "ok (e_q0 s)" and "ok (e_q1 s)" and "echo_score s \<le> 8 * n + 8"
    and "echo_responds s \<Longrightarrow> resp_i s < n"
    and "\<not> echo_responds s \<Longrightarrow> \<not> echo_done n s \<Longrightarrow> req_i s < n"
    and "resp_at s = Answering \<Longrightarrow> \<not> published (e_q1 s) \<Longrightarrow> length (items (e_q1 s)) < limit"
    and "\<not> echo_responds s \<Longrightarrow> length (items (e_q0 s)) < limit"
    and "\<not> echo_responds s \<Longrightarrow> req_at s = Awaiting \<Longrightarrow> taken (e_q1 s) = None \<Longrightarrow> items (e_q1 s) \<noteq> []"
proof -
  let ?v = "echo_view s"
  have o: "published (e_q0 s) \<Longrightarrow> req_at s = Sending" "taken (e_q1 s) \<noteq> None \<Longrightarrow> req_at s = Awaiting \<and> req_i s < n"
    "published (e_q1 s) \<Longrightarrow> resp_at s = Answering \<and> resp_i s < n" "taken (e_q0 s) \<noteq> None \<Longrightarrow> resp_at s = Taking \<and> resp_i s < n"
    and ok: "ok (e_q0 s)" "ok (e_q1 s)"
    using i by (auto simp: echo_ok_def)
  have inv: "req_i ?v \<le> n" "resp_i ?v \<le> Suc n"
    using i by (auto simp: atomic.echo_inv_def split: req_pc.splits if_splits)
  have items: "items (e_q0 s) = e_q0 ?v" "items (e_q1 s) = e_q1 ?v" by (simp_all add: echo_view_def)
  have v_inv: "atomic.echo_inv n ?v" using i by simp
  have le: "req_i s \<le> req_i ?v" "resp_i s \<le> resp_i ?v" by (simp_all add: echo_view_def split: option.split)
  show "ok (e_q0 s)" "ok (e_q1 s)" by (rule ok)+
  show "echo_score s \<le> 8 * n + 8" using inv le by (simp add: echo_score_def echo_count_def)
  have answering: "req_at ?v = Awaiting \<and> resp_i s < n \<and> items (e_q1 s) = []"
    if "resp_at s = Answering" "\<not> published (e_q1 s)"
  proof -
    have "resp_at ?v = Answering" "resp_i ?v = resp_i s"
      using that o(4) by (cases "taken (e_q0 s)"; simp add: echo_view_def)+
    then show ?thesis using v_inv unfolding items atomic.echo_inv_def by (auto split: req_pc.splits)
  qed
  show "length (items (e_q1 s)) < limit" if "resp_at s = Answering" "\<not> published (e_q1 s)"
    using answering [OF that] room by simp
  show "length (items (e_q0 s)) < limit" if "\<not> echo_responds s"
    using that room by (simp add: echo_responds_def)
  show "resp_i s < n" if "echo_responds s"
  proof (cases "resp_at s = Answering \<or> taken (e_q0 s) \<noteq> None")
    case True
    then show ?thesis using answering o(3,4) by blast
  next
    case False
    then have taking: "resp_at s = Taking" "taken (e_q0 s) = None" "\<not> published (e_q1 s)" "items (e_q0 s) \<noteq> []"
      using that o(3) by (auto simp: echo_responds_def intro: resp_pc.exhaust)
    then have "resp_at ?v = Taking \<and> resp_i ?v = resp_i s \<and> e_q0 ?v \<noteq> []" by (simp add: echo_view_def)
    then show ?thesis using v_inv unfolding atomic.echo_inv_def by (auto split: req_pc.splits if_splits)
  qed
  have idle: "resp_at ?v = Taking \<and> resp_i ?v = resp_i s \<and> e_q0 ?v = []" if "\<not> echo_responds s"
    using that o(3) by (cases "resp_at s") (auto simp: echo_view_def echo_responds_def)
  show "req_i s < n" if "\<not> echo_responds s" "\<not> echo_done n s"
  proof (rule ccontr)
    assume n: "\<not> req_i s < n"
    then have "req_i s = n" "req_i ?v = n" using le inv by simp_all
    then have "resp_i s = n" using v_inv idle [OF that(1)] unfolding atomic.echo_inv_def by (auto split: req_pc.splits)
    with \<open>req_i s = n\<close> that(2) show False by (simp add: echo_done_def)
  qed
  show "items (e_q1 s) \<noteq> []" if "\<not> echo_responds s" "req_at s = Awaiting" "taken (e_q1 s) = None"
  proof -
    have "req_at ?v = Awaiting" using that by (simp add: echo_view_def)
    then show ?thesis using v_inv idle [OF that(1)] unfolding items atomic.echo_inv_def by (auto split: if_splits)
  qed
qed

lemma echo_can_move:
  assumes i: "echo_good n s" and left: "\<not> echo_done n s"
  shows "can_move (echo_nexts n) fst (echo_helper s) s"
proof (cases "echo_responds s")
  case True
  have "echo_nexts n (Consumer_Side, 0) s \<noteq> None"
    using echo_facts(4) [OF i True]
    by (cases "resp_at s") (simp_all add: echo_steps_def echo_next_def consumer_resp_def split_beta)
  then show ?thesis unfolding can_move_def using True by (intro exI [of _ "(Consumer_Side, 0)"]) (simp add: echo_helper_def)
next
  case False
  have "echo_nexts n (Producer_Side, 0) s \<noteq> None"
    using echo_facts(5) [OF i False left]
    by (cases "req_at s") (simp_all add: echo_steps_def echo_next_def producer_req_def split_beta)
  then show ?thesis unfolding can_move_def using False by (intro exI [of _ "(Producer_Side, 0)"]) (simp add: echo_helper_def)
qed

text \<open>A step that changes no count: one call moves on inside, on one of the two queues.\<close>

lemma echo_moves:
  assumes i: "echo_good n s" and step: "echo_nexts n c s = Some t"
  obtains (counts) "echo_score s < echo_score t"
    | (request) q where "fst c = Producer_Side" "req_at s = Sending" "t = s\<lparr>e_q0 := q\<rparr>"
        "push (snd c) (of_nat (req_i s)) (e_q0 s) = (False, q)" "\<not> published (e_q0 s)" "same_items (e_q0 s) q"
    | (await) q where "fst c = Producer_Side" "req_at s = Awaiting" "t = s\<lparr>e_q1 := q\<rparr>"
        "pop (snd c) (req_echo s) (e_q1 s) = (False, req_echo s, q)" "taken (e_q1 s) = None" "same_items (e_q1 s) q"
    | (answer) q where "fst c = Consumer_Side" "resp_at s = Answering" "t = s\<lparr>e_q1 := q\<rparr>"
        "push (snd c) (resp_val s) (e_q1 s) = (False, q)" "\<not> published (e_q1 s)" "same_items (e_q1 s) q"
    | (take) q where "fst c = Consumer_Side" "resp_at s = Taking" "t = s\<lparr>e_q0 := q\<rparr>"
        "pop (snd c) (resp_val s) (e_q0 s) = (False, resp_val s, q)" "taken (e_q0 s) = None" "same_items (e_q0 s) q"
proof (cases "fst c")
  case Producer_Side
  then have "producer_req (push (snd c)) (pop (snd c)) n s = Some t" using step by (simp add: echo_steps_def echo_next_def)
  from echo_req_moves [OF _ this] i Producer_Side that(1-3) show thesis by blast
next
  case Consumer_Side
  then have "consumer_resp (push (snd c)) (pop (snd c)) n s = Some t" using step by (simp add: echo_steps_def echo_next_def)
  from echo_resp_moves [OF _ this] i Consumer_Side that(1,4,5) show thesis by blast
qed

lemma echo_counts: "echo_good n s \<Longrightarrow> echo_nexts n c s = Some t \<Longrightarrow> echo_score s \<le> echo_score t"
  by (erule (1) echo_moves)
    (simp_all add: echo_score_def echo_count_def echo_view_def same_items_def cong: option.case_cong)

lemma echo_stored:
  assumes i: "echo_good n s" and step: "echo_nexts n c s = Some t" and same: "echo_score t = echo_score s"
  shows "echo_messages t = echo_messages s"
  using i step
proof (cases rule: echo_moves)
  case (request q)
  with push_frame [OF echo_facts(1) [OF i] request(4)] show ?thesis by (auto simp: echo_stores_def same_items_def)
next
  case (await q)
  with pop_frame [OF echo_facts(2) [OF i] await(4)] show ?thesis by (auto simp: echo_stores_def same_items_def)
next
  case (answer q)
  with push_frame [OF echo_facts(2) [OF i] answer(4)] show ?thesis by (auto simp: echo_stores_def same_items_def)
next
  case (take q)
  with pop_frame [OF echo_facts(1) [OF i] take(4)] show ?thesis by (auto simp: echo_stores_def same_items_def)
qed (use same in simp)

lemma echo_helps:
  assumes i: "echo_good n s" and step: "echo_nexts n c s = Some t" and same: "echo_score t = echo_score s"
    and newest: "\<And>l m. echo_reads c s = Some (l, m) \<Longrightarrow> echo_messages s l = Suc m"
  shows "echo_helper t = echo_helper s \<and> echo_rank t \<le> echo_rank s \<and>
         (fst c = echo_helper s \<longrightarrow> echo_rank t < echo_rank s)"
  using i step
proof (cases rule: echo_moves)
  case (request q)
  have loads: "messages (e_q0 s) l = Suc m" if "push_loads (snd c) (e_q0 s) = Some (l, m)" for l m
    using newest [of "(False, l)" m] request(1,2) that by (simp add: echo_loads_def echo_stores_def)
  have "push_left q < push_left (e_q0 s)" if "\<not> echo_responds s"
    using push_newest [OF echo_facts(1) [OF i] request(5) echo_facts(7) [OF i that] request(4) loads] request(5,6)
    by (simp add: same_items_def)
  with request push_keeps_pop_left [OF request(4)] show ?thesis
    by (auto simp: echo_helper_def echo_rank_def echo_responds_def same_items_def)
next
  case (await q)
  have loads: "messages (e_q1 s) l = Suc m" if "pop_loads (snd c) (e_q1 s) = Some (l, m)" for l m
    using newest [of "(True, l)" m] await(1,2) that by (simp add: echo_loads_def echo_stores_def)
  have "pop_left q < pop_left (e_q1 s)" if "\<not> echo_responds s"
    using pop_newest [OF echo_facts(2) [OF i] await(5) echo_facts(8) [OF i that await(2,5)] await(4) loads] await(5,6)
    by (simp add: same_items_def)
  with await pop_keeps_push_left [OF await(4)] show ?thesis
    by (auto simp: echo_helper_def echo_rank_def echo_responds_def same_items_def)
next
  case (answer q)
  have loads: "messages (e_q1 s) l = Suc m" if "push_loads (snd c) (e_q1 s) = Some (l, m)" for l m
    using newest [of "(True, l)" m] answer(1,2) that by (simp add: echo_loads_def echo_stores_def)
  have "push_left q < push_left (e_q1 s)"
    using push_newest [OF echo_facts(2) [OF i] answer(5) echo_facts(6) [OF i answer(2,5)] answer(4) loads] answer(5,6)
    by (simp add: same_items_def)
  with answer show ?thesis by (auto simp: echo_helper_def echo_rank_def echo_responds_def)
next
  case (take q)
  have loads: "messages (e_q0 s) l = Suc m" if "pop_loads (snd c) (e_q0 s) = Some (l, m)" for l m
    using newest [of "(False, l)" m] take(1,2) that by (simp add: echo_loads_def echo_stores_def)
  have "pop_left q < pop_left (e_q0 s)" if "echo_responds s"
  proof -
    have "items (e_q0 s) \<noteq> []" using that take(2,5) by (simp add: echo_responds_def)
    from pop_newest [OF echo_facts(1) [OF i] take(5) this take(4) loads] take(5,6) show ?thesis
      by (simp add: same_items_def)
  qed
  with take pop_keeps_push_left [OF take(4)] show ?thesis
    by (auto simp: echo_helper_def echo_rank_def echo_responds_def same_items_def)
qed (use same in simp)

section \<open>Test case 3\<close>

definition burst_count :: "nat \<Rightarrow> 'b burst \<Rightarrow> nat" where
  "burst_count bs s =
     Suc bs * pb_batch s + pb_i s +
     (Suc (Suc bs) * cb_batch s + (case b_t0 s of None \<Rightarrow> 0 | Some t0 \<Rightarrow> Suc (cb_i s)))"

definition burst_score :: "nat \<Rightarrow> 'q burst \<Rightarrow> nat" where
  "burst_score bs s = burst_count bs s + burst_count bs (burst_view s)"

text \<open>The consumer has something to do: take a time, or pop.\<close>

definition burst_pops :: "nat \<Rightarrow> nat \<Rightarrow> 'q burst \<Rightarrow> bool" where
  "burst_pops bs nb s \<longleftrightarrow>
     cb_batch s < nb \<and>
     (b_t0 s = None \<or> bs \<le> cb_i s \<or> items (b_queue s) \<noteq> [] \<or> taken (b_queue s) \<noteq> None)"

definition burst_helper :: "nat \<Rightarrow> nat \<Rightarrow> 'q burst \<Rightarrow> side" where
  "burst_helper bs nb s = (if burst_pops bs nb s then Consumer_Side else Producer_Side)"

definition burst_rank :: "nat \<Rightarrow> nat \<Rightarrow> 'q burst \<Rightarrow> nat" where
  "burst_rank bs nb s = (if burst_pops bs nb s then pop_left (b_queue s) else push_left (b_queue s))"

lemma burst_view_bounds:
  assumes "burst_good bs nb s"
  shows "pb_i s \<le> bs" and "pb_i (burst_view s) \<le> bs" and "cb_i s \<le> bs" and "cb_i (burst_view s) \<le> bs"
    and "pb_batch s \<le> nb" and "cb_batch s \<le> nb"
proof -
  have v: "pb_i (burst_view s) \<le> bs" "cb_i (burst_view s) \<le> bs" "pb_batch (burst_view s) \<le> nb" "cb_batch (burst_view s) \<le> nb"
    using assms by (simp_all add: atomic.burst_inv_def)
  show "pb_i (burst_view s) \<le> bs" "cb_i (burst_view s) \<le> bs" by (rule v)+
  show "pb_batch s \<le> nb" "cb_batch s \<le> nb" using v(3,4) by (simp_all add: burst_view_def)
  have "pb_i s \<le> pb_i (burst_view s)" "cb_i s \<le> cb_i (burst_view s)" by (simp_all add: burst_view_def split: option.split)
  with v show "pb_i s \<le> bs" "cb_i s \<le> bs" by simp_all
qed

lemma producer_burst_moves:
  assumes i: "burst_good bs nb s" and step: "producer_burst (push k) bs nb s = Some t"
  shows "burst_score bs s < burst_score bs t \<or>
    (\<exists>q. pb_i s < bs \<and> t = s\<lparr>b_queue := q\<rparr> \<and> push k (of_nat (pb_i s)) (b_queue s) = (False, q) \<and>
         \<not> published (b_queue s) \<and> same_items (b_queue s) q)"
proof (cases "pb_i s < bs")
  case True
  obtain b q where p: "push k (of_nat (pb_i s)) (b_queue s) = (b, q)" by fastforce
  have t: "t = s\<lparr>b_queue := q, pb_i := if b then Suc (pb_i s) else pb_i s\<rparr>"
    using step p True by (simp_all add: producer_burst_def split: if_splits)
  have q: "ok (b_queue s)" "calling (b_queue s) \<in> {None, Some (of_nat (pb_i s))}"
    using i by (cases "calling (b_queue s)"; simp add: burst_ok_def)+
  from q p show ?thesis
  proof (cases rule: push_step_cases)
    case returns
    then show ?thesis by (simp add: t burst_score_def burst_count_def burst_view_def cong: option.case_cong)
  next
    case commits
    then show ?thesis by (simp add: t burst_score_def burst_count_def burst_view_def cong: option.case_cong)
  next
    case moves
    then show ?thesis using p True by (intro disjI2 exI [of _ q]) (cases s; simp add: t same_items_def)
  qed
next
  case False
  have t: "t = s\<lparr>pb_batch := Suc (pb_batch s), pb_i := 0\<rparr>"
    using step False by (simp_all add: producer_burst_def split: if_splits)
  have "\<not> published (b_queue s)" using i False by (auto simp: burst_ok_def)
  then show ?thesis using False burst_view_bounds(1) [OF i]
    by (simp add: t burst_score_def burst_count_def burst_view_def cong: option.case_cong)
qed

lemma consumer_burst_moves:
  assumes i: "burst_good bs nb s" and step: "consumer_burst (pop k) bs nb clock s = Some t"
  shows "burst_score bs s < burst_score bs t \<or>
    (\<exists>q. b_t0 s \<noteq> None \<and> cb_i s < bs \<and> t = s\<lparr>b_queue := q\<rparr> \<and> pop k (b_val s) (b_queue s) = (False, b_val s, q) \<and>
         taken (b_queue s) = None \<and> same_items (b_queue s) q)"
proof (cases "\<exists>t0. b_t0 s = Some t0 \<and> cb_i s < bs")
  case True
  then obtain t0 where t0: "b_t0 s = Some t0" "cb_i s < bs" by blast
  obtain b out q where p: "pop k (b_val s) (b_queue s) = (b, out, q)" by (metis prod.collapse)
  have t: "t = s\<lparr>b_queue := q, b_val := out, cb_i := if b then Suc (cb_i s) else cb_i s\<rparr>"
    using step p t0 by (simp_all add: consumer_burst_def split: if_splits)
  have q: "ok (b_queue s)" using i by (simp add: burst_ok_def)
  from q p show ?thesis
  proof (cases rule: pop_step_cases)
    case (returns v)
    then show ?thesis using t0 by (simp add: t burst_score_def burst_count_def burst_view_def cong: option.case_cong)
  next
    case (commits v)
    then show ?thesis using t0 by (simp add: t burst_score_def burst_count_def burst_view_def cong: option.case_cong)
  next
    case moves
    then show ?thesis using p t0 by (intro disjI2 exI [of _ q]) (cases s; simp add: t same_items_def)
  qed
next
  case False
  then have none: "taken (b_queue s) = None" using i by (auto simp: burst_ok_def)
  show ?thesis
  proof (cases "b_t0 s")
    case None
    then have "t = s\<lparr>b_t0 := Some clock, cb_i := 0\<rparr>" using step by (simp add: consumer_burst_def split: if_splits)
    then show ?thesis using None none by (simp add: burst_score_def burst_count_def burst_view_def)
  next
    case (Some t0)
    then have full: "cb_i s = bs" using False burst_view_bounds(3) [OF i] by simp
    have "t = s\<lparr>times := times s @ [clock - t0], b_t0 := None, cb_i := 0, cb_batch := Suc (cb_batch s)\<rparr>"
      using step Some full by (simp add: consumer_burst_def split: if_splits)
    then show ?thesis using Some none full by (simp add: burst_score_def burst_count_def burst_view_def)
  qed
qed

lemma burst_moves:
  assumes i: "burst_good bs nb s" and step: "burst_nexts bs nb c s = Some t"
  obtains (counts) "burst_score bs s < burst_score bs t"
    | (push) q where "fst c = Burst_Producer" "pb_i s < bs" "t = s\<lparr>b_queue := q\<rparr>"
        "push (snd c) (of_nat (pb_i s)) (b_queue s) = (False, q)" "\<not> published (b_queue s)" "same_items (b_queue s) q"
    | (pop) clock q where "fst c = Burst_Consumer clock" "b_t0 s \<noteq> None \<and> cb_i s < bs" "t = s\<lparr>b_queue := q\<rparr>"
        "pop (snd c) (b_val s) (b_queue s) = (False, b_val s, q)" "taken (b_queue s) = None" "same_items (b_queue s) q"
proof (cases "fst c")
  case Burst_Producer
  then have "producer_burst (push (snd c)) bs nb s = Some t" using step by (simp add: burst_steps_def burst_next_def)
  from producer_burst_moves [OF i this] Burst_Producer that(1,2) show thesis by blast
next
  case (Burst_Consumer clock)
  then have "consumer_burst (pop (snd c)) bs nb clock s = Some t" using step by (simp add: burst_steps_def burst_next_def)
  from consumer_burst_moves [OF i this] Burst_Consumer that(1,3) show thesis by blast
qed

definition burst_bound :: "nat \<Rightarrow> nat \<Rightarrow> nat" where
  "burst_bound bs nb = 2 * (Suc bs * nb + bs + (Suc (Suc bs) * nb + Suc bs))"

lemma burst_count_bound:
  assumes "pb_batch s \<le> nb" "cb_batch s \<le> nb" "pb_i s \<le> bs" "cb_i s \<le> bs"
  shows "burst_count bs s \<le> Suc bs * nb + bs + (Suc (Suc bs) * nb + Suc bs)"
  unfolding burst_count_def using assms by (intro add_mono mult_le_mono) (simp_all split: option.split)

lemma burst_facts:
  assumes i: "burst_good bs nb s"
  shows "ok (b_queue s)" and "burst_score bs s \<le> burst_bound bs nb"
    and "\<not> burst_pops bs nb s \<Longrightarrow> \<not> burst_done nb s \<Longrightarrow> pb_batch s < nb"
    and "\<not> burst_pops bs nb s \<Longrightarrow> length (items (b_queue s)) < limit"
proof -
  let ?v = "burst_view s"
  note b = burst_view_bounds [OF i]
  have batches: "pb_batch ?v = pb_batch s" "cb_batch ?v = cb_batch s" by (simp_all add: burst_view_def)
  have items: "items (b_queue s) = b_queue ?v" by (simp add: burst_view_def)
  have inv: "b_queue ?v = map (\<lambda>k. of_nat (k mod bs)) [burst_popped bs ?v ..< burst_pushed bs ?v]"
    "burst_popped bs ?v \<le> burst_pushed bs ?v" "pb_batch ?v = nb \<longrightarrow> pb_i ?v = 0"
    using i by (simp_all add: atomic.burst_inv_def)
  show "ok (b_queue s)" using i by (simp add: burst_ok_def)
  show "burst_score bs s \<le> burst_bound bs nb"
    using burst_count_bound [of s nb bs] burst_count_bound [of ?v nb bs] b batches
    by (simp add: burst_score_def burst_bound_def)
  have pushed: "burst_pushed bs ?v \<le> bs * nb"
  proof (cases "pb_batch s = nb")
    case True
    then show ?thesis using inv(3) batches by (simp add: burst_pushed_def)
  next
    case False
    then have "bs * Suc (pb_batch s) \<le> bs * nb" using b(5) by (intro mult_le_mono2) simp
    then show ?thesis using b(2) batches by (simp add: burst_pushed_def)
  qed
  have empty: "items (b_queue s) = []" if "\<not> burst_pops bs nb s"
  proof (cases "cb_batch s < nb")
    case False
    then have "bs * nb \<le> burst_popped bs ?v" using b(6) batches by (simp add: burst_popped_def)
    then show ?thesis using pushed inv(1) items by simp
  qed (use that in \<open>simp add: burst_pops_def\<close>)
  then show "length (items (b_queue s)) < limit" if "\<not> burst_pops bs nb s" using that room by simp
  show "pb_batch s < nb" if stuck: "\<not> burst_pops bs nb s" "\<not> burst_done nb s"
  proof (rule ccontr)
    assume "\<not> pb_batch s < nb"
    then have n: "pb_batch s = nb" using b(5) by simp
    then have c: "cb_batch s < nb" using stuck(2) b(6) by (auto simp: burst_done_def)
    then have w: "cb_i s < bs" "taken (b_queue s) = None" using stuck(1) by (auto simp: burst_pops_def)
    have "bs * nb \<le> burst_popped bs ?v"
      using empty [OF stuck(1)] items inv n batches by (auto simp: burst_pushed_def)
    moreover have "bs * Suc (cb_batch s) \<le> bs * nb" using c by (intro mult_le_mono2) simp
    moreover have "burst_popped bs ?v = bs * cb_batch s + cb_i s" using w(2) by (simp add: burst_popped_def burst_view_def)
    ultimately show False using w(1) by simp
  qed
qed

lemma burst_can_move:
  assumes i: "burst_good bs nb s" and left: "\<not> burst_done nb s"
  shows "can_move (burst_nexts bs nb) burst_side (burst_helper bs nb s) s"
proof (cases "burst_pops bs nb s")
  case True
  have "burst_nexts bs nb (Burst_Consumer 0, 0) s \<noteq> None"
    using True by (auto simp: burst_pops_def burst_steps_def burst_next_def consumer_burst_def split_beta split: option.split)
  then show ?thesis unfolding can_move_def using True
    by (intro exI [of _ "(Burst_Consumer 0, 0)"]) (simp add: burst_helper_def burst_side_def)
next
  case False
  have "burst_nexts bs nb (Burst_Producer, 0) s \<noteq> None"
    using burst_facts(3) [OF i False left] by (simp add: burst_steps_def burst_next_def producer_burst_def split_beta)
  then show ?thesis unfolding can_move_def using False
    by (intro exI [of _ "(Burst_Producer, 0)"]) (simp add: burst_helper_def burst_side_def)
qed

lemma burst_counts: "burst_good bs nb s \<Longrightarrow> burst_nexts bs nb c s = Some t \<Longrightarrow> burst_score bs s \<le> burst_score bs t"
  by (erule (1) burst_moves)
    (simp_all add: burst_score_def burst_count_def burst_view_def same_items_def cong: option.case_cong)

lemma burst_stored:
  assumes i: "burst_good bs nb s" and step: "burst_nexts bs nb c s = Some t" and same: "burst_score bs t = burst_score bs s"
  shows "messages (b_queue t) = messages (b_queue s)"
  using i step
proof (cases rule: burst_moves)
  case (push q)
  with push_frame [OF burst_facts(1) [OF i] push(4)] show ?thesis by (simp add: same_items_def)
next
  case (pop clock q)
  with pop_frame [OF burst_facts(1) [OF i] pop(4)] show ?thesis by (simp add: same_items_def)
qed (use same in simp)

lemma burst_helps:
  assumes i: "burst_good bs nb s" and step: "burst_nexts bs nb c s = Some t" and same: "burst_score bs t = burst_score bs s"
    and newest: "\<And>l m. burst_reads bs c s = Some (l, m) \<Longrightarrow> messages (b_queue s) l = Suc m"
  shows "burst_helper bs nb t = burst_helper bs nb s \<and> burst_rank bs nb t \<le> burst_rank bs nb s \<and>
         (burst_side c = burst_helper bs nb s \<longrightarrow> burst_rank bs nb t < burst_rank bs nb s)"
  using i step
proof (cases rule: burst_moves)
  case (push q)
  have turn: "burst_pops bs nb t = burst_pops bs nb s" using push(3,6) by (simp add: burst_pops_def same_items_def)
  have loads: "messages (b_queue s) l = Suc m" if "push_loads (snd c) (b_queue s) = Some (l, m)" for l m
    using newest [of l m] push(1,2) that by (simp add: burst_loads_def)
  have "push_left q < push_left (b_queue s)" if "\<not> burst_pops bs nb s"
    using push_newest [OF burst_facts(1) [OF i] push(5) burst_facts(4) [OF i that] push(4) loads] push(5,6)
    by (simp add: same_items_def)
  with turn push(1,3) push_keeps_pop_left [OF push(4)] show ?thesis
    by (auto simp: burst_helper_def burst_rank_def burst_side_def)
next
  case (pop clock q)
  have turn: "burst_pops bs nb t = burst_pops bs nb s" using pop(3,6) by (simp add: burst_pops_def same_items_def)
  have loads: "messages (b_queue s) l = Suc m" if "pop_loads (snd c) (b_queue s) = Some (l, m)" for l m
    using newest [of l m] pop(1,2) that by (simp add: burst_loads_def)
  have "pop_left q < pop_left (b_queue s)" if "burst_pops bs nb s"
  proof -
    have "items (b_queue s) \<noteq> []" using that pop(2,5) by (auto simp: burst_pops_def)
    from pop_newest [OF burst_facts(1) [OF i] pop(5) this pop(4) loads] pop(5,6) show ?thesis
      by (simp add: same_items_def)
  qed
  with turn pop(1,3) pop_keeps_push_left [OF pop(4)] show ?thesis
    by (auto simp: burst_helper_def burst_rank_def burst_side_def)
qed (use same in simp)

end

section \<open>The rule applied\<close>

sublocale fair_fifo \<subseteq> stream_fair: fair_machine "stream_steps push pop n"
    "\<lambda>s. stream_ok n s \<and> atomic.stream_inv n (stream_view s)" fst "\<lambda>c s. True" stream_reads
    "\<lambda>s. messages (st_queue s)" "\<lambda>s. st_sent s = n \<and> st_got s = n" stream_score "4 * n" stream_helper stream_rank
  for n
proof
  fix s c t
  assume i: "stream_ok n s \<and> atomic.stream_inv n (stream_view s)"
  show "stream_score s \<le> 4 * n" by (rule stream_facts(2) [OF i])
  show "can_move (stream_steps push pop n) fst (stream_helper s) s" if "\<not> (st_sent s = n \<and> st_got s = n)"
    by (rule stream_can_move [OF i that])
  assume step: "stream_steps push pop n c s = Some t"
  show "stream_ok n t \<and> atomic.stream_inv n (stream_view t)" by (rule stream_good_step [OF i step])
  show "stream_score s \<le> stream_score t"
    using stream_moves [OF i step]
    by (auto simp: stream_score_def stream_view_def same_items_def cong: option.case_cong)
  assume same: "stream_score t = stream_score s"
  show "messages (st_queue t) = messages (st_queue s)" using stream_moves [OF i step] same by auto
  assume newest: "\<And>l m. stream_reads c s = Some (l, m) \<Longrightarrow> messages (st_queue s) l = Suc m"
  show "stream_helper t = stream_helper s \<and> stream_rank t \<le> stream_rank s \<and>
      (fst c = stream_helper s \<and> True \<longrightarrow> stream_rank t < stream_rank s)"
    using stream_helps [OF i step same newest] by simp
qed

sublocale fair_fifo \<subseteq> echo_fair: fair_machine "echo_steps push pop n"
    "\<lambda>s. echo_ok n s \<and> atomic.echo_inv n (echo_view s)" fst "\<lambda>c s. True" echo_reads
    echo_messages "echo_done n" echo_score "8 * n + 8" echo_helper echo_rank
  for n
proof
  fix s c t
  assume i: "echo_ok n s \<and> atomic.echo_inv n (echo_view s)"
  show "echo_score s \<le> 8 * n + 8" by (rule echo_facts(3) [OF i])
  show "can_move (echo_steps push pop n) fst (echo_helper s) s" if "\<not> echo_done n s"
    by (rule echo_can_move [OF i that])
  assume step: "echo_steps push pop n c s = Some t"
  show "echo_ok n t \<and> atomic.echo_inv n (echo_view t)" by (rule echo_good_step [OF i step])
  show "echo_score s \<le> echo_score t" by (rule echo_counts [OF i step])
  assume same: "echo_score t = echo_score s"
  show "echo_messages t = echo_messages s" by (rule echo_stored [OF i step same])
  assume newest: "\<And>l m. echo_reads c s = Some (l, m) \<Longrightarrow> echo_messages s l = Suc m"
  show "echo_helper t = echo_helper s \<and> echo_rank t \<le> echo_rank s \<and>
      (fst c = echo_helper s \<and> True \<longrightarrow> echo_rank t < echo_rank s)"
    using echo_helps [OF i step same newest] by simp
qed

sublocale fair_fifo \<subseteq> burst_fair: fair_machine "burst_steps push pop bs nb"
    "\<lambda>s. burst_ok bs nb s \<and> atomic.burst_inv bs nb (burst_view s)" burst_side "\<lambda>c s. True" "burst_reads bs"
    "\<lambda>s. messages (b_queue s)" "burst_done nb" "burst_score bs" "burst_bound bs nb"
    "burst_helper bs nb" "burst_rank bs nb"
  for bs nb
proof
  fix s c t
  assume i: "burst_ok bs nb s \<and> atomic.burst_inv bs nb (burst_view s)"
  show "burst_score bs s \<le> burst_bound bs nb" by (rule burst_facts(2) [OF i])
  show "can_move (burst_steps push pop bs nb) burst_side (burst_helper bs nb s) s" if "\<not> burst_done nb s"
    by (rule burst_can_move [OF i that])
  assume step: "burst_steps push pop bs nb c s = Some t"
  show "burst_ok bs nb t \<and> atomic.burst_inv bs nb (burst_view t)" by (rule burst_good_step [OF i step])
  show "burst_score bs s \<le> burst_score bs t" by (rule burst_counts [OF i step])
  assume same: "burst_score bs t = burst_score bs s"
  show "messages (b_queue t) = messages (b_queue s)" by (rule burst_stored [OF i step same])
  assume newest: "\<And>l m. burst_reads bs c s = Some (l, m) \<Longrightarrow> messages (b_queue s) l = Suc m"
  show "burst_helper bs nb t = burst_helper bs nb s \<and> burst_rank bs nb t \<le> burst_rank bs nb s \<and>
      (burst_side c = burst_helper bs nb s \<and> True \<longrightarrow> burst_rank bs nb t < burst_rank bs nb s)"
    using burst_helps [OF i step same newest] by simp
qed

context fair_fifo
begin

lemma stream_finishes:
  assumes "new_queue q" and "weakly_fair (stream_nexts n) fst (\<lambda>c s. True) (stream_init q v) schedule"
    and "visible (stream_nexts n) stream_reads (\<lambda>s. messages (st_queue s)) (stream_init q v) schedule"
  obtains i where "st_sent (execution (stream_nexts n) schedule (stream_init q v) i) = n"
    "st_got (execution (stream_nexts n) schedule (stream_init q v) i) = n"
  using stream_fair.fair_runs_finish [OF stream_good_init [OF assms(1)] assms(2,3)] by blast

lemma echo_finishes:
  assumes "new_queue q0" "new_queue q1"
    and "weakly_fair (echo_nexts n) fst (\<lambda>c s. True) (echo_init q0 q1 e v) schedule"
    and "visible (echo_nexts n) echo_reads echo_messages (echo_init q0 q1 e v) schedule"
  obtains i where "echo_done n (execution (echo_nexts n) schedule (echo_init q0 q1 e v) i)"
  using echo_fair.fair_runs_finish [OF echo_good_init [OF assms(1,2)] assms(3,4)] by blast

lemma burst_finishes:
  assumes "new_queue q" and "weakly_fair (burst_nexts bs nb) burst_side (\<lambda>c s. True) (burst_init q v) schedule"
    and "visible (burst_nexts bs nb) (burst_reads bs) (\<lambda>s. messages (b_queue s)) (burst_init q v) schedule"
  obtains i s where "s = execution (burst_nexts bs nb) schedule (burst_init q v) i" "burst_done nb s"
    "items (b_queue s) = []" "length (times s) = nb"
  using burst_fair.fair_runs_finish [OF burst_good_init [OF assms(1)] assms(2,3)] burst_end by blast

end

end
