(* ===== verification/Fair_Head_To_Head.thy ===== *)
theory Fair_Head_To_Head
  imports Spsc_Head_To_Head Fair_Loops
begin

text \<open>
  The three test cases of \<open>bench/spsc_head_to_head.cpp\<close> on the repository's queue end under every
  fair schedule: \<open>SpscQueue\<close>, access by access, has the contract of \<open>Fair_Loops\<close>.
\<close>

section \<open>The queue has the contract\<close>

lemma push_access_frame:
  assumes "push_access C k x q = (b, q')"
  shows "cpc q' = cpc q" and "popped q' = popped q"
    and "ppc q' = P_Done True \<longrightarrow> ppc q = P_Done True \<Longrightarrow> pushed q' = pushed q"
proof -
  have "cpc q' = cpc q \<and> popped q' = popped q \<and>
      ((ppc q' = P_Done True \<longrightarrow> ppc q = P_Done True) \<longrightarrow> pushed q' = pushed q)"
  proof (cases "push_rank (ppc q) = 0")
    case True
    then show ?thesis using assms by (cases "ppc q") (auto simp: push_access_def advance_def spsc_next_def)
  next
    case False
    then have q': "q' = (case push_step C k q of None \<Rightarrow> q | Some t \<Rightarrow> t)" and pc: "ppc q \<noteq> P_Done True"
      using assms by (cases "ppc q"; simp add: push_access_def advance_def spsc_next_def)+
    show ?thesis
    proof (cases "push_step C k q")
      case (Some t)
      with push_step_frame [OF Some] push_step_effect [OF Some] pc show ?thesis by (auto simp: q')
    qed (simp add: q')
  qed
  then show "cpc q' = cpc q" "popped q' = popped q"
    "ppc q' = P_Done True \<longrightarrow> ppc q = P_Done True \<Longrightarrow> pushed q' = pushed q" by blast+
qed

lemma pop_access_frame:
  assumes "pop_access C k y q = (b, out, q')"
  shows "ppc q' = ppc q" and "pushed q' = pushed q"
    and "pop_result (cpc q') \<noteq> None \<longrightarrow> pop_result (cpc q) \<noteq> None \<Longrightarrow> popped q' = popped q"
proof -
  have "ppc q' = ppc q \<and> pushed q' = pushed q \<and>
      ((pop_result (cpc q') \<noteq> None \<longrightarrow> pop_result (cpc q) \<noteq> None) \<longrightarrow> popped q' = popped q)"
  proof (cases "pop_rank (cpc q) = 0")
    case True
    then show ?thesis using assms
      by (cases "cpc q") (auto simp: pop_access_def advance_def spsc_next_def split: option.splits)
  next
    case False
    then have q': "q' = (case pop_step C k q of None \<Rightarrow> q | Some t \<Rightarrow> t)" and pc: "pop_result (cpc q) = None"
      using assms by (cases "cpc q"; simp add: pop_access_def advance_def spsc_next_def)+
    show ?thesis
    proof (cases "pop_step C k q")
      case (Some t)
      with pop_step_frame [OF Some] pop_step_effect [OF Some] pc show ?thesis by (auto simp: q')
    qed (simp add: q')
  qed
  then show "ppc q' = ppc q" "pushed q' = pushed q"
    "pop_result (cpc q') \<noteq> None \<longrightarrow> pop_result (cpc q) \<noteq> None \<Longrightarrow> popped q' = popped q" by blast+
qed

text \<open>A thread can always read the newest message.\<close>

lemma push_newest_enabled:
  assumes inv: "spsc_inv C q" and rank: "0 < push_rank (ppc q)"
    and newest: "\<And>l m. push_reads k q = Some (l, m) \<Longrightarrow> index_messages q l = Suc m"
  shows "push_step C k q \<noteq> None"
proof -
  have ok: "mem_ok (qmem q)" using inv by (auto simp: spsc_inv_def index_inv_def)
  have load: "\<exists>v m. a_load mo producer a k (qmem q) = Some (v, m)" if "push_reads k q = Some (a, k)" for mo a
    using newest_readable [OF ok, of mo producer a] newest [OF that] by (simp add: index_messages_def)
  show ?thesis
  proof (cases "ppc q")
    case (P_Load_Tail x)
    then show ?thesis using load [of Tail Relaxed] by (auto simp: push_reads_def push_step_def)
  next
    case (P_Load_Head x t)
    then show ?thesis using load [of Head Acquire] by (auto simp: push_reads_def push_step_def)
  qed (use rank in \<open>simp_all add: push_step_def\<close>)
qed

lemma pop_newest_enabled:
  assumes inv: "spsc_inv C q" and rank: "0 < pop_rank (cpc q)"
    and newest: "\<And>l m. pop_reads k q = Some (l, m) \<Longrightarrow> index_messages q l = Suc m"
  shows "pop_step C k q \<noteq> None"
proof -
  have ok: "mem_ok (qmem q)" using inv by (auto simp: spsc_inv_def index_inv_def)
  have load: "\<exists>v m. a_load mo consumer a k (qmem q) = Some (v, m)" if "pop_reads k q = Some (a, k)" for mo a
    using newest_readable [OF ok, of mo consumer a] newest [OF that] by (simp add: index_messages_def)
  show ?thesis
  proof (cases "cpc q")
    case C_Load_Head
    then show ?thesis using load [of Head Relaxed] by (auto simp: pop_reads_def pop_step_def)
  next
    case (C_Load_Tail h)
    then show ?thesis using load [of Tail Acquire] by (auto simp: pop_reads_def pop_step_def)
  qed (use rank in \<open>simp_all add: pop_step_def split_beta\<close>)
qed

lemma push_access_newest:
  assumes inv: "spsc_inv C q" and pc: "ppc q \<noteq> P_Done True" and room: "length (queued q) < unat C"
    and p: "push_access C k x q = (b, q')"
    and newest: "\<And>l m. push_reads k q = Some (l, m) \<Longrightarrow> index_messages q l = Suc m"
  shows "ppc q' = P_Done True \<or> push_away (ppc q') < push_away (ppc q)"
proof (cases "push_rank (ppc q) = 0")
  case True
  then show ?thesis using pc p by (cases "ppc q") (auto simp: push_access_def advance_def spsc_next_def)
next
  case False
  obtain t where t: "push_step C k q = Some t" using push_newest_enabled [OF inv _ newest] False by blast
  then have "q' = t" using p False by (cases "ppc q") (simp_all add: push_access_def advance_def spsc_next_def)
  with push_step_newest [OF inv room t newest] show ?thesis by simp
qed

lemma pop_access_newest:
  assumes inv: "spsc_inv C q" and pc: "pop_result (cpc q) = None" and some: "queued q \<noteq> []"
    and p: "pop_access C k y q = (b, out, q')"
    and newest: "\<And>l m. pop_reads k q = Some (l, m) \<Longrightarrow> index_messages q l = Suc m"
  shows "pop_result (cpc q') \<noteq> None \<or> pop_away (cpc q') < pop_away (cpc q)"
proof (cases "pop_rank (cpc q) = 0")
  case True
  then show ?thesis using pc p by (cases "cpc q") (auto simp: pop_access_def advance_def spsc_next_def)
next
  case False
  obtain t where t: "pop_step C k q = Some t" using pop_newest_enabled [OF inv _ newest] False by blast
  then have "q' = t" using p False by (cases "cpc q") (simp_all add: pop_access_def advance_def spsc_next_def)
  with pop_step_newest [OF inv some t newest] show ?thesis by simp
qed

lemma spsc_fair_fifo:
  assumes "0 < unat C"
  shows "fair_fifo (push_access C) (pop_access C) queued (\<lambda>q. capacity_ok C \<and> spsc_inv C q)
     (unat C) (\<lambda>q. push_argument (ppc q)) (\<lambda>q. ppc q = P_Done True) (\<lambda>q. pop_result (cpc q))
     (\<lambda>q. push_away (ppc q)) (\<lambda>q. pop_away (cpc q)) push_reads pop_reads index_messages"
proof (intro fair_fifo.intro spsc_stepwise_loops [OF assms] fair_fifo_axioms.intro)
  fix q q' :: "i32 spsc_sys" and k :: nat and x y out :: i32 and b
  assume ok: "capacity_ok C \<and> spsc_inv C q"
  {
    assume p: "push_access C k x q = (b, q')"
    show "ppc q' = P_Done True \<or> push_away (ppc q') < push_away (ppc q)"
      if "ppc q \<noteq> P_Done True" "length (queued q) < unat C"
        "\<And>l m. push_reads k q = Some (l, m) \<Longrightarrow> index_messages q l = Suc m"
      by (rule push_access_newest [OF conjunct2 [OF ok] that(1,2) p that(3)])
    show "index_messages q' = index_messages q" if "ppc q' = P_Done True \<longrightarrow> ppc q = P_Done True"
      by (rule same_messages [OF conjunct2 [OF ok] push_access_inv [OF conjunct1 [OF ok] conjunct2 [OF ok] p]
            push_access_frame(3) [OF p that] push_access_frame(2) [OF p]])
  }
  {
    assume p: "pop_access C k y q = (b, out, q')"
    show "pop_result (cpc q') \<noteq> None \<or> pop_away (cpc q') < pop_away (cpc q)"
      if "pop_result (cpc q) = None" "queued q \<noteq> []"
        "\<And>l m. pop_reads k q = Some (l, m) \<Longrightarrow> index_messages q l = Suc m"
      by (rule pop_access_newest [OF conjunct2 [OF ok] that(1,2) p that(3)])
    show "index_messages q' = index_messages q" if "pop_result (cpc q') \<noteq> None \<longrightarrow> pop_result (cpc q) \<noteq> None"
      by (rule same_messages [OF conjunct2 [OF ok] pop_access_inv [OF conjunct1 [OF ok] conjunct2 [OF ok] p]
            pop_access_frame(2) [OF p] pop_access_frame(3) [OF p that]])
  }
next
  fix q q' :: "i32 spsc_sys" and k :: nat and x y out :: i32 and b
  show "pop_away (cpc q') = pop_away (cpc q)" if "push_access C k x q = (b, q')"
    using push_access_frame(1) [OF that] by simp
  show "push_away (ppc q') = push_away (ppc q)" if "pop_access C k y q = (b, out, q')"
    using pop_access_frame(1) [OF that] by simp
qed

text \<open>The five sizes \<open>main\<close> accepts.\<close>

interpretation fair_64: fair_fifo "push_access 64" "pop_access 64" queued
    "\<lambda>q. capacity_ok 64 \<and> spsc_inv 64 q" "unat (64 :: u64)" "\<lambda>q. push_argument (ppc q)" "\<lambda>q. ppc q = P_Done True"
    "\<lambda>q. pop_result (cpc q)" "\<lambda>q. push_away (ppc q)" "\<lambda>q. pop_away (cpc q)" push_reads pop_reads index_messages
  by (rule spsc_fair_fifo) simp

interpretation fair_128: fair_fifo "push_access 128" "pop_access 128" queued
    "\<lambda>q. capacity_ok 128 \<and> spsc_inv 128 q" "unat (128 :: u64)" "\<lambda>q. push_argument (ppc q)" "\<lambda>q. ppc q = P_Done True"
    "\<lambda>q. pop_result (cpc q)" "\<lambda>q. push_away (ppc q)" "\<lambda>q. pop_away (cpc q)" push_reads pop_reads index_messages
  by (rule spsc_fair_fifo) simp

interpretation fair_256: fair_fifo "push_access 256" "pop_access 256" queued
    "\<lambda>q. capacity_ok 256 \<and> spsc_inv 256 q" "unat (256 :: u64)" "\<lambda>q. push_argument (ppc q)" "\<lambda>q. ppc q = P_Done True"
    "\<lambda>q. pop_result (cpc q)" "\<lambda>q. push_away (ppc q)" "\<lambda>q. pop_away (cpc q)" push_reads pop_reads index_messages
  by (rule spsc_fair_fifo) simp

interpretation fair_512: fair_fifo "push_access 512" "pop_access 512" queued
    "\<lambda>q. capacity_ok 512 \<and> spsc_inv 512 q" "unat (512 :: u64)" "\<lambda>q. push_argument (ppc q)" "\<lambda>q. ppc q = P_Done True"
    "\<lambda>q. pop_result (cpc q)" "\<lambda>q. push_away (ppc q)" "\<lambda>q. pop_away (cpc q)" push_reads pop_reads index_messages
  by (rule spsc_fair_fifo) simp

interpretation fair_1024: fair_fifo "push_access 1024" "pop_access 1024" queued
    "\<lambda>q. capacity_ok 1024 \<and> spsc_inv 1024 q" "unat (1024 :: u64)" "\<lambda>q. push_argument (ppc q)" "\<lambda>q. ppc q = P_Done True"
    "\<lambda>q. pop_result (cpc q)" "\<lambda>q. push_away (ppc q)" "\<lambda>q. pop_away (cpc q)" push_reads pop_reads index_messages
  by (rule spsc_fair_fifo) simp

section \<open>The test cases end\<close>

text \<open>Test case 1, the loops only: under every fair schedule all values are sent and received.\<close>

lemma spsc_stream_ends:
  assumes "capacity_ok C" and "C \<noteq> 0"
    and "weakly_fair (stream_steps (push_access C) (pop_access C) n) fst (\<lambda>c s. True)
           (stream_init (spsc_init g) v) schedule"
    and "visible (stream_steps (push_access C) (pop_access C) n) (stream_loads push_reads pop_reads)
           (\<lambda>s. index_messages (st_queue s)) (stream_init (spsc_init g) v) schedule"
  shows "\<exists>i. let s = execution (stream_steps (push_access C) (pop_access C) n) schedule (stream_init (spsc_init g) v) i
             in st_sent s = n \<and> st_got s = n \<and> \<not> st_failed s"
proof -
  have slots: "0 < unat C" using assms(2) by (simp add: unat_gt_0)
  let ?run = "execution (stream_steps (push_access C) (pop_access C) n) schedule (stream_init (spsc_init g) v)"
  obtain i where i: "st_sent (?run i) = n" "st_got (?run i) = n"
    by (rule fair_fifo.stream_finishes [OF spsc_fair_fifo [OF slots] spsc_new_queue [OF assms(1,2)] assms(3,4)])
  have "\<not> st_failed (?run i)"
    by (rule stepwise_loops.stream_outcome(2) [OF spsc_stepwise_loops [OF slots] spsc_new_queue [OF assms(1,2)] execution_reach])
  with i show ?thesis by (intro exI [of _ i]) (simp add: Let_def)
qed

text \<open>Fair schedules exist: a run to the end, after which no thread can move.\<close>

lemma fair_stream_exists:
  assumes "capacity_ok C" and "C \<noteq> 0"
  shows "\<exists>schedule. weakly_fair (stream_steps (push_access C) (pop_access C) n) fst (\<lambda>c s. True)
             (stream_init (spsc_init g) v) schedule \<and>
           visible (stream_steps (push_access C) (pop_access C) n) (stream_loads push_reads pop_reads)
             (\<lambda>s. index_messages (st_queue s)) (stream_init (spsc_init g) v) schedule"
proof -
  have slots: "0 < unat C" using assms(2) by (simp add: unat_gt_0)
  obtain t where t: "reach (stream_steps (push_access C) (pop_access C) n) (stream_init (spsc_init g) v) t"
    "st_sent t = n" "st_got t = n"
    using stepwise_loops.stream_reaches_end [OF spsc_stepwise_loops [OF slots] spsc_new_queue [OF assms]] by blast
  obtain cs where cs: "run (stream_steps (push_access C) (pop_access C) n) cs (stream_init (spsc_init g) v) = Some t"
    using t(1) by (auto simp: reach_iff_run)
  have stuck: "stream_steps (push_access C) (pop_access C) n c t = None" for c
    using t(2,3) by (cases "fst c") (simp_all add: stream_steps_def stream_next_def producer_thread_def consumer_thread_def)
  from finished_run_is_fair [OF cs stuck] show ?thesis by blast
qed

text \<open>
  Property C29. Test case 2 on the repository's queue ends: under every schedule that does not pass
  over a thread forever and in which stores become visible, both threads finish all rounds, with
  every value echoed back in its round and without a data race on either queue.
\<close>

theorem spsc_echo_terminates:
  assumes "capacity_ok C" and "C \<noteq> 0"
    and "weakly_fair (echo_steps (push_access C) (pop_access C) n) fst (\<lambda>c s. True)
           (echo_init (spsc_init g0) (spsc_init g1) e v) schedule"
    and "visible (echo_steps (push_access C) (pop_access C) n) (echo_loads push_reads pop_reads)
           (echo_stores index_messages) (echo_init (spsc_init g0) (spsc_init g1) e v) schedule"
  shows "\<exists>i. let s = execution (echo_steps (push_access C) (pop_access C) n) schedule
                       (echo_init (spsc_init g0) (spsc_init g1) e v) i
             in echo_done n s \<and> echoes s = map of_nat [0 ..< n] \<and>
                \<not> race (qmem (e_q0 s)) \<and> \<not> race (qmem (e_q1 s))"
proof -
  have slots: "0 < unat C" using assms(2) by (simp add: unat_gt_0)
  note new = spsc_new_queue [OF assms(1,2)]
  let ?run = "execution (echo_steps (push_access C) (pop_access C) n) schedule
      (echo_init (spsc_init g0) (spsc_init g1) e v)"
  obtain i where i: "echo_done n (?run i)"
    by (rule fair_fifo.echo_finishes [OF spsc_fair_fifo [OF slots] new new assms(3,4)])
  note outcome = stepwise_loops.echo_outcome [OF spsc_stepwise_loops [OF slots] new new execution_reach [of _ _ schedule i]]
  have "\<not> race (qmem (e_q0 (?run i)))" "\<not> race (qmem (e_q1 (?run i)))"
    using outcome(1) [THEN conjunct2, THEN spsc_inv_facts(4)] outcome(2) [THEN conjunct2, THEN spsc_inv_facts(4)] by simp_all
  with i outcome(3) show ?thesis by (intro exI [of _ i]) (simp add: Let_def echo_done_def)
qed

text \<open>One round, in which each thread makes its calls alone.\<close>

definition one_echo :: "(side \<times> nat) list" where
  "one_echo =
     replicate 5 (Producer_Side, 0) @
     [(Consumer_Side, 0), (Consumer_Side, 0), (Consumer_Side, 1), (Consumer_Side, 0), (Consumer_Side, 0), (Consumer_Side, 0)] @
     replicate 5 (Consumer_Side, 0) @
     [(Producer_Side, 0), (Producer_Side, 0), (Producer_Side, 1), (Producer_Side, 0), (Producer_Side, 0), (Producer_Side, 0)]"

lemma echo_done_stuck: "echo_done n s \<Longrightarrow> echo_steps push pop n c s = None"
  by (cases "fst c") (simp_all add: echo_done_def echo_steps_def echo_next_def producer_req_def consumer_resp_def)

theorem spsc_echo_terminates_witness:
  "\<exists>i. let s = execution (echo_steps (push_access 2) (pop_access 2) 1) (pad one_echo (Producer_Side, 0))
                 (echo_init (spsc_init (\<lambda>_. 9)) (spsc_init (\<lambda>_. 9)) 9 9) i
       in echo_done 1 s \<and> echoes s = map of_nat [0 ..< 1] \<and> \<not> race (qmem (e_q0 s)) \<and> \<not> race (qmem (e_q1 s))"
proof -
  let ?init = "echo_init (spsc_init (\<lambda>_. 9)) (spsc_init (\<lambda>_. 9)) 9 9"
  have "run_to (echo_steps (push_access 2) (pop_access 2) 1) one_echo ?init (echo_done 1)" by code_simp
  then obtain s where s: "run (echo_steps (push_access 2) (pop_access 2) 1) one_echo ?init = Some s" "echo_done 1 s"
    by (blast dest: run_to_run)
  note fair = finished_run_is_fair [OF s(1) echo_done_stuck [OF s(2)]]
  have "capacity_ok 2" by code_simp
  from spsc_echo_terminates [OF this _ fair] show ?thesis by simp
qed

text \<open>
  Property C30. Test case 3 on the repository's queue ends: under every fair schedule both threads
  finish all batches, the queue is empty then, there is one time for each batch and no data race,
  and the four percentiles printed are elements of the right rank.
\<close>

theorem spsc_burst_terminates:
  assumes "capacity_ok C" and "C \<noteq> 0" and "0 < nb"
    and "weakly_fair (burst_steps (push_access C) (pop_access C) bs nb) burst_side (\<lambda>c s. True)
           (burst_init (spsc_init g) v) schedule"
    and "visible (burst_steps (push_access C) (pop_access C) bs nb) (burst_loads push_reads pop_reads bs)
           (\<lambda>s. index_messages (b_queue s)) (burst_init (spsc_init g) v) schedule"
  shows "\<exists>i. let s = execution (burst_steps (push_access C) (pop_access C) bs nb) schedule
                       (burst_init (spsc_init g) v) i
             in burst_done nb s \<and> queued (b_queue s) = [] \<and> length (times s) = nb \<and> \<not> race (qmem (b_queue s)) \<and>
                (\<exists>p25 p50 p75 p99. burst_report (times s) = [Some p25, Some p50, Some p75, Some p99] \<and>
                   has_rank (times s) (nb * 25 div 100) p25 \<and> has_rank (times s) (nb * 50 div 100) p50 \<and>
                   has_rank (times s) (nb * 75 div 100) p75 \<and> has_rank (times s) (nb * 99 div 100) p99)"
proof -
  have slots: "0 < unat C" using assms(2) by (simp add: unat_gt_0)
  note new = spsc_new_queue [OF assms(1,2)]
  let ?run = "execution (burst_steps (push_access C) (pop_access C) bs nb) schedule (burst_init (spsc_init g) v)"
  obtain i s where s: "s = ?run i" "burst_done nb s" "queued (b_queue s) = []" "length (times s) = nb"
    by (rule fair_fifo.burst_finishes [OF spsc_fair_fifo [OF slots] new assms(4,5)])
  have "\<not> race (qmem (b_queue s))"
    using stepwise_loops.burst_outcome(1) [OF spsc_stepwise_loops [OF slots] new execution_reach [of _ _ schedule i]]
      spsc_inv_facts(4) unfolding s(1) by blast
  with s(2-4) burst_report_ranks [OF s(4) assms(3)] show ?thesis
    unfolding s(1) by (intro exI [of _ i]) (simp add: Let_def)
qed

text \<open>One batch of one value.\<close>

definition one_batch :: "(burst_choice \<times> nat) list" where
  "one_batch =
     (Burst_Consumer 3, 0) # replicate 6 (Burst_Producer, 0) @
     [(Burst_Consumer 4, 0), (Burst_Consumer 4, 0), (Burst_Consumer 4, 1), (Burst_Consumer 4, 0), (Burst_Consumer 4, 0),
      (Burst_Consumer 4, 0), (Burst_Consumer 10, 0)]"

lemma burst_done_stuck: "burst_done nb s \<Longrightarrow> burst_steps push pop bs nb c s = None"
  by (cases "fst c") (simp_all add: burst_done_def burst_steps_def burst_next_def producer_burst_def consumer_burst_def)

theorem spsc_burst_terminates_witness:
  "\<exists>i. let s = execution (burst_steps (push_access 2) (pop_access 2) 1 1) (pad one_batch (Burst_Producer, 0))
                 (burst_init (spsc_init (\<lambda>_. 9)) 9) i
       in burst_done 1 s \<and> queued (b_queue s) = [] \<and> length (times s) = 1 \<and> \<not> race (qmem (b_queue s))"
proof -
  let ?init = "burst_init (spsc_init (\<lambda>_. 9)) 9"
  have "run_to (burst_steps (push_access 2) (pop_access 2) 1 1) one_batch ?init (burst_done 1)" by code_simp
  then obtain s where s: "run (burst_steps (push_access 2) (pop_access 2) 1 1) one_batch ?init = Some s" "burst_done 1 s"
    by (blast dest: run_to_run)
  note fair = finished_run_is_fair [OF s(1) burst_done_stuck [OF s(2)]]
  have "capacity_ok 2" by code_simp
  from spsc_burst_terminates [OF this _ _ fair] obtain i where
    "let s = execution (burst_steps (push_access 2) (pop_access 2) 1 1) (pad one_batch (Burst_Producer, 0)) ?init i
     in burst_done 1 s \<and> queued (b_queue s) = [] \<and> length (times s) = 1 \<and> \<not> race (qmem (b_queue s))"
    by (auto simp: Let_def simp del: execution.simps)
  then show ?thesis by blast
qed

end
