(* ===== verification/Cxx_Double.thy ===== *)
theory Cxx_Double
  imports Complex_Main "HOL-Library.Word"
begin

text \<open>
  \<open>double\<close>: binary64 of IEEE 754, which the compilers the repository is built with use, rounding
  to nearest, ties to even.  A value is the rational number it stands for, and each operation is
  the exact one followed by the rounding to 53 significant bits.  The exponent is not bounded, so
  the model is right for results that neither overflow nor are subnormal; infinities and NaNs are
  left out.
\<close>

section \<open>Rounding\<close>

function bits :: "int \<Rightarrow> nat" where
  "bits n = (if n \<le> 0 then 0 else Suc (bits (n div 2)))"
  by pat_completeness auto
termination by (relation "measure nat") auto

declare bits.simps [simp del]

text \<open>The exponent of the last of the 53 bits of a positive number.\<close>

definition last_bit :: "rat \<Rightarrow> int" where
  "last_bit x =
     (let (a, b) = quotient_of x;
          e = int (bits a) - int (bits b) - 53
      in if 2 ^ 53 * 2 powi e \<le> x then e + 1 else e)"

definition round_even :: "rat \<Rightarrow> int" where
  "round_even x =
     (let f = floor x; r = x - of_int f
      in if r < 1 / 2 then f else if 1 / 2 < r then f + 1 else if even f then f else f + 1)"

definition binary64 :: "rat \<Rightarrow> rat" where
  "binary64 x =
     (if x = 0 then 0
      else let e = last_bit \<bar>x\<bar> in sgn x * of_int (round_even (\<bar>x\<bar> / 2 powi e)) * 2 powi e)"

lemma round_even_error: "\<bar>of_int (round_even x) - x\<bar> \<le> 1 / 2"
proof -
  have "of_int (floor x) \<le> x" "x < of_int (floor x) + 1" by linarith+
  then show ?thesis unfolding round_even_def Let_def by (simp add: abs_le_iff)
qed

lemma round_even_int [simp]: "round_even (of_int i) = i"
  by (simp add: round_even_def)

lemma bits_bounds: "0 < n \<Longrightarrow> 2 ^ bits n \<le> 2 * n \<and> n < 2 ^ bits n"
proof (induction n rule: bits.induct)
  case (1 n)
  show ?case
  proof (cases "n = 1")
    case True
    then show ?thesis by (simp add: bits.simps)
  next
    case False
    then have "2 ^ bits (n div 2) \<le> 2 * (n div 2) \<and> n div 2 < 2 ^ bits (n div 2)" using 1 by simp
    moreover have "bits n = Suc (bits (n div 2))" using 1(2) by (subst bits.simps) simp
    ultimately show ?thesis by auto
  qed
qed

text \<open>A positive number has 53 bits before the point when it is scaled by that exponent.\<close>

lemma last_bit_bounds:
  assumes "0 < x"
  shows "2 ^ 52 * 2 powi last_bit x \<le> x" "x < 2 ^ 53 * 2 powi last_bit x"
proof -
  obtain a b where q: "quotient_of x = (a, b)" by force
  have b: "0 < b" and x: "x = of_int a / of_int b"
    using quotient_of_denom_pos [OF q] quotient_of_div [OF q] by simp_all
  then have a: "0 < a" using assms by (simp add: zero_less_divide_iff)
  let ?A = "bits a" and ?B = "bits b"
  define e where "e = int ?A - int ?B - 53"
  have "rat_of_int (2 ^ ?A) \<le> rat_of_int (2 * a)" "rat_of_int a < rat_of_int (2 ^ ?A)"
    "rat_of_int (2 ^ ?B) \<le> rat_of_int (2 * b)" "rat_of_int b < rat_of_int (2 ^ ?B)"
    using bits_bounds [OF a] bits_bounds [OF b] by (simp_all only: of_int_le_iff of_int_less_iff)
  then have A': "2 ^ ?A \<le> (2 * of_int a :: rat)" "of_int a < (2 ^ ?A :: rat)"
    and B': "2 ^ ?B \<le> (2 * of_int b :: rat)" "of_int b < (2 ^ ?B :: rat)"
    by simp_all
  have pe: "(2 powi e :: rat) = 2 ^ ?A / (2 ^ ?B * 2 ^ 53)"
    by (simp add: e_def power_int_diff power_int_add)
  have lo: "2 ^ 52 * 2 powi e \<le> x"
  proof -
    have "2 ^ 52 * (2 ^ ?A / (2 ^ ?B * 2 ^ 53)) = 2 ^ ?A / (2 * 2 ^ ?B :: rat)" by simp
    also have "\<dots> \<le> (2 * of_int a) / (2 * of_int b)"
      by (rule frac_le) (use A'(1) B'(2) a b in simp_all)
    also have "\<dots> = of_int a / of_int b" by simp
    finally show ?thesis unfolding pe x .
  qed
  have hi: "x < 2 ^ 54 * 2 powi e"
  proof -
    have "of_int a / of_int b = (2 * of_int a) / (2 * of_int b :: rat)" by simp
    also have "\<dots> < 2 * 2 ^ ?A / 2 ^ ?B"
      by (rule frac_less) (use A'(2) B'(1) a b in simp_all)
    also have "\<dots> = 2 ^ 54 * (2 ^ ?A / (2 ^ ?B * 2 ^ 53))" by simp
    finally show ?thesis unfolding pe x .
  qed
  have up: "(2 powi (e + 1) :: rat) = 2 * 2 powi e"
    using power_int_add [of "2 :: rat" e 1] by simp
  show "2 ^ 52 * 2 powi last_bit x \<le> x" "x < 2 ^ 53 * 2 powi last_bit x"
    using lo hi unfolding last_bit_def q Let_def prod.case e_def [symmetric] by (auto simp: up)
qed

text \<open>The error is at most half of the last bit; integers of up to 53 bits are exact.\<close>

lemma binary64_error: "\<bar>binary64 x - x\<bar> \<le> \<bar>x\<bar> / 2 ^ 53"
proof (cases "x = 0")
  case False
  let ?e = "last_bit \<bar>x\<bar>" and ?y = "\<bar>x\<bar>"
  have pos: "(0 :: rat) < 2 powi ?e" by simp
  have scale: "\<bar>of_int r * p - y\<bar> = \<bar>of_int r - y / p\<bar> * p" if "0 < p" for r and y p :: rat
  proof -
    have "of_int r * p - y = (of_int r - y / p) * p" using that by (simp add: algebra_simps)
    then show ?thesis using that by (simp add: abs_mult)
  qed
  have "\<bar>of_int (round_even (?y / 2 powi ?e)) * 2 powi ?e - ?y\<bar> =
      \<bar>of_int (round_even (?y / 2 powi ?e)) - ?y / 2 powi ?e\<bar> * 2 powi ?e"
    by (rule scale [OF pos])
  also have "\<dots> \<le> 1 / 2 * 2 powi ?e" by (rule mult_right_mono [OF round_even_error]) simp
  also have "\<dots> \<le> ?y / 2 ^ 53" using last_bit_bounds(1) [of ?y] False by simp
  finally have err: "\<bar>of_int (round_even (?y / 2 powi ?e)) * 2 powi ?e - ?y\<bar> \<le> ?y / 2 ^ 53" .
  have "binary64 x - x = sgn x * (of_int (round_even (?y / 2 powi ?e)) * 2 powi ?e - ?y)"
    using False by (simp add: binary64_def Let_def algebra_simps abs_mult_sgn)
  then show ?thesis using err False by (simp add: abs_mult)
qed (simp add: binary64_def)

lemma binary64_int:
  assumes "\<bar>i\<bar> < 2 ^ 53"
  shows "binary64 (of_int i) = of_int i"
proof (cases "i = 0")
  case False
  let ?x = "\<bar>rat_of_int i\<bar>"
  have "rat_of_int \<bar>i\<bar> < of_int (2 ^ 53)" using assms by (simp only: of_int_less_iff)
  then have "2 ^ 52 * 2 powi last_bit ?x < (2 :: rat) ^ 53"
    using last_bit_bounds(1) [of ?x] False by simp
  then have "(2 powi last_bit ?x :: rat) < 2 powi 1" by simp
  then have e: "last_bit ?x \<le> 0"
    using power_int_increasing [of 1 "last_bit ?x" "2 :: rat"] by fastforce
  then have "(2 powi last_bit ?x :: rat) = 1 / 2 ^ nat (- last_bit ?x)"
    by (simp add: power_int_def field_simps)
  then have "?x / 2 powi last_bit ?x = of_int (\<bar>i\<bar> * 2 ^ nat (- last_bit ?x))" by simp
  then have "of_int (round_even (?x / 2 powi last_bit ?x)) = ?x / 2 powi last_bit ?x"
    by (simp only: round_even_int)
  then show ?thesis using False by (simp add: binary64_def Let_def sgn_mult_abs)
qed (simp add: binary64_def)

text \<open>The result is determined by what IEEE 754 says of it: the nearest number with 53 bits.\<close>

lemma last_bit_unique:
  assumes "2 ^ 52 * 2 powi e \<le> x" and "x < 2 ^ 53 * 2 powi e"
  shows "last_bit x = e"
proof -
  have "0 < x" by (rule order_less_le_trans [OF _ assms(1)]) simp
  note l = last_bit_bounds [OF this]
  have lt: "f < Suc_int" if "2 ^ 52 * 2 powi f < (2 ^ 53 * 2 powi g :: rat)" "Suc_int = g + 1" for f g Suc_int :: int
  proof (rule ccontr)
    assume "\<not> f < Suc_int"
    then have "2 powi (g + 1) \<le> (2 powi f :: rat)" using that(2) by (intro power_int_increasing) simp_all
    moreover have "(2 powi (g + 1) :: rat) = 2 * 2 powi g" using power_int_add [of "2 :: rat" g 1] by simp
    ultimately show False using that(1) by simp
  qed
  have "last_bit x < e + 1" "e < last_bit x + 1"
    using lt [OF order_le_less_trans [OF l(1) assms(2)] refl] lt [OF order_le_less_trans [OF assms(1) l(2)] refl] by simp_all
  then show ?thesis by simp
qed

lemma round_even_nearest:
  assumes "\<bar>x - of_int m\<bar> < 1 / 2"
  shows "round_even x = m"
proof -
  have "\<bar>rat_of_int (round_even x) - of_int m\<bar> < 1" using round_even_error [of x] assms by linarith
  then have "\<bar>rat_of_int (round_even x - m)\<bar> < 1" by simp
  then have "\<bar>round_even x - m\<bar> < 1" by linarith
  then show ?thesis by simp
qed

lemma binary64_nearest:
  assumes "2 ^ 52 \<le> y" and "y < 2 ^ 53" and "\<bar>y - of_int m\<bar> < 1 / 2"
  shows "binary64 (y * 2 powi e) = of_int m * 2 powi e"
proof -
  have pos: "(0 :: rat) < 2 powi e" "0 < y" using assms(1) by simp_all
  have "last_bit (y * 2 powi e) = e"
    by (rule last_bit_unique) (use assms(1,2) pos(1) in \<open>simp_all only: mult_right_mono mult_strict_right_mono less_imp_le\<close>)
  then show ?thesis using pos round_even_nearest [OF assms(3)] by (simp add: binary64_def Let_def abs_mult sgn_mult)
qed

text \<open>
  The relative error of a quotient of a quotient: each rounding is off by a factor between
  \<open>1 - 2 ^ -53\<close> and \<open>1 + 2 ^ -53\<close>, and four of them by less than one in \<open>2 ^ 50\<close>.
\<close>

lemma binary64_near:
  assumes "0 \<le> x"
  shows "(1 - 1 / 2 ^ 53) * x \<le> binary64 x" "binary64 x \<le> (1 + 1 / 2 ^ 53) * x"
proof -
  define y where "y = x / 2 ^ 53"
  have "\<bar>binary64 x - x\<bar> \<le> y" using binary64_error [of x] unfolding abs_of_nonneg [OF assms] y_def .
  moreover have y: "(1 - 1 / 2 ^ 53) * x = x - y" "(1 + 1 / 2 ^ 53) * x = x + y"
    by (simp_all only: y_def left_diff_distrib distrib_right mult_1 times_divide_eq_left)
  ultimately show "(1 - 1 / 2 ^ 53) * x \<le> binary64 x" "binary64 x \<le> (1 + 1 / 2 ^ 53) * x"
    unfolding y by (simp_all add: abs_le_iff)
qed

lemma binary64_pos: "0 < x \<Longrightarrow> 0 < binary64 x"
  by (rule order_less_le_trans [OF _ binary64_near(1)]) simp_all

lemma binary64_nonneg: "0 \<le> x \<Longrightarrow> 0 \<le> binary64 x"
  by (rule order_trans [OF _ binary64_near(1)]) simp_all

lemma rounded_conversion:
  fixes v c d :: rat
  assumes v: "0 \<le> v" and c: "0 < c" and d: "0 < d"
  shows "\<bar>binary64 (binary64 v / binary64 (binary64 c / d)) - v * d / c\<bar> \<le> v * d / c / 2 ^ 50"
    and "0 \<le> binary64 (binary64 v / binary64 (binary64 c / d))"
proof -
  let ?lo = "1 - 1 / 2 ^ 53 :: rat" and ?hi = "1 + 1 / 2 ^ 53 :: rat"
  let ?x = "v * d / c" and ?C = "binary64 c" and ?V = "binary64 v"
  let ?R = "binary64 (?C / d)"
  have C: "?lo * c \<le> ?C" "?C \<le> ?hi * c" "0 < ?C" using c by (simp_all only: binary64_near binary64_pos less_imp_le)
  have V: "?lo * v \<le> ?V" "?V \<le> ?hi * v" "0 \<le> ?V" using v by (simp_all only: binary64_near binary64_nonneg)
  have Cd: "0 < ?C / d" using C(3) d by simp
  have "?lo * (?C / d) \<le> ?R" "?R \<le> ?hi * (?C / d)" and R: "0 < ?R"
    using Cd by (simp_all only: binary64_near binary64_pos less_imp_le)
  moreover have "?lo * (?lo * c / d) \<le> ?lo * (?C / d)" "?hi * (?C / d) \<le> ?hi * (?hi * c / d)"
    using C(1,2) d by (intro mult_left_mono divide_right_mono; simp)+
  ultimately have R': "?lo * (?lo * c / d) \<le> ?R" "?R \<le> ?hi * (?hi * c / d)" by linarith+
  have Q: "?lo * v / (?hi * (?hi * c / d)) \<le> ?V / ?R" "?V / ?R \<le> ?hi * v / (?lo * (?lo * c / d))"
  proof -
    have lo: "0 < ?lo * (?lo * c / d)" and hi: "0 \<le> ?hi * v" using v c d by simp_all
    show "?lo * v / (?hi * (?hi * c / d)) \<le> ?V / ?R" by (rule frac_le [OF V(3,1) R R'(2)])
    show "?V / ?R \<le> ?hi * v / (?lo * (?lo * c / d))" by (rule frac_le [OF hi V(2) lo R'(1)])
  qed
  have VR: "0 \<le> ?V / ?R" using V(3) R by simp
  then show "0 \<le> binary64 (?V / ?R)" by (rule binary64_nonneg)
  have "?lo * (?lo * v / (?hi * (?hi * c / d))) \<le> ?lo * (?V / ?R)"
    "?hi * (?V / ?R) \<le> ?hi * (?hi * v / (?lo * (?lo * c / d)))"
    using Q by (intro mult_left_mono; simp)+
  then have "?lo * (?lo * v / (?hi * (?hi * c / d))) \<le> binary64 (?V / ?R)"
    "binary64 (?V / ?R) \<le> ?hi * (?hi * v / (?lo * (?lo * c / d)))"
    using binary64_near [OF VR] by linarith+
  moreover have "?lo * (?lo * v / (?hi * (?hi * c / d))) = (?lo * ?lo / (?hi * ?hi)) * ?x"
    "?hi * (?hi * v / (?lo * (?lo * c / d))) = (?hi * ?hi / (?lo * ?lo)) * ?x"
    by (simp_all add: ac_simps)
  moreover have x: "0 \<le> ?x" using v c d by simp
  then have "(1 - 1 / 2 ^ 50) * ?x \<le> (?lo * ?lo / (?hi * ?hi)) * ?x" "(?hi * ?hi / (?lo * ?lo)) * ?x \<le> (1 + 1 / 2 ^ 50) * ?x"
    by (intro mult_right_mono; simp)+
  ultimately have "(1 - 1 / 2 ^ 50) * ?x \<le> binary64 (?V / ?R)" "binary64 (?V / ?R) \<le> (1 + 1 / 2 ^ 50) * ?x"
    by linarith+
  then show "\<bar>binary64 (?V / ?R) - ?x\<bar> \<le> ?x / 2 ^ 50" by (simp add: abs_le_iff algebra_simps)
qed

section \<open>The type\<close>

datatype double = Double (exact: rat)

instantiation double :: "{zero, plus, times, inverse, ord}"
begin

definition zero_double :: double where "0 = Double 0"
definition plus_double :: "double \<Rightarrow> double \<Rightarrow> double" where "x + y = Double (binary64 (exact x + exact y))"
definition times_double :: "double \<Rightarrow> double \<Rightarrow> double" where "x * y = Double (binary64 (exact x * exact y))"
definition divide_double :: "double \<Rightarrow> double \<Rightarrow> double" where "x div y = Double (binary64 (exact x / exact y))"
definition inverse_double :: "double \<Rightarrow> double" where "inverse x = Double (binary64 (1 / exact x))"
definition less_eq_double :: "double \<Rightarrow> double \<Rightarrow> bool" where "x \<le> y \<longleftrightarrow> exact x \<le> exact y"
definition less_double :: "double \<Rightarrow> double \<Rightarrow> bool" where "x < y \<longleftrightarrow> exact x < exact y"

instance ..

end

text \<open>\<open>static_cast<double>\<close> of the two integer types, and \<open>static_cast<int64_t>\<close>, which truncates.\<close>

definition long_to_double :: "int \<Rightarrow> double" where
  "long_to_double i = Double (binary64 (of_int i))"

definition u64_to_double :: "64 word \<Rightarrow> double" where
  "u64_to_double w = Double (binary64 (of_int (uint w)))"

definition double_to_long :: "double \<Rightarrow> int" where
  "double_to_long x = (if 0 \<le> exact x then floor (exact x) else ceiling (exact x))"

lemma double_simps [simp]:
  "exact 0 = 0" "exact (x + y) = binary64 (exact x + exact y)" "exact (x * y) = binary64 (exact x * exact y)"
  "exact (x / y) = binary64 (exact x / exact y)" "x < y \<longleftrightarrow> exact x < exact y"
  "exact (long_to_double i) = binary64 (of_int i)" "exact (u64_to_double w) = binary64 (of_int (uint w))"
  by (simp_all add: zero_double_def plus_double_def times_double_def divide_double_def less_double_def
      long_to_double_def u64_to_double_def)

end
