(* ===== verification/Pingpong.thy ===== *)
theory Pingpong
  imports Cxx_Memory Cxx_Double Bench_Utils Sampling
begin

text \<open>
  \<open>bench/pingpong_bench.cpp\<close>: a sender and a receiver hand an \<open>int\<close> back and forth through
  one atomic flag; \<open>main\<close> joins both and checks the counter.  Every access of the flag
  (release stores, acquire loads that spin) and of the plain counter is a step on the memory
  of \<open>Cxx_Memory\<close>.  The two layouts, packed and padded, differ only in addresses, so one
  flag and one counter stand for either.
\<close>

section \<open>The threads\<close>

abbreviation sender :: tid where "sender \<equiv> 0"
abbreviation receiver :: tid where "receiver \<equiv> Suc 0"
abbreviation main_thread :: tid where "main_thread \<equiv> 2"

text \<open>
  \<open>counter += 1\<close> is a read and a write; the receiver's \<open>asm volatile\<close> with \<open>counter\<close> as an
  input is a read.
\<close>

datatype sender_pc = S_Read | S_Write i32 | S_Signal | S_Wait
datatype receiver_pc = R_Wait | R_Read | R_Reply
datatype main_pc = M_Join_Sender | M_Join_Receiver | M_Check | M_Exit int

text \<open>
  \<open>s_idx\<close> and \<open>r_idx\<close> are the loop counters, \<open>s_start\<close> the clock read at the start of the
  round, \<open>round_trip_samples\<close> the global vector; \<open>received\<close> is a history variable, the
  values the receiver read.
\<close>

record pingpong =
  pmem :: "(i32, unit, i32, unit) memory"
  spc :: sender_pc
  s_idx :: nat
  s_start :: u64
  round_trip_samples :: "u64 list"
  rpc :: receiver_pc
  r_idx :: nat
  received :: "i32 list"
  mpc :: main_pc

definition pingpong_init :: pingpong where
  "pingpong_init =
     \<lparr>pmem = mem_init (\<lambda>_. 0) (\<lambda>_. 0), spc = S_Read, s_idx = 0, s_start = 0, round_trip_samples = [],
      rpc = R_Wait, r_idx = 0, received = [], mpc = M_Join_Sender\<rparr>"

text \<open>One step of \<open>sender_thread\<close>; \<open>k\<close> is the message a load reads, \<open>clock\<close> the time stamp.\<close>

definition sender_step :: "nat \<Rightarrow> nat \<Rightarrow> u64 \<Rightarrow> pingpong \<Rightarrow> pingpong option" where
  "sender_step n k tsc s =
     (case spc s of
        S_Read \<Rightarrow>
          if s_idx s < n then
            (let (v, m) = na_read sender () (pmem s)
             in Some (s\<lparr>pmem := m, s_start := tsc, spc := S_Write v\<rparr>))
          else None
      | S_Write v \<Rightarrow> Some (s\<lparr>pmem := na_write sender () (v + 1) (pmem s), spc := S_Signal\<rparr>)
      | S_Signal \<Rightarrow> Some (s\<lparr>pmem := a_store Release sender () 1 (pmem s), spc := S_Wait\<rparr>)
      | S_Wait \<Rightarrow>
          (case a_load Acquire sender () k (pmem s) of
             None \<Rightarrow> None
           | Some (v, m) \<Rightarrow>
               Some (if v \<noteq> 0 then s\<lparr>pmem := m\<rparr>
                     else s\<lparr>pmem := m, round_trip_samples := round_trip_samples s @ [tsc - s_start s],
                            s_idx := Suc (s_idx s), spc := S_Read\<rparr>)))"

definition receiver_step :: "nat \<Rightarrow> nat \<Rightarrow> pingpong \<Rightarrow> pingpong option" where
  "receiver_step n k s =
     (case rpc s of
        R_Wait \<Rightarrow>
          if r_idx s < n then
            (case a_load Acquire receiver () k (pmem s) of
               None \<Rightarrow> None
             | Some (v, m) \<Rightarrow> Some (if v \<noteq> 1 then s\<lparr>pmem := m\<rparr> else s\<lparr>pmem := m, rpc := R_Read\<rparr>))
          else None
      | R_Read \<Rightarrow>
          (let (v, m) = na_read receiver () (pmem s)
           in Some (s\<lparr>pmem := m, received := received s @ [v], rpc := R_Reply\<rparr>))
      | R_Reply \<Rightarrow>
          Some (s\<lparr>pmem := a_store Release receiver () 0 (pmem s), r_idx := Suc (r_idx s), rpc := R_Wait\<rparr>))"

text \<open>\<open>main\<close> from the first \<open>join\<close> on: a thread can be joined once its loop has ended.\<close>

definition main_step :: "nat \<Rightarrow> pingpong \<Rightarrow> pingpong option" where
  "main_step n s =
     (case mpc s of
        M_Join_Sender \<Rightarrow>
          if spc s = S_Read \<and> s_idx s = n
          then Some (s\<lparr>pmem := t_join main_thread sender (pmem s), mpc := M_Join_Receiver\<rparr>) else None
      | M_Join_Receiver \<Rightarrow>
          if rpc s = R_Wait \<and> r_idx s = n
          then Some (s\<lparr>pmem := t_join main_thread receiver (pmem s), mpc := M_Check\<rparr>) else None
      | M_Check \<Rightarrow>
          (let (v, m) = na_read main_thread () (pmem s)
           in Some (s\<lparr>pmem := m, mpc := M_Exit (if v = of_nat n then 0 else 1)\<rparr>))
      | M_Exit c \<Rightarrow> None)"

datatype pingpong_choice = Sender nat u64 | Receiver nat | Main

definition pingpong_next :: "nat \<Rightarrow> pingpong_choice \<Rightarrow> pingpong \<Rightarrow> pingpong option" where
  "pingpong_next n c s =
     (case c of Sender k tsc \<Rightarrow> sender_step n k tsc s
              | Receiver k \<Rightarrow> receiver_step n k s
              | Main \<Rightarrow> main_step n s)"

definition NUM_ROUND_TRIPS :: nat where "NUM_ROUND_TRIPS = 10000000"

section \<open>The invariant\<close>

definition written :: "pingpong \<Rightarrow> nat" where
  "written s = s_idx s + (case spc s of S_Read \<Rightarrow> 0 | S_Write v \<Rightarrow> 0 | _ \<Rightarrow> 1)"

definition counter_accesses :: "pingpong \<Rightarrow> nat" where
  "counter_accesses s = 2 * s_idx s + (case spc s of S_Read \<Rightarrow> 0 | S_Write v \<Rightarrow> 1 | _ \<Rightarrow> 2)"

definition signals :: "pingpong \<Rightarrow> nat" where
  "signals s = s_idx s + (case spc s of S_Wait \<Rightarrow> 1 | _ \<Rightarrow> 0)"

definition payload_reads :: "pingpong \<Rightarrow> nat" where
  "payload_reads s = r_idx s + (case rpc s of R_Reply \<Rightarrow> 1 | _ \<Rightarrow> 0)"

text \<open>
  The flag's modification order alternates: message \<open>2 i + 1\<close> is signal \<open>i\<close>, message
  \<open>2 i + 2\<close> its reply, each carrying what its writer had done to the counter.
\<close>

definition flag_inv :: "pingpong \<Rightarrow> bool" where
  "flag_inv s \<longleftrightarrow>
     mem_ok (pmem s) \<and>
     length (hist (pmem s) ()) = Suc (signals s + r_idx s) \<and>
     (\<forall>k < length (hist (pmem s) ()).
        mval (hist (pmem s) () ! k) = (if even k then 0 else 1) \<and>
        (odd k \<longrightarrow> k + 1 \<le> clock (mview (hist (pmem s) () ! k)) sender) \<and>
        (even k \<longrightarrow> k div 2 \<le> clock (mview (hist (pmem s) () ! k)) receiver))"

definition counter_inv :: "pingpong \<Rightarrow> bool" where
  "counter_inv s \<longleftrightarrow>
     cell (pmem s) () = of_nat (written s) \<and>
     wrote (pmem s) () = (sender, 2 * written s) \<and>
     clock (tview (pmem s) sender) sender = counter_accesses s \<and>
     clock (tview (pmem s) receiver) receiver = payload_reads s \<and>
     (\<forall>(j, e) \<in> set (reads (pmem s) ()).
        j = sender \<and> e \<le> clock (tview (pmem s) sender) sender \<or>
        j = receiver \<and> e \<le> payload_reads s \<or> j = main_thread \<and> (\<exists>c. mpc s = M_Exit c)) \<and>
     received s = map (\<lambda>i. of_nat (Suc i)) [0 ..< payload_reads s] \<and>
     \<not> race (pmem s)"

text \<open>Whose turn it is.\<close>

definition turn_inv :: "nat \<Rightarrow> pingpong \<Rightarrow> bool" where
  "turn_inv n s \<longleftrightarrow>
     s_idx s \<le> n \<and> r_idx s \<le> n \<and> length (round_trip_samples s) = s_idx s \<and>
     s_idx s \<le> clock (tview (pmem s) sender) receiver \<and>
     2 * r_idx s \<le> seen (tview (pmem s) receiver) () \<and>
     (if spc s = S_Wait
      then s_idx s < n \<and> 2 * s_idx s + 1 \<le> seen (tview (pmem s) sender) () \<and>
           (r_idx s = s_idx s \<or> r_idx s = Suc (s_idx s) \<and> rpc s = R_Wait)
      else r_idx s = s_idx s \<and> rpc s = R_Wait \<and> (spc s \<noteq> S_Read \<longrightarrow> s_idx s < n)) \<and>
     (case spc s of S_Write v \<Rightarrow> v = of_nat (s_idx s) | _ \<Rightarrow> True) \<and>
     (rpc s = R_Read \<longrightarrow> 2 * Suc (r_idx s) \<le> clock (tview (pmem s) receiver) sender)"

definition main_inv :: "nat \<Rightarrow> pingpong \<Rightarrow> bool" where
  "main_inv n s \<longleftrightarrow>
     (case mpc s of
        M_Join_Sender \<Rightarrow> True
      | M_Join_Receiver \<Rightarrow> spc s = S_Read \<and> s_idx s = n \<and> 2 * n \<le> clock (tview (pmem s) main_thread) sender
      | M_Check \<Rightarrow> spc s = S_Read \<and> s_idx s = n \<and> r_idx s = n \<and> 2 * n \<le> clock (tview (pmem s) main_thread) sender
      | M_Exit c \<Rightarrow> spc s = S_Read \<and> s_idx s = n \<and> r_idx s = n \<and> c = 0)"

definition pingpong_inv :: "nat \<Rightarrow> pingpong \<Rightarrow> bool" where
  "pingpong_inv n s \<longleftrightarrow> flag_inv s \<and> counter_inv s \<and> turn_inv n s \<and> main_inv n s"

lemma pingpong_inv_init: "pingpong_inv n pingpong_init"
  by (simp add: pingpong_inv_def flag_inv_def counter_inv_def turn_inv_def main_inv_def
      pingpong_init_def written_def counter_accesses_def signals_def payload_reads_def mem_ok_init)

text \<open>While a worker can still move, \<open>main\<close> waits for the sender.\<close>

lemma sender_before_join: "pingpong_inv n s \<Longrightarrow> sender_step n k tsc s = Some t \<Longrightarrow> mpc s = M_Join_Sender"
  by (cases "mpc s") (auto simp: pingpong_inv_def main_inv_def sender_step_def)

lemma receiver_before_join: "pingpong_inv n s \<Longrightarrow> receiver_step n k s = Some t \<Longrightarrow> mpc s = M_Join_Sender"
  by (cases "mpc s") (auto simp: pingpong_inv_def main_inv_def turn_inv_def receiver_step_def
      split: receiver_pc.splits if_splits)

lemma sender_read_inv:
  assumes inv: "pingpong_inv n s" and pc: "spc s = S_Read" and step: "sender_step n k tsc s = Some t"
  shows "pingpong_inv n t"
proof -
  have m: "mpc s = M_Join_Sender" by (rule sender_before_join [OF inv step])
  have n: "s_idx s < n"
    and t: "t = s\<lparr>pmem := snd (na_read sender () (pmem s)), s_start := tsc, spc := S_Write (cell (pmem s) ())\<rparr>"
    using step pc by (auto simp: sender_step_def split_beta split: if_splits)
  note i = inv [unfolded pingpong_inv_def flag_inv_def counter_inv_def turn_inv_def main_inv_def]
  have "flag_inv t"
    using i pc by (auto simp: t flag_inv_def signals_def na_read_ok)
  moreover have "counter_inv t"
    using i pc m by (auto simp: t counter_inv_def written_def counter_accesses_def payload_reads_def ordered_def)
  moreover have "turn_inv n t"
    using i pc n by (auto simp: t turn_inv_def written_def counter_accesses_def)
  moreover have "main_inv n t" using m by (simp add: t main_inv_def)
  ultimately show ?thesis by (simp add: pingpong_inv_def)
qed

lemma sender_write_inv:
  assumes inv: "pingpong_inv n s" and pc: "spc s = S_Write v" and step: "sender_step n k tsc s = Some t"
  shows "pingpong_inv n t"
proof -
  have m: "mpc s = M_Join_Sender" by (rule sender_before_join [OF inv step])
  have t: "t = s\<lparr>pmem := na_write sender () (v + 1) (pmem s), spc := S_Signal\<rparr>"
    using step pc by (auto simp: sender_step_def)
  note i = inv [unfolded pingpong_inv_def flag_inv_def counter_inv_def turn_inv_def main_inv_def]
  have "flag_inv t"
    using i pc by (auto simp: t flag_inv_def signals_def na_write_ok)
  moreover have "list_all (ordered (tview (pmem s) sender)) (reads (pmem s) ())"
    using i pc m by (fastforce simp: list_all_iff ordered_def payload_reads_def)
  then have "counter_inv t"
    using i pc by (auto simp: t counter_inv_def written_def counter_accesses_def payload_reads_def ordered_def)
  moreover have "turn_inv n t"
    using i pc by (auto simp: t turn_inv_def)
  moreover have "main_inv n t" using m by (simp add: t main_inv_def)
  ultimately show ?thesis by (simp add: pingpong_inv_def)
qed

lemma sender_signal_inv:
  assumes inv: "pingpong_inv n s" and pc: "spc s = S_Signal" and step: "sender_step n k tsc s = Some t"
  shows "pingpong_inv n t"
proof -
  have m: "mpc s = M_Join_Sender" by (rule sender_before_join [OF inv step])
  have t: "t = s\<lparr>pmem := a_store Release sender () 1 (pmem s), spc := S_Wait\<rparr>"
    using step pc by (auto simp: sender_step_def)
  note i = inv [unfolded pingpong_inv_def flag_inv_def counter_inv_def turn_inv_def main_inv_def]
  have "flag_inv t"
    using i pc by (auto simp: t flag_inv_def signals_def a_store_ok nth_append less_Suc_eq counter_accesses_def)
  moreover have "counter_inv t"
    using i pc by (auto simp: t counter_inv_def written_def counter_accesses_def payload_reads_def)
  moreover have "turn_inv n t"
    using i pc by (auto simp: t turn_inv_def signals_def)
  moreover have "main_inv n t" using m by (simp add: t main_inv_def)
  ultimately show ?thesis by (simp add: pingpong_inv_def)
qed

lemma counter_inv_frame:
  assumes "counter_inv s"
    and "written t = written s" "counter_accesses t = counter_accesses s" "payload_reads t = payload_reads s"
    and "received t = received s" and "\<And>x. mpc s = M_Exit x \<Longrightarrow> \<exists>y. mpc t = M_Exit y"
    and "cell (pmem t) = cell (pmem s)" "wrote (pmem t) = wrote (pmem s)"
    and "reads (pmem t) = reads (pmem s)" "race (pmem t) = race (pmem s)"
    and "clock (tview (pmem t) sender) sender = clock (tview (pmem s) sender) sender"
    and "clock (tview (pmem t) receiver) receiver = clock (tview (pmem s) receiver) receiver"
  shows "counter_inv t"
  using assms(1) assms(6)
  unfolding counter_inv_def assms(2-5,7-12) by blast

text \<open>
  A load of the flag by either thread: the memory keeps its invariant, and the message read is
  the newest signal or reply, or the thread's own last store.
\<close>

lemma flag_load_counter:
  assumes i: "flag_inv s" "counter_inv s" and load: "a_load mo j () k (pmem s) = Some (v, m)"
    and t: "t = s\<lparr>pmem := m\<rparr>"
  shows "flag_inv t" "counter_inv t"
proof -
  have ok: "mem_ok (pmem s)" using i(1) by (simp add: flag_inv_def)
  note l = load_view [OF ok load]
  have c: "clock (tview m i) i = clock (tview (pmem s) i) i" for i
    using l(6,7) by (cases "i = j") auto
  show "flag_inv t" using i(1) l by (simp add: t flag_inv_def signals_def)
  show "counter_inv t"
    by (rule counter_inv_frame [OF i(2)])
      (simp_all add: t l(2-5) c written_def counter_accesses_def payload_reads_def)
qed

lemma flag_message:
  assumes "flag_inv s" and "k < length (hist (pmem s) ())"
  shows "mval (hist (pmem s) () ! k) = (if even k then 0 else 1)"
    and "k \<le> signals s + r_idx s"
    and "odd k \<Longrightarrow> k + 1 \<le> clock (mview (hist (pmem s) () ! k)) sender"
    and "even k \<Longrightarrow> k div 2 \<le> clock (mview (hist (pmem s) () ! k)) receiver"
  using assms by (simp_all add: flag_inv_def)

lemma turn_inv_frame:
  assumes "turn_inv n s"
    and "spc t = spc s" "rpc t = rpc s" "s_idx t = s_idx s" "r_idx t = r_idx s"
    and "round_trip_samples t = round_trip_samples s"
    and "clock (tview (pmem s) sender) receiver \<le> clock (tview (pmem t) sender) receiver"
    and "clock (tview (pmem s) receiver) sender \<le> clock (tview (pmem t) receiver) sender"
    and "seen (tview (pmem s) sender) () \<le> seen (tview (pmem t) sender) ()"
    and "seen (tview (pmem s) receiver) () \<le> seen (tview (pmem t) receiver) ()"
  shows "turn_inv n t"
  using assms(1) le_trans [OF _ assms(7)] le_trans [OF _ assms(8)] le_trans [OF _ assms(9)]
    le_trans [OF _ assms(10)]
  unfolding turn_inv_def assms(2-6) by meson

lemma sender_wait_inv:
  assumes inv: "pingpong_inv n s" and pc: "spc s = S_Wait" and step: "sender_step n k tsc s = Some t"
  shows "pingpong_inv n t"
proof -
  have m: "mpc s = M_Join_Sender" by (rule sender_before_join [OF inv step])
  note i = inv [unfolded pingpong_inv_def turn_inv_def]
  have fi: "flag_inv s" "counter_inv s" and ti: "turn_inv n s"
    using inv by (simp_all add: pingpong_inv_def)
  have ok: "mem_ok (pmem s)" using fi(1) by (simp add: flag_inv_def)
  obtain v mem where load: "a_load Acquire sender () k (pmem s) = Some (v, mem)"
    and t: "t = (if v \<noteq> 0 then s\<lparr>pmem := mem\<rparr>
              else s\<lparr>pmem := mem, round_trip_samples := round_trip_samples s @ [tsc - s_start s],
                     s_idx := Suc (s_idx s), spc := S_Read\<rparr>)"
    using step pc by (auto simp: sender_step_def split: option.splits)
  note l = load_view [OF ok load]
  have f: "flag_inv (s\<lparr>pmem := mem\<rparr>)" "counter_inv (s\<lparr>pmem := mem\<rparr>)"
    using flag_load_counter [OF fi load] by simp_all
  have frame: "tview mem receiver = tview (pmem s) receiver" "clock (tview (pmem s) sender) receiver \<le> clock (tview mem sender) receiver"
    "seen (tview (pmem s) sender) () \<le> seen (tview mem sender) ()"
    using l by auto
  show ?thesis
  proof (cases "v = 0")
    case False
    have "turn_inv n t"
      by (rule turn_inv_frame [where s = s]) (use ti False frame in \<open>simp_all add: t\<close>)
    then show ?thesis using f False m by (simp add: t pingpong_inv_def main_inv_def)
  next
    case True
    note msg = flag_message [OF fi(1) l(12)]
    have k: "even k" "k div 2 \<le> clock (tview mem sender) receiver"
      using msg(1,4) l(14) l(16) [of receiver] True by (auto split: if_splits)
    have w: "2 * s_idx s + 1 \<le> seen (tview (pmem s) sender) ()" "signals s = Suc (s_idx s)"
      "r_idx s = s_idx s \<or> r_idx s = Suc (s_idx s) \<and> rpc s = R_Wait"
      using i pc by (simp_all add: signals_def)
    have "2 * s_idx s + 1 \<le> k" using w(1) l(13) by (rule le_trans)
    with k(1) have "2 * Suc (s_idx s) \<le> k" by presburger
    with msg(2) w(2,3) have r: "k = 2 * Suc (s_idx s)" "r_idx s = Suc (s_idx s)" "rpc s = R_Wait"
      by auto
    have e: "signals t = signals s" "written t = written s" "payload_reads t = payload_reads s"
      using pc True by (simp_all add: t signals_def written_def counter_accesses_def payload_reads_def)
    have "flag_inv t"
      using f(1) True unfolding flag_inv_def e by (simp add: t signals_def)
    moreover have "counter_inv t"
      by (rule counter_inv_frame [OF f(2)])
        (use pc True in \<open>simp_all add: t written_def counter_accesses_def payload_reads_def\<close>)
    moreover have "turn_inv n t"
      using i pc k(2) r frame True by (simp add: t turn_inv_def)
    ultimately show ?thesis using m by (simp add: t pingpong_inv_def main_inv_def)
  qed
qed

lemma sender_step_inv: "pingpong_inv n s \<Longrightarrow> sender_step n k tsc s = Some t \<Longrightarrow> pingpong_inv n t"
  by (cases "spc s") (blast intro: sender_read_inv sender_write_inv sender_signal_inv sender_wait_inv)+

lemma receiver_wait_inv:
  assumes inv: "pingpong_inv n s" and pc: "rpc s = R_Wait" and step: "receiver_step n k s = Some t"
  shows "pingpong_inv n t"
proof -
  have m: "mpc s = M_Join_Sender" by (rule receiver_before_join [OF inv step])
  note i = inv [unfolded pingpong_inv_def turn_inv_def]
  have fi: "flag_inv s" "counter_inv s" and ti: "turn_inv n s"
    using inv by (simp_all add: pingpong_inv_def)
  have ok: "mem_ok (pmem s)" using fi(1) by (simp add: flag_inv_def)
  obtain v mem where load: "a_load Acquire receiver () k (pmem s) = Some (v, mem)" and n: "r_idx s < n"
    and t: "t = (if v \<noteq> 1 then s\<lparr>pmem := mem\<rparr> else s\<lparr>pmem := mem, rpc := R_Read\<rparr>)"
    using step pc by (auto simp: receiver_step_def split: option.splits if_splits)
  note l = load_view [OF ok load]
  have f: "flag_inv (s\<lparr>pmem := mem\<rparr>)" "counter_inv (s\<lparr>pmem := mem\<rparr>)"
    using flag_load_counter [OF fi load] by simp_all
  have frame: "tview mem sender = tview (pmem s) sender"
    "clock (tview (pmem s) receiver) sender \<le> clock (tview mem receiver) sender"
    "seen (tview (pmem s) receiver) () \<le> seen (tview mem receiver) ()"
    using l by auto
  show ?thesis
  proof (cases "v = 1")
    case False
    have "turn_inv n t"
      by (rule turn_inv_frame [where s = s]) (use ti False frame in \<open>simp_all add: t\<close>)
    then show ?thesis using f False m by (simp add: t pingpong_inv_def main_inv_def)
  next
    case True
    note msg = flag_message [OF fi(1) l(12)]
    have k: "odd k" "k + 1 \<le> clock (tview mem receiver) sender"
      using msg(1,3) l(14) l(16) [of sender] True by (auto split: if_splits)
    have "2 * r_idx s \<le> seen (tview (pmem s) receiver) ()" using i by simp
    then have "2 * r_idx s \<le> k" using l(13) by (rule le_trans)
    with k(1) have ge: "2 * r_idx s + 1 \<le> k" by presburger
    have w: "spc s = S_Wait" "r_idx s = s_idx s"
    proof -
      have "r_idx s < signals s" using ge msg(2) by linarith
      then show "spc s = S_Wait" "r_idx s = s_idx s"
        using i by (auto simp: signals_def split: if_splits sender_pc.splits)
    qed
    have e: "signals t = signals s" "written t = written s" "payload_reads t = payload_reads s"
      using pc True by (simp_all add: t signals_def written_def counter_accesses_def payload_reads_def)
    have "flag_inv t"
      using f(1) True unfolding flag_inv_def e by (simp add: t signals_def)
    moreover have "counter_inv t"
      by (rule counter_inv_frame [OF f(2)])
        (use pc True in \<open>simp_all add: t written_def counter_accesses_def payload_reads_def\<close>)
    moreover have "2 * Suc (r_idx s) \<le> clock (tview mem receiver) sender"
      using ge k(2) by simp
    then have "turn_inv n t"
      using i w frame True by (simp add: t turn_inv_def)
    ultimately show ?thesis using m by (simp add: t pingpong_inv_def main_inv_def)
  qed
qed

lemma receiver_read_inv:
  assumes inv: "pingpong_inv n s" and pc: "rpc s = R_Read" and step: "receiver_step n k s = Some t"
  shows "pingpong_inv n t"
proof -
  have m: "mpc s = M_Join_Sender" by (rule receiver_before_join [OF inv step])
  have t: "t = s\<lparr>pmem := snd (na_read receiver () (pmem s)), received := received s @ [cell (pmem s) ()], rpc := R_Reply\<rparr>"
    using step pc by (auto simp: receiver_step_def split_beta)
  note i = inv [unfolded pingpong_inv_def flag_inv_def counter_inv_def turn_inv_def main_inv_def]
  have w: "spc s = S_Wait" "r_idx s = s_idx s" "written s = Suc (s_idx s)"
    using i pc by (auto simp: written_def counter_accesses_def split: if_splits)
  have "flag_inv t"
    using i pc by (auto simp: t flag_inv_def signals_def na_read_ok)
  moreover have "counter_inv t"
    using i pc m w by (auto simp: t counter_inv_def written_def counter_accesses_def payload_reads_def ordered_def)
  moreover have "turn_inv n t"
    using i pc w by (auto simp: t turn_inv_def)
  moreover have "main_inv n t" using m by (simp add: t main_inv_def)
  ultimately show ?thesis by (simp add: pingpong_inv_def)
qed

lemma receiver_reply_inv:
  assumes inv: "pingpong_inv n s" and pc: "rpc s = R_Reply" and step: "receiver_step n k s = Some t"
  shows "pingpong_inv n t"
proof -
  have m: "mpc s = M_Join_Sender" by (rule receiver_before_join [OF inv step])
  have t: "t = s\<lparr>pmem := a_store Release receiver () 0 (pmem s), r_idx := Suc (r_idx s), rpc := R_Wait\<rparr>"
    using step pc by (auto simp: receiver_step_def)
  note i = inv [unfolded pingpong_inv_def flag_inv_def counter_inv_def turn_inv_def main_inv_def]
  have w: "spc s = S_Wait" "r_idx s = s_idx s" "signals s = Suc (s_idx s)"
    using i pc by (auto simp: signals_def split: if_splits)
  have "flag_inv t"
    using i pc w by (auto simp: t flag_inv_def signals_def a_store_ok nth_append less_Suc_eq payload_reads_def counter_accesses_def)
  moreover have "counter_inv t"
    using i pc m by (auto simp: t counter_inv_def written_def counter_accesses_def payload_reads_def)
  moreover have "turn_inv n t"
    using i pc w by (auto simp: t turn_inv_def)
  moreover have "main_inv n t" using m by (simp add: t main_inv_def)
  ultimately show ?thesis by (simp add: pingpong_inv_def)
qed

lemma receiver_step_inv: "pingpong_inv n s \<Longrightarrow> receiver_step n k s = Some t \<Longrightarrow> pingpong_inv n t"
  by (cases "rpc s") (blast intro: receiver_wait_inv receiver_read_inv receiver_reply_inv)+

lemma main_join_frame:
  assumes "flag_inv s" "counter_inv s" "turn_inv n s" "\<And>x. mpc s \<noteq> M_Exit x"
  shows "flag_inv (s\<lparr>pmem := t_join main_thread c (pmem s), mpc := p\<rparr>)" (is "flag_inv ?t")
    and "counter_inv (s\<lparr>pmem := t_join main_thread c (pmem s), mpc := p\<rparr>)"
    and "turn_inv n (s\<lparr>pmem := t_join main_thread c (pmem s), mpc := p\<rparr>)"
proof -
  have "signals ?t = signals s" by (simp add: signals_def)
  then show "flag_inv ?t" using assms(1) unfolding flag_inv_def by (simp add: t_join_ok)
  show "counter_inv ?t"
    by (rule counter_inv_frame [OF assms(2)])
      (use assms(4) in \<open>simp_all add: written_def counter_accesses_def payload_reads_def\<close>)
  show "turn_inv n ?t" by (rule turn_inv_frame [OF assms(3)]) simp_all
qed

lemma main_step_inv:
  assumes inv: "pingpong_inv n s" and step: "main_step n s = Some t"
  shows "pingpong_inv n t"
proof -
  note i = inv [unfolded pingpong_inv_def]
  show ?thesis
  proof (cases "mpc s")
    case M_Join_Sender
    then have t: "t = s\<lparr>pmem := t_join main_thread sender (pmem s), mpc := M_Join_Receiver\<rparr>"
      and d: "spc s = S_Read" "s_idx s = n"
      using step by (auto simp: main_step_def split: if_splits)
    have "main_inv n t" using i d by (simp add: t main_inv_def counter_inv_def counter_accesses_def)
    then show ?thesis
      using main_join_frame [of s n M_Join_Receiver sender] i M_Join_Sender by (simp add: t pingpong_inv_def)
  next
    case M_Join_Receiver
    then have t: "t = s\<lparr>pmem := t_join main_thread receiver (pmem s), mpc := M_Check\<rparr>"
      and d: "rpc s = R_Wait" "r_idx s = n"
      using step by (auto simp: main_step_def split: if_splits)
    have "main_inv n t" using i d M_Join_Receiver by (simp add: t main_inv_def le_max_iff_disj)
    then show ?thesis
      using main_join_frame [of s n M_Check receiver] i M_Join_Receiver by (simp add: t pingpong_inv_def)
  next
    case M_Check
    have d: "spc s = S_Read" "s_idx s = n" "r_idx s = n" "2 * n \<le> clock (tview (pmem s) main_thread) sender"
      using i M_Check by (simp_all add: main_inv_def)
    have w: "written s = n" using d by (simp add: written_def counter_accesses_def)
    have t: "t = s\<lparr>pmem := snd (na_read main_thread () (pmem s)), mpc := M_Exit 0\<rparr>"
      using step M_Check i w by (simp add: main_step_def split_beta counter_inv_def)
    have e: "signals t = signals s" "written t = written s" "payload_reads t = payload_reads s"
      "counter_accesses t = counter_accesses s"
      by (simp_all add: t signals_def written_def counter_accesses_def payload_reads_def)
    have "flag_inv t" using i unfolding flag_inv_def e by (simp add: t na_read_ok)
    moreover have "counter_inv t"
      using i d w unfolding counter_inv_def e by (auto simp: t ordered_def M_Check)
    moreover have "turn_inv n t"
      by (rule turn_inv_frame [where s = s]) (use i in \<open>simp_all add: t\<close>)
    moreover have "main_inv n t" using d by (simp add: t main_inv_def)
    ultimately show ?thesis by (simp add: pingpong_inv_def)
  qed (use step in \<open>simp add: main_step_def\<close>)
qed

lemma pingpong_next_inv: "pingpong_inv n s \<Longrightarrow> pingpong_next n c s = Some t \<Longrightarrow> pingpong_inv n t"
  by (cases c) (auto simp: pingpong_next_def intro: sender_step_inv receiver_step_inv main_step_inv)

interpretation pingpong_machine: machine "pingpong_next n" pingpong_init "pingpong_inv n" for n
  by unfold_locales (auto intro: pingpong_inv_init pingpong_next_inv)

section \<open>The program always gets to its end\<close>

definition round_phase :: "pingpong \<Rightarrow> nat" where
  "round_phase s =
     (case spc s of
        S_Read \<Rightarrow> 0 | S_Write v \<Rightarrow> 1 | S_Signal \<Rightarrow> 2
      | S_Wait \<Rightarrow> (if r_idx s = s_idx s
                   then (case rpc s of R_Wait \<Rightarrow> 3 | R_Read \<Rightarrow> 4 | R_Reply \<Rightarrow> 5) else 6))"

definition work_left :: "nat \<Rightarrow> pingpong \<Rightarrow> nat" where
  "work_left n s =
     7 * (n - s_idx s) - round_phase s +
     (case mpc s of M_Join_Sender \<Rightarrow> 3 | M_Join_Receiver \<Rightarrow> 2 | M_Check \<Rightarrow> 1 | M_Exit c \<Rightarrow> 0)"

text \<open>The newest message of the flag is always readable, and tells the thread whose turn it is.\<close>

lemma newest_flag:
  assumes "flag_inv s"
  shows "\<exists>m. a_load mo j () (signals s + r_idx s) (pmem s) =
           Some (if even (signals s + r_idx s) then 0 else 1, m)"
proof -
  have l: "length (hist (pmem s) ()) = Suc (signals s + r_idx s)" "mem_ok (pmem s)"
    using assms by (simp_all add: flag_inv_def)
  have "seen (tview (pmem s) j) () \<le> signals s + r_idx s"
    using mem_ok_tview [OF l(2), of j] l(1) by (simp add: view_ok_def less_Suc_eq_le)
  then show ?thesis
    using flag_message(1) [OF assms, of "signals s + r_idx s"] l(1) by (auto simp: a_load_def Let_def)
qed

lemma sender_progress:
  assumes i: "flag_inv s" "turn_inv n s" and n: "s_idx s < n"
    and turn: "spc s = S_Wait \<Longrightarrow> r_idx s = Suc (s_idx s)"
  shows "\<exists>k t. sender_step n k 0 s = Some t \<and> work_left n t < work_left n s"
proof (cases "spc s")
  case S_Wait
  then have "even (signals s + r_idx s)" using turn by (simp add: signals_def)
  with newest_flag [OF i(1), of Acquire sender] obtain m where
    "a_load Acquire sender () (signals s + r_idx s) (pmem s) = Some (0, m)" by auto
  with S_Wait have "sender_step n (signals s + r_idx s) 0 s =
      Some (s\<lparr>pmem := m, round_trip_samples := round_trip_samples s @ [0 - s_start s],
              s_idx := Suc (s_idx s), spc := S_Read\<rparr>)"
    by (simp add: sender_step_def)
  moreover have "work_left n (s\<lparr>pmem := m, round_trip_samples := round_trip_samples s @ [0 - s_start s],
              s_idx := Suc (s_idx s), spc := S_Read\<rparr>) < work_left n s"
    using S_Wait n turn by (auto simp: work_left_def round_phase_def)
  ultimately show ?thesis by blast
qed (use n in \<open>auto simp: sender_step_def work_left_def round_phase_def split_beta split: receiver_pc.splits\<close>)

lemma receiver_progress:
  assumes i: "flag_inv s" "turn_inv n s" and w: "spc s = S_Wait" "r_idx s = s_idx s" "s_idx s < n"
  shows "\<exists>k t. receiver_step n k s = Some t \<and> work_left n t < work_left n s"
proof (cases "rpc s")
  case R_Wait
  have "odd (signals s + r_idx s)" using w by (simp add: signals_def)
  with newest_flag [OF i(1), of Acquire receiver] obtain m where
    "a_load Acquire receiver () (signals s + r_idx s) (pmem s) = Some (1, m)" by auto
  with R_Wait w have "receiver_step n (signals s + r_idx s) s = Some (s\<lparr>pmem := m, rpc := R_Read\<rparr>)"
    by (simp add: receiver_step_def)
  moreover have "work_left n (s\<lparr>pmem := m, rpc := R_Read\<rparr>) < work_left n s"
    using R_Wait w by (simp add: work_left_def round_phase_def)
  ultimately show ?thesis by blast
qed (use w in \<open>auto simp: receiver_step_def work_left_def round_phase_def split_beta\<close>)

lemma main_progress:
  assumes "turn_inv n s" "main_inv n s" and "s_idx s = n" and "\<And>c. mpc s \<noteq> M_Exit c"
  shows "\<exists>t. main_step n s = Some t \<and> work_left n t < work_left n s"
  using assms
  by (cases "mpc s")
    (auto simp: main_step_def work_left_def round_phase_def turn_inv_def main_inv_def split_beta split: if_splits)

lemma pingpong_progress:
  assumes inv: "pingpong_inv n s" and left: "\<And>c. mpc s \<noteq> M_Exit c"
  shows "\<exists>c t. pingpong_next n c s = Some t \<and> work_left n t < work_left n s"
proof -
  have i: "flag_inv s" "turn_inv n s" "main_inv n s" using inv by (simp_all add: pingpong_inv_def)
  consider "s_idx s = n" | "s_idx s < n" "spc s = S_Wait" "r_idx s = s_idx s"
    | "s_idx s < n" "spc s = S_Wait \<Longrightarrow> r_idx s = Suc (s_idx s)"
  proof -
    have "s_idx s \<le> n" "spc s = S_Wait \<Longrightarrow> r_idx s = s_idx s \<or> r_idx s = Suc (s_idx s)"
      using i(2) by (auto simp: turn_inv_def)
    then show thesis using that by (cases "s_idx s = n"; cases "spc s = S_Wait") auto
  qed
  then show ?thesis
  proof cases
    case 1
    with main_progress [OF i(2,3) _ left] obtain t where "main_step n s = Some t" "work_left n t < work_left n s"
      by blast
    then show ?thesis by (intro exI [of _ Main] exI [of _ t]) (simp add: pingpong_next_def)
  next
    case 2
    with receiver_progress [OF i(1,2)] obtain k t where "receiver_step n k s = Some t" "work_left n t < work_left n s"
      by blast
    then show ?thesis by (intro exI [of _ "Receiver k"] exI [of _ t]) (simp add: pingpong_next_def)
  next
    case 3
    with sender_progress [OF i(1,2)] obtain k t where "sender_step n k 0 s = Some t" "work_left n t < work_left n s"
      by blast
    then show ?thesis by (intro exI [of _ "Sender k 0"] exI [of _ t]) (simp add: pingpong_next_def)
  qed
qed

lemma pingpong_terminates:
  "pingpong_inv n s \<Longrightarrow> \<exists>t c. reach (pingpong_next n) s t \<and> mpc t = M_Exit c"
proof (induction "work_left n s" arbitrary: s rule: less_induct)
  case less
  show ?case
  proof (cases "\<exists>c. mpc s = M_Exit c")
    case False
    then obtain c t where t: "pingpong_next n c s = Some t" "work_left n t < work_left n s"
      using pingpong_progress [OF less.prems] by blast
    obtain u d where "reach (pingpong_next n) t u" "mpc u = M_Exit d"
      using less.hyps [OF t(2) pingpong_next_inv [OF less.prems t(1)]] by blast
    with reach_step [where nxt = "pingpong_next n", OF reach_start t(1)] show ?thesis
      by (blast intro: reach_trans)
  qed (blast intro: reach_start)
qed

section \<open>Properties\<close>

definition pingpong_schedule :: "pingpong_choice list" where
  "pingpong_schedule =
     [Receiver 0, Sender 0 10, Sender 0 0, Receiver 0, Sender 0 0, Receiver 0, Sender 1 0, Receiver 1,
      Receiver 0, Receiver 0, Sender 1 0, Sender 2 25, Sender 0 30, Sender 0 0]"

text \<open>
  Property C10. The flag alone makes the hand-over safe: no access of the plain counter races
  with another, the value the receiver reads in round \<open>i\<close> is \<open>i + 1\<close>, the one the sender
  wrote in that round, and the sender records one sample a round.  It rests on the release
  stores and acquire loads the code makes.
\<close>

theorem pingpong_handover:
  assumes "reach (pingpong_next n) pingpong_init s"
  shows "\<not> race (pmem s) \<and> received s = map (\<lambda>i. of_nat (Suc i)) [0 ..< length (received s)] \<and>
         length (received s) \<in> {s_idx s, Suc (s_idx s)} \<and> length (round_trip_samples s) = s_idx s"
proof -
  have i: "counter_inv s" "turn_inv n s"
    using pingpong_machine.inv_reach [OF assms] by (simp_all add: pingpong_inv_def)
  from i(1) have r: "received s = map (\<lambda>i. of_nat (Suc i)) [0 ..< payload_reads s]" "\<not> race (pmem s)"
    unfolding counter_inv_def by blast+
  from r(1) have l: "length (received s) = payload_reads s" by simp
  have "payload_reads s \<in> {s_idx s, Suc (s_idx s)}"
    using i(2) by (auto simp: turn_inv_def payload_reads_def split: if_splits receiver_pc.splits)
  moreover have "length (round_trip_samples s) = s_idx s" using i(2) by (simp add: turn_inv_def)
  ultimately show ?thesis using r unfolding l by blast
qed

theorem pingpong_handover_witness:
  "\<exists>s. reach (pingpong_next 3) pingpong_init s \<and> s_idx s = 1 \<and> received s = [1] \<and>
       round_trip_samples s = [15] \<and> \<not> race (pmem s)"
proof -
  have "run_to (pingpong_next 3) pingpong_schedule pingpong_init
          (\<lambda>s. s_idx s = 1 \<and> received s = [1] \<and> round_trip_samples s = [15])"
    by code_simp
  then obtain s where s: "reach (pingpong_next 3) pingpong_init s" "s_idx s = 1" "received s = [1]"
      "round_trip_samples s = [15]"
    by (blast dest: run_toD)
  from pingpong_handover [OF s(1)] s show ?thesis by blast
qed

text \<open>
  The program ends and succeeds: whatever has happened so far, \<open>main\<close> can still
  come to its end, and whenever it does, its exit code is zero and there is a sample for every
  round, so the percentiles it prints are read inside the vector.
\<close>

theorem pingpong_exits_zero:
  assumes "reach (pingpong_next n) pingpong_init s"
  shows "(\<forall>c. mpc s = M_Exit c \<longrightarrow> c = 0 \<and> length (round_trip_samples s) = n) \<and>
         (\<exists>t. reach (pingpong_next n) s t \<and> mpc t = M_Exit 0)"
proof -
  have exit: "c = 0 \<and> length (round_trip_samples u) = n" if "pingpong_inv n u" "mpc u = M_Exit c" for u c
    using that by (simp add: pingpong_inv_def main_inv_def turn_inv_def)
  have i: "pingpong_inv n s" by (rule pingpong_machine.inv_reach [OF assms])
  obtain t c where t: "reach (pingpong_next n) s t" "mpc t = M_Exit c"
    using pingpong_terminates [OF i] by blast
  have "pingpong_inv n t" by (rule pingpong_machine.inv_reach [OF reach_trans [OF assms t(1)]])
  with exit t have "mpc t = M_Exit 0" by blast
  with exit [OF i] t(1) show ?thesis by blast
qed

theorem pingpong_exits_zero_witness:
  "\<exists>s t. reach (pingpong_next 3) pingpong_init s \<and> s_idx s = 1 \<and>
         reach (pingpong_next 3) s t \<and> mpc t = M_Exit 0"
proof -
  have "run_to (pingpong_next 3) pingpong_schedule pingpong_init (\<lambda>s. s_idx s = 1)"
    by code_simp
  then obtain s where s: "reach (pingpong_next 3) pingpong_init s" "s_idx s = 1"
    by (blast dest: run_toD)
  from pingpong_exits_zero [OF s(1)] s show ?thesis by blast
qed

section \<open>Arguments and report\<close>

text \<open>
  \<open>main\<close> parses its argument itself, with the text of \<open>parse_bench_args\<close> but another default
  mode; an exception of \<open>std::stoi\<close> is not caught.
\<close>

definition pingpong_args :: "string list \<Rightarrow> stoi_error + BenchArgs" where
  "pingpong_args argv =
     (if length argv > 1 then
        let arg = argv ! 1 in
        if length arg \<ge> length printed_suffix + 1 \<and>
           drop (length arg - length printed_suffix) arg = printed_suffix
        then map_sum id (\<lambda>m. \<lparr>mode = m, printed = True\<rparr>)
               (stoi (take (length arg - length printed_suffix) arg))
        else map_sum id (\<lambda>m. \<lparr>mode = m, printed = False\<rparr>) (stoi arg)
      else Inr \<lparr>mode = 1, printed = True\<rparr>)"

text \<open>Where the flag and the counter are, and what \<open>main\<close> prints of it.\<close>

datatype layout = Packed | Padded

definition used_layout :: "int \<Rightarrow> layout" where
  "used_layout m = (if m = 2 then Padded else Packed)"

definition layout_text :: "int \<Rightarrow> string" where
  "layout_text m = (if m = 1 then ''same cache line'' else ''separate cache lines'')"

text \<open>The seven values printed, after \<open>std::sort\<close>, in the counter's unit.\<close>

definition pingpong_report :: "(rat \<Rightarrow> nat \<Rightarrow> nat) \<Rightarrow> int list \<Rightarrow> int option list" where
  "pingpong_report mul samples =
     (let ts = sort samples
      in map (percentile_sorted mul ts)
           [1 / 1000, 1 / 100, 25 / 100, 50 / 100, 75 / 100, 99 / 100, 999 / 1000])"

text \<open>
  The argument means to this program what it means to the other two, but without
  one the mode is 1; and the layout it announces is the one it uses exactly for the modes 1 and
  2: for any other number it runs packed and announces separate cache lines.
\<close>

theorem pingpong_arguments:
  "pingpong_args argv = (if length argv > 1 then parse_bench_args argv else Inr \<lparr>mode = 1, printed = True\<rparr>) \<and>
   ((layout_text m = ''same cache line'' \<longleftrightarrow> used_layout m = Packed) \<longleftrightarrow> m \<in> {1, 2})"
  by (auto simp: pingpong_args_def parse_bench_args_def ends_printed_def Let_def used_layout_def layout_text_def)

section \<open>What is printed\<close>

text \<open>
  The lines before the threads start (on Linux), and those of the percentiles.  \<open>'d\<close> stands for
  \<open>double\<close>; \<open>show_double\<close> and \<open>trunc\<close> are its output and its conversion to \<open>int64_t\<close>.  A line
  with an element read outside the vector is \<open>None\<close>.
\<close>

definition frequencies_line :: "(string \<Rightarrow> string option) \<Rightarrow> string \<Rightarrow> string" where
  "frequencies_line files when =
     ''Core 0: '' @ to_string (read_core_freq_mhz files 0) @ '' MHz  Core 1: '' @
     to_string (read_core_freq_mhz files 1) @ '' MHz  ('' @ when @ '')'' @ [CHR 0x0A]"

text \<open>The warning of \<open>check_cpu_governor\<close>, the lines, and \<open>tsc_ghz\<close>, which is \<open>calibrated\<close> only if
  output is wanted.\<close>

definition pingpong_before :: "('d \<Rightarrow> string) \<Rightarrow> (string \<Rightarrow> string option) \<Rightarrow> 'd \<Rightarrow> BenchArgs
    \<Rightarrow> string option \<times> string \<times> 'd :: zero" where
  "pingpong_before show_double files calibrated args =
     (let tsc_ghz = 0
      in if printed args then
           (check_cpu_governor files,
            ''Mode '' @ to_string (mode args) @ '': flag and counter on '' @ layout_text (mode args) @ [CHR 0x0A] @
            ''Calibrating TSC...'' @ [CHR 0x0A] @
            ''TSC: '' @ show_double calibrated @ '' GHz'' @ [CHR 0x0A] @
            frequencies_line files ''before'',
            calibrated)
         else (None, [], tsc_ghz))"

definition print_pct :: "(int \<Rightarrow> 'd) \<Rightarrow> ('d \<Rightarrow> int) \<Rightarrow> string \<Rightarrow> 'd :: {zero, ord, inverse} \<Rightarrow> string \<Rightarrow> int \<Rightarrow> string" where
  "print_pct double_of_long trunc unit tsc_ghz label val =
     label @ to_string val @ '' '' @ unit @
     (if 0 < tsc_ghz then '' (~'' @ to_string (trunc (double_of_long val / tsc_ghz)) @ '' ns)'' else []) @
     [CHR 0x0A]"

definition pct_labels :: "string list" where
  "pct_labels = [''p0.1:  '', ''p1:    '', ''p25:   '', ''p50:   '', ''p75:   '', ''p99:   '', ''p99.9: '']"

definition pingpong_after :: "(int \<Rightarrow> 'd) \<Rightarrow> ('d \<Rightarrow> int) \<Rightarrow> (string \<Rightarrow> string option) \<Rightarrow> 'd :: {zero, ord, inverse}
    \<Rightarrow> (rat \<Rightarrow> nat \<Rightarrow> nat) \<Rightarrow> int list \<Rightarrow> BenchArgs \<Rightarrow> string option list" where
  "pingpong_after double_of_long trunc files tsc_ghz mul samples args =
     (if printed args then
        Some (frequencies_line files ''after'') #
        map2 (\<lambda>label. map_option (print_pct double_of_long trunc timing_unit tsc_ghz label))
          pct_labels (pingpong_report mul samples)
      else [])"

section \<open>Nanoseconds in double arithmetic\<close>

text \<open>
  Up to 52 days the elapsed nanoseconds are computed without an error, and so the rate is the
  rounded number of ticks, divided by them and rounded.
\<close>

lemma elapsed_exact:
  assumes "0 < d" and "d < 2 ^ 52"
  shows "exact (long_to_double (tv_sec (timespec_of (T + d)) - tv_sec (timespec_of T)) * long_to_double 1000000000 +
      long_to_double (tv_nsec (timespec_of (T + d)) - tv_nsec (timespec_of T))) = of_int d"
proof -
  let ?s = "tv_sec (timespec_of (T + d)) - tv_sec (timespec_of T)"
  let ?n = "tv_nsec (timespec_of (T + d)) - tv_nsec (timespec_of T)"
  have sum: "?s * 1000000000 + ?n = d"
    by (simp add: timespec_of_def algebra_simps minus_mod_eq_mult_div [symmetric])
  have "0 \<le> (T + d) mod 1000000000" "(T + d) mod 1000000000 < 1000000000"
    "0 \<le> T mod 1000000000" "T mod 1000000000 < 1000000000" by simp_all
  then have n: "\<bar>?n\<bar> < 1000000000" unfolding timespec_of_def timespec.simps abs_less_iff by linarith
  then have b: "\<bar>?n\<bar> < 2 ^ 53" "\<bar>?s * 1000000000\<bar> < 2 ^ 53" "\<bar>d\<bar> < 2 ^ 53"
    using sum assms by (simp_all add: abs_less_iff)
  then have s: "\<bar>?s\<bar> < 2 ^ 53" by (simp add: abs_less_iff)
  have g: "binary64 (1000000000 :: rat) = 1000000000" using binary64_int [of 1000000000] by simp
  have "binary64 (of_int ?s * 1000000000) = of_int (?s * 1000000000)"
    using binary64_int [OF b(2)] by simp
  moreover have "of_int (?s * 1000000000) + of_int ?n = (of_int d :: rat)"
    using sum by (simp only: of_int_add [symmetric])
  ultimately show ?thesis
    using binary64_int [OF s] binary64_int [OF b(1)] binary64_int [OF b(3)] g by simp
qed

lemma rate_exact:
  assumes "0 < d" and "d < 2 ^ 52" and "c < 2 ^ 64"
  shows "exact (calibrate_tsc_ghz long_to_double u64_to_double (timespec_of T) (of_nat n) (of_nat (n + c))
      (timespec_of (T + d))) = binary64 (binary64 (of_nat c) / of_int d)"
proof -
  have "uint (of_nat (n + c) - of_nat n :: u64) = int c"
    using counter_difference [of n "n + c"] assms(3) by (simp add: uint_nat)
  then show ?thesis
    using elapsed_exact [OF assms(1,2), of T] unfolding calibrate_tsc_ghz_def Let_def double_simps(4) by simp
qed

text \<open>A number within one in \<open>2 ^ 50\<close> of another, both rounded down.\<close>

lemma floor_near:
  fixes q x :: rat
  assumes "\<bar>q - x\<bar> \<le> x / 2 ^ 50"
  shows "\<bar>floor q - floor x\<bar> \<le> 1 + floor (x / 2 ^ 50)"
proof -
  define y where "y = x / 2 ^ 50"
  have "\<bar>q - x\<bar> \<le> y" using assms by (simp only: y_def)
  then have "q \<le> x + y" "x - y \<le> q" by (simp_all add: abs_le_iff)
  then have "floor q \<le> floor x + floor y + 1" "floor x \<le> floor q + floor y + 1" by linarith+
  then show ?thesis unfolding y_def [symmetric] by (simp add: abs_le_iff)
qed

text \<open>
  Property C40. The nanoseconds printed beside a percentile are its cycles converted at the measured
  rate, in \<open>double\<close> arithmetic: if the counter advanced by \<open>c\<close> ticks, wherever it stood and even if
  it wrapped, while the clock advanced by \<open>d\<close> nanoseconds, across any number of seconds but less
  than 52 days, then \<open>v\<close> cycles are printed as \<open>v * d div c\<close> nanoseconds up to one, and one more for
  each \<open>2 ^ 50\<close> nanoseconds.  All conversions and operations round to binary64; the value must be
  below \<open>2 ^ 62\<close>, so that the conversion to \<open>int64_t\<close> is defined.  The error of one occurs: the
  witness is a case in which exactly 7658 nanoseconds are printed as 7657.
\<close>

theorem pingpong_prints_nanoseconds:
  assumes "0 \<le> v" and "0 < c" and "c < 2 ^ 64" and "0 < d" and "d < 2 ^ 52" and "v * d < int c * 2 ^ 62"
  shows "\<exists>ns. print_pct long_to_double double_to_long unit
           (calibrate_tsc_ghz long_to_double u64_to_double (timespec_of T) (of_nat n) (of_nat (n + c))
              (timespec_of (T + d))) label v =
         label @ to_string v @ '' '' @ unit @ '' (~'' @ to_string ns @ '' ns)'' @ [CHR 0x0A] \<and>
         \<bar>ns - v * d div int c\<bar> \<le> 1 + v * d div int c div 2 ^ 50 \<and> 0 \<le> ns \<and> ns < 2 ^ 63"
proof -
  let ?rate = "calibrate_tsc_ghz long_to_double u64_to_double (timespec_of T) (of_nat n) (of_nat (n + c)) (timespec_of (T + d))"
  let ?q = "binary64 (binary64 (of_int v) / binary64 (binary64 (of_nat c) / of_int d))"
  let ?x = "of_int v * of_int d / of_nat c :: rat" and ?ns = "floor ?q"
  note rate = rate_exact [OF assms(4,5,3), of T n]
  have pos: "(0 :: rat) \<le> of_int v" "(0 :: rat) < of_nat c" "(0 :: rat) < of_int d" using assms(1,2,4) by simp_all
  note conv = rounded_conversion [OF pos]
  have floors: "floor ?x = v * d div int c" "floor (?x / 2 ^ 50) = v * d div int c div 2 ^ 50"
  proof -
    have "?x = of_int (v * d) / of_int (int c)" by simp
    then show "floor ?x = v * d div int c" by (simp only: floor_divide_of_int_eq)
    have "?x / 2 ^ 50 = of_int (v * d) / of_int (int c * 2 ^ 50)" by simp
    then have "floor (?x / 2 ^ 50) = v * d div (int c * 2 ^ 50)" by (simp only: floor_divide_of_int_eq)
    also have "\<dots> = v * d div int c div 2 ^ 50" by (rule zdiv_zmult2_eq) simp
    finally show "floor (?x / 2 ^ 50) = v * d div int c div 2 ^ 50" .
  qed
  have near: "\<bar>?ns - v * d div int c\<bar> \<le> 1 + v * d div int c div 2 ^ 50"
    using floor_near [OF conv(1)] unfolding floors .
  have "0 < exact ?rate" using pos unfolding rate by (simp add: binary64_pos)
  moreover have "exact (long_to_double v / ?rate) = ?q" unfolding double_simps(4,6) rate ..
  then have "double_to_long (long_to_double v / ?rate) = ?ns"
    using conv(2) unfolding double_to_long_def by simp
  moreover have "0 \<le> ?ns" using conv(2) by simp
  moreover have "?ns < 2 ^ 63"
  proof -
    have small: "a div b < m" if "a < b * m" "0 < b" for a b m :: int
    proof -
      have "b * (a div b) \<le> a" using pos_mod_sign [OF that(2), of a] mult_div_mod_eq [of b a] by linarith
      then have "b * (a div b) < b * m" using that(1) by linarith
      then show ?thesis using that(2) by simp
    qed
    have x: "v * d div int c < 2 ^ 62" by (rule small) (use assms(2,6) in simp_all)
    moreover have "v * d div int c div 2 ^ 50 < 2 ^ 12" by (rule small) (use x in simp_all)
    moreover have "m < 2 ^ 63" if "y < 2 ^ 62" "z < 2 ^ 12" "\<bar>m - y\<bar> \<le> 1 + z" for m y z :: int
      using that by (simp add: abs_le_iff)
    ultimately show ?thesis using near by blast
  qed
  ultimately show ?thesis using near by (intro exI [of _ ?ns]) (simp add: print_pct_def)
qed

text \<open>14007 cycles at the rate of a counter that made 400200000 ticks in 218800000 nanoseconds.\<close>

lemma rounded_rate: "binary64 (400200000 / 218800000) = 8237388349514043 / 2 ^ 52"
proof -
  have "(400200000 / 218800000 :: rat) = (400200000 / 218800000 * 2 ^ 52) * 2 powi - 52" by (simp add: power_int_minus)
  also have "binary64 \<dots> = of_int 8237388349514043 * 2 powi - 52" by (rule binary64_nearest) simp_all
  finally show ?thesis by (simp add: power_int_minus)
qed

lemma rounded_quotient: "binary64 (14007 / (8237388349514043 / 2 ^ 52)) = 8420060045508607 / 2 ^ 40"
proof -
  have "(14007 / (8237388349514043 / 2 ^ 52) :: rat) = (14007 / (8237388349514043 / 2 ^ 52) * 2 ^ 40) * 2 powi - 40"
    by (simp add: power_int_minus)
  also have "binary64 \<dots> = of_int 8420060045508607 * 2 powi - 40" by (rule binary64_nearest) simp_all
  finally show ?thesis by (simp add: power_int_minus)
qed

theorem pingpong_prints_nanoseconds_witness:
  "let rate = calibrate_tsc_ghz long_to_double u64_to_double (timespec_of 1900000000) (of_nat (2 ^ 64 - 5))
        (of_nat (2 ^ 64 - 5 + 400200000)) (timespec_of (1900000000 + 218800000))
   in double_to_long (long_to_double 14007 / rate) = 7657 \<and> 14007 * 218800000 = 7658 * (400200000 :: int) \<and>
      (\<exists>ns. print_pct long_to_double double_to_long timing_unit rate ''p50:   '' 14007 =
         ''p50:   '' @ to_string 14007 @ '' '' @ timing_unit @ '' (~'' @ to_string ns @ '' ns)'' @ [CHR 0x0A] \<and>
         \<bar>ns - 7658\<bar> \<le> 1)"
proof -
  let ?rate = "calibrate_tsc_ghz long_to_double u64_to_double (timespec_of 1900000000) (of_nat (2 ^ 64 - 5))
        (of_nat (2 ^ 64 - 5 + 400200000)) (timespec_of (1900000000 + 218800000))"
  have "exact ?rate = binary64 (binary64 (of_nat 400200000) / of_int 218800000)" by (rule rate_exact) simp_all
  then have r: "exact ?rate = 8237388349514043 / 2 ^ 52"
    using binary64_int [of 400200000] rounded_rate by simp
  have "exact (long_to_double 14007 / ?rate) = 8420060045508607 / 2 ^ 40"
    unfolding double_simps(4,6) r using binary64_int [of 14007] rounded_quotient by simp
  then have "double_to_long (long_to_double 14007 / ?rate) = 7657"
    by (simp add: double_to_long_def floor_eq_iff)
  moreover have "\<exists>ns. print_pct long_to_double double_to_long timing_unit ?rate ''p50:   '' 14007 =
         ''p50:   '' @ to_string 14007 @ '' '' @ timing_unit @ '' (~'' @ to_string ns @ '' ns)'' @ [CHR 0x0A] \<and>
         \<bar>ns - 14007 * 218800000 div int 400200000\<bar> \<le> 1 + 14007 * 218800000 div int 400200000 div 2 ^ 50 \<and>
         0 \<le> ns \<and> ns < 2 ^ 63"
    by (rule pingpong_prints_nanoseconds) simp_all
  ultimately show ?thesis unfolding Let_def by auto
qed

end
