(* ===== verification/Fair_Pingpong.thy ===== *)
theory Fair_Pingpong
  imports Pingpong Fair_Runs
begin

text \<open>
  \<open>bench/pingpong_bench.cpp\<close> under a fair scheduler: the program exits with zero, however long
  the threads spin on the flag and whatever old values of it they read meanwhile.
\<close>

section \<open>The threads of a schedule\<close>

definition pingpong_thread :: "pingpong_choice \<Rightarrow> tid" where
  "pingpong_thread c = (case c of Sender k tsc \<Rightarrow> sender | Receiver k \<Rightarrow> receiver | Main \<Rightarrow> main_thread)"

definition flag_reads :: "pingpong_choice \<Rightarrow> pingpong \<Rightarrow> (unit \<times> nat) option" where
  "flag_reads c s =
     (case c of
        Sender k tsc \<Rightarrow> if spc s = S_Wait then Some ((), k) else None
      | Receiver k \<Rightarrow> if rpc s = R_Wait then Some ((), k) else None
      | Main \<Rightarrow> None)"

definition flag_messages :: "pingpong \<Rightarrow> unit \<Rightarrow> nat" where
  "flag_messages s l = length (hist (pmem s) l)"

text \<open>Whose turn it is, and the number of steps done that are not turns of a spin loop.\<close>

definition pingpong_turn :: "nat \<Rightarrow> pingpong \<Rightarrow> tid" where
  "pingpong_turn n s =
     (if s_idx s = n then main_thread
      else if spc s = S_Wait \<and> r_idx s = s_idx s then receiver else sender)"

definition pingpong_score :: "nat \<Rightarrow> pingpong \<Rightarrow> nat" where
  "pingpong_score n s = 7 * n + 3 - work_left n s"

definition pingpong_over :: "pingpong \<Rightarrow> bool" where
  "pingpong_over s \<longleftrightarrow> (case mpc s of M_Exit c \<Rightarrow> True | _ \<Rightarrow> False)"

section \<open>Every step advances the program or is a turn of a spin loop\<close>

definition spins :: "pingpong_choice \<Rightarrow> pingpong \<Rightarrow> pingpong \<Rightarrow> bool" where
  "spins c s t \<longleftrightarrow>
     (\<exists>k v m. flag_reads c s = Some ((), k) \<and> a_load Acquire (pingpong_thread c) () k (pmem s) = Some (v, m) \<and>
        t = s\<lparr>pmem := m\<rparr> \<and> (pingpong_thread c = sender \<and> v \<noteq> 0 \<or> pingpong_thread c = receiver \<and> v \<noteq> 1))"

lemma work_left_bound: "work_left n s \<le> 7 * n + 3"
proof -
  have "7 * (n - s_idx s) - round_phase s \<le> 7 * n" by simp
  then show ?thesis by (simp add: work_left_def split: main_pc.split)
qed

lemma sender_advances:
  assumes i: "turn_inv n s" "turn_inv n t" and step: "sender_step n k tsc s = Some t"
  shows "work_left n t < work_left n s \<or> spins (Sender k tsc) s t"
proof (cases "spc s")
  case S_Wait
  then obtain v m where load: "a_load Acquire sender () k (pmem s) = Some (v, m)"
    and t: "t = (if v \<noteq> 0 then s\<lparr>pmem := m\<rparr>
              else s\<lparr>pmem := m, round_trip_samples := round_trip_samples s @ [tsc - s_start s],
                     s_idx := Suc (s_idx s), spc := S_Read\<rparr>)"
    using step by (auto simp: sender_step_def split: option.splits)
  show ?thesis
  proof (cases "v = 0")
    case True
    have "s_idx s < n" "r_idx s = Suc (s_idx s)" using i S_Wait True by (simp_all add: t turn_inv_def)
    then have "work_left n t < work_left n s"
      using S_Wait True by (cases "mpc s") (simp_all add: t work_left_def round_phase_def)
    then show ?thesis by simp
  next
    case False
    then show ?thesis using S_Wait load by (simp add: t spins_def flag_reads_def pingpong_thread_def)
  qed
qed (use step i in \<open>auto simp: sender_step_def work_left_def round_phase_def split_beta turn_inv_def
       split: receiver_pc.splits if_splits\<close>)

lemma receiver_advances:
  assumes i: "turn_inv n s" "turn_inv n t" and step: "receiver_step n k s = Some t"
  shows "work_left n t < work_left n s \<or> spins (Receiver k) s t"
proof (cases "rpc s")
  case R_Wait
  then obtain v m where load: "a_load Acquire receiver () k (pmem s) = Some (v, m)"
    and t: "t = (if v \<noteq> 1 then s\<lparr>pmem := m\<rparr> else s\<lparr>pmem := m, rpc := R_Read\<rparr>)"
    using step by (auto simp: receiver_step_def split: option.splits if_splits)
  show ?thesis
  proof (cases "v = 1")
    case True
    have "spc s = S_Wait" "r_idx s = s_idx s" "s_idx s < n"
      using i(2) True by (auto simp: t turn_inv_def split: if_splits)
    then have "work_left n t < work_left n s"
      using R_Wait True by (cases "mpc s") (simp_all add: t work_left_def round_phase_def)
    then show ?thesis by simp
  next
    case False
    then show ?thesis using R_Wait load by (simp add: t spins_def flag_reads_def pingpong_thread_def)
  qed
qed (use step i in \<open>auto simp: receiver_step_def work_left_def round_phase_def split_beta turn_inv_def
       split: if_splits\<close>)

lemma round_phase_frame [simp]:
  "round_phase (s\<lparr>pmem := m\<rparr>) = round_phase s" "round_phase (s\<lparr>pmem := m, mpc := p\<rparr>) = round_phase s"
  by (cases "spc s"; simp add: round_phase_def)+

lemma main_advances: "main_step n s = Some t \<Longrightarrow> work_left n t < work_left n s"
  by (cases "mpc s") (auto simp: main_step_def work_left_def split_beta split: if_splits)

lemma pingpong_advances:
  assumes i: "pingpong_inv n s" and step: "pingpong_next n c s = Some t"
  shows "work_left n t < work_left n s \<or> spins c s t"
proof -
  have "turn_inv n s" "turn_inv n t"
    using i pingpong_next_inv [OF i step] by (simp_all add: pingpong_inv_def)
  then show ?thesis using step
    by (cases c) (auto simp: pingpong_next_def dest: sender_advances receiver_advances main_advances)
qed

text \<open>The thread whose turn it is does not spin on the newest message.\<close>

lemma no_spin_in_turn:
  assumes i: "pingpong_inv n s" and spin: "spins c s t" and turn: "pingpong_thread c = pingpong_turn n s"
    and newest: "\<And>l k. flag_reads c s = Some (l, k) \<Longrightarrow> flag_messages s l = Suc k"
  shows False
proof -
  obtain k v m where k: "flag_reads c s = Some ((), k)"
    and load: "a_load Acquire (pingpong_thread c) () k (pmem s) = Some (v, m)"
    and v: "pingpong_thread c = sender \<and> v \<noteq> 0 \<or> pingpong_thread c = receiver \<and> v \<noteq> 1"
    using spin by (auto simp: spins_def)
  have f: "flag_inv s" "turn_inv n s" using i by (simp_all add: pingpong_inv_def)
  have "k = signals s + r_idx s"
    using newest [OF k] f(1) by (simp add: flag_messages_def flag_inv_def)
  with load newest_flag [OF f(1), of Acquire "pingpong_thread c"]
  have v_is: "v = (if even (signals s + r_idx s) then 0 else 1)" by auto
  show False
  proof (cases "pingpong_thread c = sender")
    case True
    then have "spc s = S_Wait" "r_idx s \<noteq> s_idx s"
      using k turn by (auto simp: flag_reads_def pingpong_thread_def pingpong_turn_def
          split: pingpong_choice.splits if_splits)
    then have "even (signals s + r_idx s)" using f(2) by (auto simp: turn_inv_def signals_def)
    then show False using v_is v True by simp
  next
    case False
    then have "spc s = S_Wait" "r_idx s = s_idx s"
      using v turn by (auto simp: pingpong_turn_def split: if_splits)
    then show False using v_is v False by (simp add: signals_def)
  qed
qed

section \<open>The rule applied\<close>

lemma pingpong_turn_moves:
  assumes i: "pingpong_inv n s" and left: "\<not> pingpong_over s"
  shows "can_move (pingpong_next n) pingpong_thread (pingpong_turn n s) s"
proof -
  have f: "flag_inv s" "turn_inv n s" "main_inv n s" using i by (simp_all add: pingpong_inv_def)
  consider (main) "s_idx s = n" | (receiver) "s_idx s < n" "spc s = S_Wait" "r_idx s = s_idx s"
    | (sender) "s_idx s < n" "\<not> (spc s = S_Wait \<and> r_idx s = s_idx s)"
    using f(2) by (fastforce simp: turn_inv_def)
  then show ?thesis
  proof cases
    case main
    then obtain t where "main_step n s = Some t"
      using main_progress [OF f(2,3)] left by (auto simp: pingpong_over_def split: main_pc.splits)
    then show ?thesis using main
      by (auto simp: can_move_def pingpong_turn_def pingpong_thread_def pingpong_next_def intro!: exI [of _ Main])
  next
    case receiver
    then obtain k t where "receiver_step n k s = Some t"
      using receiver_progress [OF f(1,2)] by blast
    then show ?thesis using receiver
      by (auto simp: can_move_def pingpong_turn_def pingpong_thread_def pingpong_next_def
          intro!: exI [of _ "Receiver k"])
  next
    case sender
    then have "spc s = S_Wait \<Longrightarrow> r_idx s = Suc (s_idx s)" using f(2) by (auto simp: turn_inv_def)
    then obtain k t where "sender_step n k 0 s = Some t"
      using sender_progress [OF f(1,2) sender(1)] by blast
    then show ?thesis using sender
      by (auto simp: can_move_def pingpong_turn_def pingpong_thread_def pingpong_next_def
          intro!: exI [of _ "Sender k 0"])
  qed
qed

interpretation fair_pingpong: fair_machine "pingpong_next n" "pingpong_inv n" pingpong_thread
    "\<lambda>c s. True" flag_reads flag_messages pingpong_over "pingpong_score n" "7 * n + 3" "pingpong_turn n" "\<lambda>s. 0"
  for n
proof
  fix s c t
  assume i: "pingpong_inv n s"
  show "pingpong_inv n t" if "pingpong_next n c s = Some t" by (rule pingpong_next_inv [OF i that])
  show "pingpong_score n s \<le> 7 * n + 3" by (simp add: pingpong_score_def)
  show "can_move (pingpong_next n) pingpong_thread (pingpong_turn n s) s" if "\<not> pingpong_over s"
    by (rule pingpong_turn_moves [OF i that])
  assume step: "pingpong_next n c s = Some t"
  have "work_left n t \<le> work_left n s"
    using pingpong_advances [OF i step] by (auto simp: spins_def work_left_def)
  then show "pingpong_score n s \<le> pingpong_score n t" by (simp add: pingpong_score_def)
  assume same: "pingpong_score n t = pingpong_score n s"
  with pingpong_advances [OF i step] work_left_bound [of n s] have spin: "spins c s t"
    by (auto simp: pingpong_score_def)
  then obtain k v m where m: "a_load Acquire (pingpong_thread c) () k (pmem s) = Some (v, m)" "t = s\<lparr>pmem := m\<rparr>"
    by (auto simp: spins_def)
  have ok: "mem_ok (pmem s)" using i by (simp add: pingpong_inv_def flag_inv_def)
  show "flag_messages t = flag_messages s"
    using load_view [OF ok m(1)] by (intro ext) (simp add: flag_messages_def m(2))
  assume newest: "\<And>l k. flag_reads c s = Some (l, k) \<Longrightarrow> flag_messages s l = Suc k"
  show "pingpong_turn n t = pingpong_turn n s \<and> (0::nat) \<le> 0 \<and>
      (pingpong_thread c = pingpong_turn n s \<and> True \<longrightarrow> (0::nat) < 0)"
  proof -
    have "pingpong_thread c \<noteq> pingpong_turn n s" using no_spin_in_turn [OF i spin _ newest] by blast
    then show ?thesis by (simp add: pingpong_turn_def m(2))
  qed
qed

text \<open>
  Property C28. The program ends and succeeds: under every schedule that does not pass over a
  thread forever and in which stores to the flag become visible, \<open>main\<close> joins both threads and
  returns zero, with one sample for every round and no data race - however long the threads spin
  on the flag and whatever old values of it they read.
\<close>

theorem pingpong_always_exits:
  assumes "weakly_fair (pingpong_next n) pingpong_thread (\<lambda>c s. True) pingpong_init schedule"
    and "visible (pingpong_next n) flag_reads flag_messages pingpong_init schedule"
  shows "\<exists>i. let s = execution (pingpong_next n) schedule pingpong_init i in
           mpc s = M_Exit 0 \<and> length (round_trip_samples s) = n \<and> length (received s) = n \<and> \<not> race (pmem s)"
proof -
  obtain i where over: "pingpong_over (execution (pingpong_next n) schedule pingpong_init i)"
    and inv_i: "pingpong_inv n (execution (pingpong_next n) schedule pingpong_init i)"
    using fair_pingpong.fair_runs_finish [OF pingpong_inv_init assms] by blast
  define s where "s = execution (pingpong_next n) schedule pingpong_init i"
  have inv: "pingpong_inv n s" unfolding s_def by (rule inv_i)
  obtain c where c: "mpc s = M_Exit c" using over by (auto simp: s_def pingpong_over_def split: main_pc.splits)
  then have idx: "c = 0" "spc s = S_Read" "s_idx s = n" "r_idx s = n"
    using inv by (simp_all add: pingpong_inv_def main_inv_def)
  then have "rpc s = R_Wait" "length (round_trip_samples s) = n" using inv by (simp_all add: pingpong_inv_def turn_inv_def)
  moreover have "received s = map (\<lambda>i. of_nat (Suc i)) [0 ..< payload_reads s]" "\<not> race (pmem s)"
    using inv unfolding pingpong_inv_def counter_inv_def by blast+
  ultimately show ?thesis using c idx by (intro exI [of _ i]) (simp add: s_def [symmetric] payload_reads_def)
qed

text \<open>A run with one round, to its end.\<close>

definition one_round :: "pingpong_choice list" where
  "one_round =
     [Receiver 0, Sender 0 10, Sender 0 0, Receiver 0, Sender 0 0, Receiver 0, Sender 1 0, Receiver 1,
      Receiver 0, Receiver 0, Sender 1 0, Sender 2 25, Main, Main, Main]"

lemma exited_stuck: "pingpong_inv n s \<Longrightarrow> mpc s = M_Exit c \<Longrightarrow> pingpong_next n d s = None"
  by (cases d) (auto simp: pingpong_next_def pingpong_inv_def main_inv_def turn_inv_def sender_step_def
      receiver_step_def main_step_def)

theorem pingpong_always_exits_witness:
  "\<exists>i. let s = execution (pingpong_next 1) (pad one_round Main) pingpong_init i in
     mpc s = M_Exit 0 \<and> length (round_trip_samples s) = 1 \<and> length (received s) = 1 \<and> \<not> race (pmem s)"
proof -
  have "run_to (pingpong_next 1) one_round pingpong_init (\<lambda>s. mpc s = M_Exit 0)" by code_simp
  then obtain s where s: "run (pingpong_next 1) one_round pingpong_init = Some s" "mpc s = M_Exit 0"
    by (blast dest: run_to_run)
  have "reach (pingpong_next 1) pingpong_init s" by (rule run_reach [OF s(1)])
  then have "pingpong_inv 1 s" by (rule pingpong_machine.inv_reach)
  note fair = finished_run_is_fair [OF s(1) exited_stuck [OF this s(2)]]
  from pingpong_always_exits [OF fair] show ?thesis .
qed

end
