(* ===== verification/Cas_Spinlock.thy ===== *)
theory Cas_Spinlock
  imports Cxx_Memory Sampling
begin

text \<open>
  \<open>experiments/cas_spinlock.cpp\<close>: threads that increment a plain counter under a spinlock made
  of one atomic flag (weak compare-exchange with acquire order to lock, release store to
  unlock), each counting its own acquisitions; \<open>main\<close> joins them, prints the acquisitions and
  checks the counter.  Every access of the flag and of the plain objects is a step on the
  memory of \<open>Cxx_Memory\<close>, so spurious failures and stale reads of the flag are included.
\<close>

section \<open>State and steps\<close>

datatype plain = Counter | Acquisitions nat

text \<open>
  Where a thread stands in \<open>increment_counter\<close>: at the head of the loop, at an attempt of
  \<open>cas_counter_lock\<close>, at one of the accesses of the critical section (\<open>x += 1\<close> is a read and
  a write), at the unlock, at the recording of the sample, or after the loop.
\<close>

datatype lock_pc =
    L_Loop | L_Cas | L_Check | L_Break
  | L_Take_Read | L_Take_Write i64 | L_Inc_Read | L_Inc_Write i64 | L_Unlock | L_Sample | L_Done

datatype main_at = Main_Join nat | Main_Print nat | Main_Check | Main_Exit int

record spinlock =
  lmem :: "(bool, unit, i64, plain) memory"
  lpc :: "tid \<Rightarrow> lock_pc"
  loop_n :: "tid \<Rightarrow> nat"
  start :: "tid \<Rightarrow> int"
  samples :: "tid \<Rightarrow> int list"
  mat :: main_at
  printed_acquisitions :: "i64 list"

definition spinlock_init :: spinlock where
  "spinlock_init =
     \<lparr>lmem = mem_init (\<lambda>_. False) (\<lambda>_. 0), lpc = (\<lambda>_. L_Loop), loop_n = (\<lambda>_. 0), start = (\<lambda>_. 0),
      samples = (\<lambda>_. []), mat = Main_Join 0, printed_acquisitions = []\<rparr>"

definition goto :: "tid \<Rightarrow> lock_pc \<Rightarrow> spinlock \<Rightarrow> spinlock" where
  "goto t p s = s\<lparr>lpc := (lpc s)(t := p)\<rparr>"

text \<open>\<open>while (!flag.compare_exchange_weak(expected, true, acquire, relaxed)) expected = false;\<close>\<close>

definition cas_counter_lock :: "tid \<Rightarrow> cas_choice \<Rightarrow> spinlock \<Rightarrow> spinlock option" where
  "cas_counter_lock t ch s =
     (case a_cas True Acquire Relaxed t () False True ch (lmem s) of
        None \<Rightarrow> None
      | Some (b, _, m) \<Rightarrow> Some (goto t (if b then L_Check else L_Cas) (s\<lparr>lmem := m\<rparr>)))"

definition cas_counter_unlock :: "tid \<Rightarrow> lock_pc \<Rightarrow> spinlock \<Rightarrow> spinlock" where
  "cas_counter_unlock t p s = goto t p (s\<lparr>lmem := a_store Release t () False (lmem s)\<rparr>)"

text \<open>
  One step of \<open>increment_counter(t)\<close>; \<open>N\<close> is \<open>NUM_ROUND_TRIPS\<close>, \<open>now\<close> the steady clock.
\<close>

definition increment_counter :: "nat \<Rightarrow> tid \<Rightarrow> cas_choice \<Rightarrow> int \<Rightarrow> spinlock \<Rightarrow> spinlock option" where
  "increment_counter N t ch now s =
     (case lpc s t of
        L_Loop \<Rightarrow>
          Some (if loop_n s t < N then goto t L_Cas (s\<lparr>start := (start s)(t := now)\<rparr>) else goto t L_Done s)
      | L_Cas \<Rightarrow> cas_counter_lock t ch s
      | L_Check \<Rightarrow>
          (let (v, m) = na_read t Counter (lmem s)
           in Some (goto t (if v = of_nat N then L_Break else L_Take_Read) (s\<lparr>lmem := m\<rparr>)))
      | L_Break \<Rightarrow> Some (cas_counter_unlock t L_Done s)
      | L_Take_Read \<Rightarrow>
          (let (v, m) = na_read t (Acquisitions t) (lmem s)
           in Some (goto t (L_Take_Write v) (s\<lparr>lmem := m\<rparr>)))
      | L_Take_Write v \<Rightarrow>
          Some (goto t L_Inc_Read (s\<lparr>lmem := na_write t (Acquisitions t) (v + 1) (lmem s)\<rparr>))
      | L_Inc_Read \<Rightarrow>
          (let (v, m) = na_read t Counter (lmem s)
           in Some (goto t (L_Inc_Write v) (s\<lparr>lmem := m\<rparr>)))
      | L_Inc_Write v \<Rightarrow>
          Some (goto t L_Unlock (s\<lparr>lmem := na_write t Counter (v + 1) (lmem s)\<rparr>))
      | L_Unlock \<Rightarrow> Some (cas_counter_unlock t L_Sample s)
      | L_Sample \<Rightarrow>
          Some (goto t L_Loop (s\<lparr>samples := (samples s)(t := samples s t @ [now - start s t]),
                                 loop_n := (loop_n s)(t := Suc (loop_n s t))\<rparr>))
      | L_Done \<Rightarrow> None)"

text \<open>\<open>main\<close>, thread \<open>T\<close>, after it has started the threads \<open>0 .. T - 1\<close>.\<close>

definition spinlock_main :: "nat \<Rightarrow> nat \<Rightarrow> spinlock \<Rightarrow> spinlock option" where
  "spinlock_main T N s =
     (case mat s of
        Main_Join i \<Rightarrow>
          if i < T then
            if lpc s i = L_Done
            then Some (s\<lparr>lmem := t_join T i (lmem s), mat := Main_Join (Suc i)\<rparr>) else None
          else Some (s\<lparr>mat := Main_Print 0\<rparr>)
      | Main_Print i \<Rightarrow>
          if i < T then
            (let (v, m) = na_read T (Acquisitions i) (lmem s)
             in Some (s\<lparr>lmem := m, printed_acquisitions := printed_acquisitions s @ [v],
                        mat := Main_Print (Suc i)\<rparr>))
          else Some (s\<lparr>mat := Main_Check\<rparr>)
      | Main_Check \<Rightarrow>
          (let (v, m) = na_read T Counter (lmem s)
           in Some (s\<lparr>lmem := m, mat := Main_Exit (if v = of_nat N then 0 else 1)\<rparr>))
      | Main_Exit c \<Rightarrow> None)"

datatype spinlock_choice = Thread tid cas_choice int | Main

definition spinlock_next :: "nat \<Rightarrow> nat \<Rightarrow> spinlock_choice \<Rightarrow> spinlock \<Rightarrow> spinlock option" where
  "spinlock_next T N c s =
     (case c of
        Thread t ch now \<Rightarrow> if t < T then increment_counter N t ch now s else None
      | Main \<Rightarrow> spinlock_main T N s)"

definition SPIN_ROUND_TRIPS :: nat where "SPIN_ROUND_TRIPS = 10000000"
definition SPIN_THREADS :: nat where "SPIN_THREADS = 4"

text \<open>
  The samples \<open>main\<close> collects after the joins, thread by thread, sorts, and prints the
  percentiles of; the product in double precision is a parameter.
\<close>

definition collected_samples :: "nat \<Rightarrow> spinlock \<Rightarrow> int list" where
  "collected_samples T s = sort (concat (map (samples s) [0 ..< T]))"

definition cas_percentile :: "(rat \<Rightarrow> nat \<Rightarrow> nat) \<Rightarrow> int list \<Rightarrow> rat \<Rightarrow> int option" where
  "cas_percentile mul xs p =
     (if p = 1 then vector_at xs (length xs - 1)
      else (let idx = mul p (length xs) in vector_at xs idx))"

definition spinlock_report :: "(rat \<Rightarrow> nat \<Rightarrow> nat) \<Rightarrow> nat \<Rightarrow> spinlock \<Rightarrow> int option list" where
  "spinlock_report mul T s =
     map (cas_percentile mul (collected_samples T s))
       [1 / 1000, 1 / 100, 25 / 100, 50 / 100, 75 / 100, 99 / 100, 999 / 1000]"

section \<open>The invariant\<close>

text \<open>Between the successful compare-exchange and the unlock.\<close>

definition in_section :: "lock_pc \<Rightarrow> bool" where
  "in_section p \<longleftrightarrow>
     (case p of L_Loop \<Rightarrow> False | L_Cas \<Rightarrow> False | L_Sample \<Rightarrow> False | L_Done \<Rightarrow> False | _ \<Rightarrow> True)"

text \<open>Increments of the counter and of the own acquisitions that a thread has made.\<close>

definition increments :: "spinlock \<Rightarrow> tid \<Rightarrow> nat" where
  "increments s t = loop_n s t + (case lpc s t of L_Unlock \<Rightarrow> 1 | L_Sample \<Rightarrow> 1 | _ \<Rightarrow> 0)"

definition takes :: "spinlock \<Rightarrow> tid \<Rightarrow> nat" where
  "takes s t =
     loop_n s t + (case lpc s t of L_Inc_Read \<Rightarrow> 1 | L_Inc_Write v \<Rightarrow> 1 | L_Unlock \<Rightarrow> 1 | L_Sample \<Rightarrow> 1 | _ \<Rightarrow> 0)"

definition total :: "nat \<Rightarrow> spinlock \<Rightarrow> nat" where
  "total T s = (\<Sum>t<T. increments s t)"

text \<open>
  The lock: either it is free, and its last message knows every access made so far, or one
  thread holds it, is the only one in its critical section, and itself knows every access.
\<close>

definition lock_inv :: "nat \<Rightarrow> tid option \<Rightarrow> spinlock \<Rightarrow> bool" where
  "lock_inv T h s \<longleftrightarrow>
     mem_ok (lmem s) \<and>
     (case h of
        None \<Rightarrow> \<not> mval (last (hist (lmem s) ())) \<and> (\<forall>t<T. \<not> in_section (lpc s t)) \<and>
                knows (lmem s) (mview (last (hist (lmem s) ())))
      | Some t \<Rightarrow> mval (last (hist (lmem s) ())) \<and> t < T \<and> in_section (lpc s t) \<and>
                (\<forall>u<T. in_section (lpc s u) \<longrightarrow> u = t) \<and> knows (lmem s) (tview (lmem s) t))"

definition data_inv :: "nat \<Rightarrow> nat \<Rightarrow> spinlock \<Rightarrow> bool" where
  "data_inv T N s \<longleftrightarrow>
     \<not> race (lmem s) \<and> made_by {..T} (lmem s) \<and>
     cell (lmem s) Counter = of_nat (total T s) \<and> total T s \<le> N \<and>
     (\<forall>t<T. cell (lmem s) (Acquisitions t) = of_nat (takes s t))"

definition thread_inv :: "nat \<Rightarrow> nat \<Rightarrow> spinlock \<Rightarrow> tid \<Rightarrow> bool" where
  "thread_inv T N s t \<longleftrightarrow>
     length (samples s t) = loop_n s t \<and> loop_n s t \<le> N \<and>
     (case lpc s t of
        L_Loop \<Rightarrow> True
      | L_Break \<Rightarrow> total T s = N
      | L_Done \<Rightarrow> total T s = N
      | L_Take_Read \<Rightarrow> total T s < N
      | L_Take_Write v \<Rightarrow> total T s < N \<and> v = of_nat (takes s t)
      | L_Inc_Read \<Rightarrow> total T s < N
      | L_Inc_Write v \<Rightarrow> total T s < N \<and> v = of_nat (total T s)
      | _ \<Rightarrow> loop_n s t < N)"

definition main_at_inv :: "nat \<Rightarrow> nat \<Rightarrow> spinlock \<Rightarrow> bool" where
  "main_at_inv T N s \<longleftrightarrow>
     (case mat s of
        Main_Join i \<Rightarrow> i \<le> T \<and> printed_acquisitions s = [] \<and> (\<exists>h. lock_inv T h s) \<and>
          (\<forall>j<i. lpc s j = L_Done \<and> clock (tview (lmem s) j) j \<le> clock (tview (lmem s) T) j)
      | Main_Print i \<Rightarrow> i \<le> T \<and> (\<forall>j<T. lpc s j = L_Done) \<and> knows (lmem s) (tview (lmem s) T) \<and>
          printed_acquisitions s = map (\<lambda>t. of_nat (loop_n s t)) [0 ..< i]
      | Main_Check \<Rightarrow> (\<forall>j<T. lpc s j = L_Done) \<and> knows (lmem s) (tview (lmem s) T) \<and>
          printed_acquisitions s = map (\<lambda>t. of_nat (loop_n s t)) [0 ..< T]
      | Main_Exit c \<Rightarrow> (\<forall>j<T. lpc s j = L_Done) \<and> c = 0 \<and>
          printed_acquisitions s = map (\<lambda>t. of_nat (loop_n s t)) [0 ..< T])"

definition spinlock_inv :: "nat \<Rightarrow> nat \<Rightarrow> spinlock \<Rightarrow> bool" where
  "spinlock_inv T N s \<longleftrightarrow> data_inv T N s \<and> (\<forall>t<T. thread_inv T N s t) \<and> main_at_inv T N s"

lemma spinlock_inv_init: "spinlock_inv T N spinlock_init"
proof -
  have "lock_inv T None spinlock_init"
    by (simp add: lock_inv_def spinlock_init_def mem_ok_init in_section_def knows_init)
  then show ?thesis
    by (auto simp: spinlock_inv_def data_inv_def thread_inv_def main_at_inv_def spinlock_init_def
        total_def increments_def takes_def made_by_init)
qed

section \<open>The threads keep the invariant\<close>

lemma goto_simps [simp]:
  "lmem (goto t p s) = lmem s" "lpc (goto t p s) u = (if u = t then p else lpc s u)"
  "loop_n (goto t p s) = loop_n s" "samples (goto t p s) = samples s" "start (goto t p s) = start s"
  "mat (goto t p s) = mat s" "printed_acquisitions (goto t p s) = printed_acquisitions s"
  by (simp_all add: goto_def)

lemma increments_le_total: "t < T \<Longrightarrow> increments s t \<le> total T s"
  unfolding total_def by (rule member_le_sum) auto

lemma total_same:
  assumes "\<And>u. u \<noteq> t \<Longrightarrow> lpc s' u = lpc s u \<and> loop_n s' u = loop_n s u" and "increments s' t = increments s t"
  shows "total T s' = total T s"
  unfolding total_def
proof (rule sum_keep)
  fix u show "increments s' u = increments s u"
    using assms by (cases "u = t") (simp_all add: increments_def)
qed

lemma total_Suc:
  assumes "\<And>u. u \<noteq> t \<Longrightarrow> lpc s' u = lpc s u \<and> loop_n s' u = loop_n s u"
    and "increments s' t = Suc (increments s t)" and "t < T"
  shows "total T s' = Suc (total T s)"
  unfolding total_def
  using assms by (intro sum_bump [where t = t]) (simp_all add: increments_def)

lemma holder:
  "lock_inv T h s \<Longrightarrow> t < T \<Longrightarrow> in_section (lpc s t) \<Longrightarrow> h = Some t"
  by (auto simp: lock_inv_def split: option.splits)

text \<open>What is left to show of a step of thread \<open>t\<close>: the rest is unchanged.\<close>

lemma thread_stepI:
  assumes inv: "spinlock_inv T N s" and "t < T" and "lpc s t \<noteq> L_Done"
    and frame: "\<And>u. u \<noteq> t \<Longrightarrow> lpc s' u = lpc s u \<and> loop_n s' u = loop_n s u \<and> samples s' u = samples s u \<and>
                  tview (lmem s') u = tview (lmem s) u"
    and same: "mat s' = mat s" "printed_acquisitions s' = printed_acquisitions s"
    and lock: "lock_inv T h s'" and data: "data_inv T N s'" and own: "thread_inv T N s' t"
    and total: "total T s' = total T s \<or>
                total T s' = Suc (total T s) \<and> total T s < N \<and> (\<forall>u<T. u \<noteq> t \<longrightarrow> \<not> in_section (lpc s u))"
  shows "spinlock_inv T N s'"
proof -
  note i = inv [unfolded spinlock_inv_def]
  obtain k where k: "mat s = Main_Join k"
    using i \<open>t < T\<close> \<open>lpc s t \<noteq> L_Done\<close> by (cases "mat s") (auto simp: main_at_inv_def)
  have kt: "t \<notin> {..<k}" "k \<le> T" "printed_acquisitions s = []"
    using i k \<open>lpc s t \<noteq> L_Done\<close> by (auto simp: main_at_inv_def)
  have "thread_inv T N s' u" if "u < T" for u
  proof (cases "u = t")
    case False
    then have f: "lpc s' u = lpc s u" "loop_n s' u = loop_n s u" "samples s' u = samples s u"
      "takes s' u = takes s u"
      using frame [of u] by (simp_all add: takes_def)
    have "thread_inv T N s u" using i that by blast
    with total False that show ?thesis
      by (auto simp: thread_inv_def f in_section_def split: lock_pc.splits)
  qed (use own in simp)
  moreover have "main_at_inv T N s'"
    using i k kt frame same lock \<open>t < T\<close> by (fastforce simp: main_at_inv_def)
  ultimately show ?thesis using data by (simp add: spinlock_inv_def)
qed

text \<open>A plain access by the thread that holds the lock.\<close>

lemma holder_access:
  assumes lock: "lock_inv T (Some t) s" and sec: "in_section p" and s': "s' = goto t p (s\<lparr>lmem := m\<rparr>)"
    and m: "m = snd (na_read t x (lmem s)) \<or> m = na_write t x v (lmem s)"
    and made: "made_by {..T} (lmem s)"
  shows "lock_inv T (Some t) s'" "made_by {..T} (lmem s')" "race (lmem s') = race (lmem s)"
    "hist (lmem s') = hist (lmem s)" "u \<noteq> t \<Longrightarrow> tview (lmem s') u = tview (lmem s) u"
proof -
  note l = lock [unfolded lock_inv_def, simplified]
  have t: "t \<in> {..T}" "knows (lmem s) (tview (lmem s) t)" using l by auto
  have "tview m t = tick t (tview (lmem s) t)" using m by auto
  moreover have "accesses m \<subseteq> insert (t, Suc (clock (tview (lmem s) t) t)) (accesses (lmem s))"
    using m accesses_na_read [of t x "lmem s"] accesses_na_write [of t x v "lmem s"] by blast
  then have "knows m (tick t (tview (lmem s) t))" by (rule knows_tick [OF t(2)])
  ultimately have "knows m (tview m t)" by simp
  moreover have "mem_ok m"
    using m l na_read_ok [of "lmem s" t x] na_write_ok [of "lmem s" t x v] by blast
  moreover show h: "hist (lmem s') = hist (lmem s)" using m by (auto simp: s')
  ultimately show "lock_inv T (Some t) s'"
    using l sec h by (simp add: lock_inv_def s')
  show "made_by {..T} (lmem s')"
    using m made_by_na_read [OF made t(1), of x] made_by_na_write [OF made t(1), of x v] by (auto simp: s')
  show "race (lmem s') = race (lmem s)"
    using m knows_no_race [OF t(2)] by (auto simp: s')
  show "u \<noteq> t \<Longrightarrow> tview (lmem s') u = tview (lmem s) u" using m by (auto simp: s')
qed

lemma thread_facts:
  assumes "spinlock_inv T N s" and "t < T" and "lpc s t \<noteq> L_Done"
  obtains h where "lock_inv T h s" "data_inv T N s" "thread_inv T N s t"
    "in_section (lpc s t) \<Longrightarrow> h = Some t"
proof -
  have "\<exists>h. lock_inv T h s"
    using assms by (cases "mat s") (auto simp: spinlock_inv_def main_at_inv_def)
  then obtain h where "lock_inv T h s" ..
  with that holder assms show thesis by (simp add: spinlock_inv_def)
qed

lemma data_inv_frame:
  assumes "data_inv T N s" and "total T s' = total T s" "\<And>u. takes s' u = takes s u"
    and "cell (lmem s') = cell (lmem s)" "race (lmem s') = race (lmem s)" "made_by {..T} (lmem s')"
  shows "data_inv T N s'"
  using assms by (simp add: data_inv_def)

text \<open>Outside the section and without touching the memory: the loop head and the sample.\<close>

lemma local_step_inv:
  assumes inv: "spinlock_inv T N s" and t: "t < T" and pc: "lpc s t \<in> {L_Loop, L_Sample}"
    and step: "increment_counter N t ch now s = Some s'"
  shows "spinlock_inv T N s'"
proof -
  obtain h where f: "lock_inv T h s" "data_inv T N s" "thread_inv T N s t"
    using thread_facts [OF inv t] pc by fastforce
  have same: "lmem s' = lmem s" "mat s' = mat s" "printed_acquisitions s' = printed_acquisitions s"
    "\<And>u. u \<noteq> t \<Longrightarrow> lpc s' u = lpc s u \<and> loop_n s' u = loop_n s u \<and> samples s' u = samples s u"
    "increments s' t = increments s t" "takes s' t = takes s t"
    "in_section (lpc s t) = False" "in_section (lpc s' t) = False"
    using step pc by (auto simp: increment_counter_def increments_def takes_def in_section_def split: if_splits)
  have total: "total T s' = total T s" by (rule total_same) (use same in auto)
  have takes: "takes s' u = takes s u" for u
    using same(4,6) by (cases "u = t") (simp_all add: takes_def)
  have "in_section (lpc s' u) = in_section (lpc s u)" for u
    using same by (cases "u = t") auto
  then have "lock_inv T h s'" using f(1) by (cases h) (simp_all add: lock_inv_def same(1))
  moreover have "data_inv T N s'"
    by (rule data_inv_frame [OF f(2) total takes]) (use f(2) in \<open>simp_all add: same(1) data_inv_def\<close>)
  moreover have "thread_inv T N s' t"
  proof (cases "lpc s t = L_Loop \<and> \<not> loop_n s t < N")
    case True
    then have "N \<le> total T s" using increments_le_total [OF t, of s] f(3) by (simp add: increments_def)
    then have "total T s' = N" using f(2) total by (simp add: data_inv_def)
    then show ?thesis using f(3) step True by (auto simp: thread_inv_def increment_counter_def)
  next
    case False
    then show ?thesis using f(3) step pc by (auto simp: thread_inv_def increment_counter_def)
  qed
  ultimately show ?thesis
    by (intro thread_stepI [OF inv t _ _ same(2,3)]) (use pc same total in auto)
qed

lemma unlock_step_inv:
  assumes inv: "spinlock_inv T N s" and t: "t < T" and pc: "lpc s t \<in> {L_Break, L_Unlock}"
    and step: "increment_counter N t ch now s = Some s'"
  shows "spinlock_inv T N s'"
proof -
  have sec: "in_section (lpc s t)" using pc by (auto simp: in_section_def)
  have nd: "lpc s t \<noteq> L_Done" using pc by auto
  obtain f: "lock_inv T (Some t) s" "data_inv T N s" "thread_inv T N s t"
    using thread_facts [OF inv t nd] sec by metis
  note l = f(1) [unfolded lock_inv_def, simplified]
  obtain p where s': "s' = cas_counter_unlock t p s" and p: "p = (if lpc s t = L_Break then L_Done else L_Sample)"
    using step pc by (auto simp: increment_counter_def)
  have same: "mat s' = mat s" "printed_acquisitions s' = printed_acquisitions s"
    "\<And>u. u \<noteq> t \<Longrightarrow> lpc s' u = lpc s u \<and> loop_n s' u = loop_n s u \<and> samples s' u = samples s u \<and>
       tview (lmem s') u = tview (lmem s) u"
    "increments s' t = increments s t" "takes s' t = takes s t" "\<not> in_section (lpc s' t)"
    using pc by (auto simp: s' p cas_counter_unlock_def increments_def takes_def in_section_def)
  have total: "total T s' = total T s" by (rule total_same) (use same in auto)
  have takes: "takes s' u = takes s u" for u
    using same(3,5) by (cases "u = t") (simp_all add: takes_def)
  have acc: "accesses (lmem s') = accesses (lmem s)"
    by (rule accesses_same) (simp_all add: s' cas_counter_unlock_def)
  have "knows (lmem s') (see () n (tview (lmem s) t))" for n
    using l unfolding knows_def acc by (auto simp: ordered_def)
  moreover have "last (hist (lmem s') ()) =
      \<lparr>mval = False, mview = see () (length (hist (lmem s) ())) (tview (lmem s) t)\<rparr>" "mem_ok (lmem s')"
    using l by (simp_all add: s' cas_counter_unlock_def a_store_ok)
  moreover have "\<forall>u<T. \<not> in_section (lpc s' u)"
  proof (intro allI impI)
    fix u assume "u < T"
    then show "\<not> in_section (lpc s' u)" using l same(3) [of u] same(6) by (cases "u = t") auto
  qed
  ultimately have "lock_inv T None s'" by (simp add: lock_inv_def)
  moreover have "data_inv T N s'"
  proof (rule data_inv_frame [OF f(2) total takes])
    show "made_by {..T} (lmem s')"
    proof (rule made_by_extends)
      show "made_by {..T} (lmem s)" using f(2) by (simp add: data_inv_def)
      show "accesses (lmem s') \<subseteq> accesses (lmem s)" by (simp add: acc)
    qed (simp add: s' cas_counter_unlock_def)
  qed (simp_all add: s' cas_counter_unlock_def)
  moreover have "thread_inv T N s' t"
    using f(3) pc total by (auto simp: thread_inv_def s' p cas_counter_unlock_def)
  ultimately show ?thesis
    by (intro thread_stepI [OF inv t nd _ same(1,2)]) (use same total in auto)
qed

lemma lock_step_inv:
  assumes inv: "spinlock_inv T N s" and t: "t < T" and pc: "lpc s t = L_Cas"
    and step: "increment_counter N t ch now s = Some s'"
  shows "spinlock_inv T N s'"
proof -
  have nd: "lpc s t \<noteq> L_Done" "\<not> in_section (lpc s t)" using pc by (simp_all add: in_section_def)
  obtain h where f: "lock_inv T h s" "data_inv T N s" "thread_inv T N s t"
    using thread_facts [OF inv t nd(1)] by metis
  note l = f(1) [unfolded lock_inv_def]
  then have ok: "mem_ok (lmem s)" by blast
  obtain b v m where cas: "a_cas True Acquire Relaxed t () False True ch (lmem s) = Some (b, v, m)"
    and s': "s' = goto t (if b then L_Check else L_Cas) (s\<lparr>lmem := m\<rparr>)"
    using step pc by (auto simp: increment_counter_def cas_counter_lock_def split: option.splits)
  note mem = cas_view [OF ok cas]
  have acc: "accesses m = accesses (lmem s)" by (rule accesses_same) (simp_all add: mem)
  have same: "mat s' = mat s" "printed_acquisitions s' = printed_acquisitions s" "lmem s' = m"
    "\<And>u. u \<noteq> t \<Longrightarrow> lpc s' u = lpc s u \<and> loop_n s' u = loop_n s u \<and> samples s' u = samples s u"
    "increments s' t = increments s t" "takes s' t = takes s t"
    using pc by (auto simp: s' increments_def takes_def)
  have total: "total T s' = total T s" by (rule total_same) (use same in auto)
  have takes: "takes s' u = takes s u" for u
    using same(4,6) by (cases "u = t") (simp_all add: takes_def)
  from cas have "\<exists>h'. lock_inv T h' s'"
  proof (cases rule: a_cas_cases)
    case succeed
    then have free: "\<forall>u<T. \<not> in_section (lpc s u)" "knows (lmem s) (mview (last (hist (lmem s) ())))"
      using l by (cases h; simp)+
    have "knows (lmem s) (tview m t)"
      by (rule knows_mono [OF free(2)]) (simp add: succeed)
    moreover have "mval (last (hist m ()))" by (simp add: succeed)
    ultimately have "lock_inv T (Some t) s'"
      using t free(1) mem(7) acc succeed(1) by (simp add: lock_inv_def s' knows_def in_section_def)
    then show ?thesis ..
  next
    case (fail k)
    have hist: "hist m = hist (lmem s)" using load_view(1) [OF ok fail(2)] .
    have sec: "in_section (lpc s' u) = in_section (lpc s u)" for u
      using fail(1) pc by (simp add: s')
    have "h \<noteq> Some t" using l nd(2) by (cases h) auto
    then have "h = Some u \<Longrightarrow> tview m u = tview (lmem s) u" for u using mem(5) by blast
    then have "lock_inv T h s'"
      using l mem(7) acc by (cases h) (simp_all add: lock_inv_def same(3) knows_def sec hist)
    then show ?thesis ..
  qed
  then obtain h' where "lock_inv T h' s'" ..
  moreover have "data_inv T N s'"
  proof (rule data_inv_frame [OF f(2) total takes])
    show "made_by {..T} (lmem s')"
      by (rule made_by_extends [of _ "lmem s"]) (use f(2) mem(6) acc in \<open>simp_all add: same(3) data_inv_def\<close>)
  qed (simp_all add: same(3) mem(1,4))
  moreover have "thread_inv T N s' t"
    using f(3) pc total by (auto simp: thread_inv_def s')
  ultimately show ?thesis
    by (intro thread_stepI [OF inv t nd(1) _ same(1,2)]) (use same mem(5) total in auto)
qed

text \<open>The accesses of the critical section, each by the holder.\<close>

lemma section_step_inv:
  assumes inv: "spinlock_inv T N s" and t: "t < T"
    and sec: "in_section (lpc s t)" "in_section p"
    and s': "s' = goto t p (s\<lparr>lmem := m\<rparr>)"
    and m: "m = snd (na_read t x (lmem s)) \<or> m = na_write t x v (lmem s)"
    and cell: "cell m Counter = of_nat (total T s')" "\<And>u. u < T \<Longrightarrow> cell m (Acquisitions u) = of_nat (takes s' u)"
    and own: "thread_inv T N s' t"
    and total: "total T s' = total T s \<or> total T s' = Suc (total T s) \<and> total T s < N"
  shows "spinlock_inv T N s'"
proof -
  have nd: "lpc s t \<noteq> L_Done" using sec by (auto simp: in_section_def)
  obtain f: "lock_inv T (Some t) s" "data_inv T N s"
    using thread_facts [OF inv t nd] sec by metis
  have made: "made_by {..T} (lmem s)" using f(2) by (simp add: data_inv_def)
  note a = holder_access [OF f(1) sec(2) s' m made]
  have only: "\<forall>u<T. u \<noteq> t \<longrightarrow> \<not> in_section (lpc s u)"
    using f(1) by (auto simp: lock_inv_def)
  have "total T s' \<le> N" using total f(2) by (auto simp: data_inv_def)
  then have "data_inv T N s'"
    using a(2,3) cell f(2) by (simp add: data_inv_def s')
  then show ?thesis
    by (intro thread_stepI [OF inv t nd _ _ _ a(1) _ own]) (use a(5) total only in \<open>auto simp: s'\<close>)
qed

lemma section_inv:
  assumes inv: "spinlock_inv T N s" and t: "t < T" and N: "N < 2 ^ 63"
    and pc: "in_section (lpc s t)" "lpc s t \<notin> {L_Break, L_Unlock}"
    and step: "increment_counter N t ch now s = Some s'"
  shows "spinlock_inv T N s'"
proof -
  have nd: "lpc s t \<noteq> L_Done" using pc by (auto simp: in_section_def)
  obtain f: "data_inv T N s" "thread_inv T N s t"
    using thread_facts [OF inv t nd] by metis
  have counter: "cell (lmem s) Counter = of_nat (total T s)" "total T s \<le> N"
    and acq: "\<And>u. u < T \<Longrightarrow> cell (lmem s) (Acquisitions u) = of_nat (takes s u)"
    using f(1) by (simp_all add: data_inv_def)
  have loop: "loop_n s t \<le> total T s"
    using increments_le_total [OF t, of s] by (simp add: increments_def)
  note own = f(2) [unfolded thread_inv_def]
  have total_goto: "total T (goto t p (s\<lparr>lmem := m\<rparr>)) = total T s"
    if "p \<notin> {L_Unlock, L_Sample}" "lpc s t \<notin> {L_Unlock, L_Sample}" for p m
    by (rule total_same) (use that in \<open>auto simp: increments_def split: lock_pc.splits\<close>)
  have takes_goto: "takes (goto t p (s\<lparr>lmem := m\<rparr>)) u = takes s u" if "u \<noteq> t" for p m u
    using that by (simp add: takes_def)
  show ?thesis
  proof (cases "lpc s t")
    case L_Check
    let ?p = "if cell (lmem s) Counter = of_nat N then L_Break else L_Take_Read"
    let ?m = "snd (na_read t Counter (lmem s))"
    have s': "s' = goto t ?p (s\<lparr>lmem := ?m\<rparr>)"
      using step L_Check by (auto simp: increment_counter_def split_beta)
    have iff: "cell (lmem s) Counter = of_nat N \<longleftrightarrow> total T s = N"
      unfolding counter(1) by (rule of_nat_u64_eq_iff) (use counter(2) N in simp_all)
    have tot: "total T s' = total T s" unfolding s' by (rule total_goto) (use L_Check in auto)
    have tk: "takes s' u = takes s u" for u
      using takes_goto by (cases "u = t") (auto simp: s' takes_def L_Check)
    show ?thesis
    proof (rule section_step_inv [OF inv t pc(1) _ s' disjI1 [OF refl]])
      show "thread_inv T N s' t"
        using own tot iff counter(2) by (auto simp: thread_inv_def s' L_Check)
    qed (use counter acq tot tk in \<open>auto simp: in_section_def\<close>)
  next
    case L_Take_Read
    let ?m = "snd (na_read t (Acquisitions t) (lmem s))"
    have s': "s' = goto t (L_Take_Write (cell (lmem s) (Acquisitions t))) (s\<lparr>lmem := ?m\<rparr>)"
      using step L_Take_Read by (auto simp: increment_counter_def split_beta)
    have tot: "total T s' = total T s" unfolding s' by (rule total_goto) (use L_Take_Read in auto)
    have tk: "takes s' u = takes s u" for u
      using takes_goto by (cases "u = t") (auto simp: s' takes_def L_Take_Read)
    show ?thesis
    proof (rule section_step_inv [OF inv t pc(1) _ s' disjI1 [OF refl]])
      show "thread_inv T N s' t"
        using own tot tk [of t] acq [OF t] L_Take_Read by (auto simp: thread_inv_def s')
    qed (use counter acq tot tk in \<open>auto simp: in_section_def\<close>)
  next
    case (L_Take_Write v)
    let ?m = "na_write t (Acquisitions t) (v + 1) (lmem s)"
    have s': "s' = goto t L_Inc_Read (s\<lparr>lmem := ?m\<rparr>)"
      using step L_Take_Write by (auto simp: increment_counter_def)
    have tot: "total T s' = total T s" unfolding s' by (rule total_goto) (use L_Take_Write in auto)
    have tk: "takes s' t = Suc (takes s t)" "\<And>u. u \<noteq> t \<Longrightarrow> takes s' u = takes s u"
      using L_Take_Write takes_goto by (auto simp: s' takes_def)
    show ?thesis
    proof (rule section_step_inv [OF inv t pc(1) _ s' disjI2 [OF refl]])
      show "thread_inv T N s' t"
        using own tot L_Take_Write by (auto simp: thread_inv_def s')
      show "cell ?m (Acquisitions u) = of_nat (takes s' u)" if "u < T" for u
        using acq [OF that] tk own L_Take_Write by (cases "u = t") auto
    qed (use counter tot in \<open>auto simp: in_section_def\<close>)
  next
    case L_Inc_Read
    let ?m = "snd (na_read t Counter (lmem s))"
    have s': "s' = goto t (L_Inc_Write (cell (lmem s) Counter)) (s\<lparr>lmem := ?m\<rparr>)"
      using step L_Inc_Read by (auto simp: increment_counter_def split_beta)
    have tot: "total T s' = total T s" unfolding s' by (rule total_goto) (use L_Inc_Read in auto)
    have tk: "takes s' u = takes s u" for u
      using takes_goto by (cases "u = t") (auto simp: s' takes_def L_Inc_Read)
    show ?thesis
    proof (rule section_step_inv [OF inv t pc(1) _ s' disjI1 [OF refl]])
      show "thread_inv T N s' t"
        using own tot counter L_Inc_Read by (auto simp: thread_inv_def s')
    qed (use counter acq tot tk in \<open>auto simp: in_section_def\<close>)
  next
    case (L_Inc_Write v)
    let ?m = "na_write t Counter (v + 1) (lmem s)"
    have s': "s' = goto t L_Unlock (s\<lparr>lmem := ?m\<rparr>)"
      using step L_Inc_Write by (auto simp: increment_counter_def)
    have tot: "total T s' = Suc (total T s)" unfolding s'
      by (rule total_Suc) (use L_Inc_Write t in \<open>auto simp: increments_def\<close>)
    have tk: "takes s' u = takes s u" for u
      using takes_goto by (cases "u = t") (auto simp: s' takes_def L_Inc_Write)
    have lt: "total T s < N" "v = of_nat (total T s)" using own L_Inc_Write by auto
    show ?thesis
    proof (rule section_step_inv [OF inv t pc(1) _ s' disjI2 [OF refl]])
      show "thread_inv T N s' t"
        using own lt loop L_Inc_Write by (auto simp: thread_inv_def s')
    qed (use acq tot tk lt in \<open>auto simp: in_section_def\<close>)
  qed (use pc in \<open>auto simp: in_section_def\<close>)
qed

lemma thread_step_inv:
  assumes "spinlock_inv T N s" and "t < T" and "N < 2 ^ 63" and "increment_counter N t ch now s = Some s'"
  shows "spinlock_inv T N s'"
proof -
  have "lpc s t \<noteq> L_Done" using assms(4) by (auto simp: increment_counter_def)
  then consider "lpc s t \<in> {L_Loop, L_Sample}" | "lpc s t \<in> {L_Break, L_Unlock}" | "lpc s t = L_Cas"
    | "in_section (lpc s t)" "lpc s t \<notin> {L_Break, L_Unlock}"
    by (cases "lpc s t") (auto simp: in_section_def)
  then show ?thesis
    by cases (blast intro: local_step_inv [OF assms(1,2) _ assms(4)] unlock_step_inv [OF assms(1,2) _ assms(4)]
        lock_step_inv [OF assms(1,2) _ assms(4)] section_inv [OF assms(1,2,3) _ _ assms(4)])+
qed

section \<open>main keeps the invariant\<close>

lemma spinlock_main_inv:
  assumes inv: "spinlock_inv T N s" and "0 < T" and step: "spinlock_main T N s = Some s'"
  shows "spinlock_inv T N s'"
proof -
  note i = inv [unfolded spinlock_inv_def data_inv_def]
  have sums: "total T s' = total T s" "\<And>u. takes s' u = takes s u" if "lpc s' = lpc s" "loop_n s' = loop_n s"
    using that by (simp_all add: total_def increments_def takes_def)
  have keep: "spinlock_inv T N s'"
    if "lpc s' = lpc s" "loop_n s' = loop_n s" "samples s' = samples s" "race (lmem s') = race (lmem s)"
      "made_by {..T} (lmem s')" "cell (lmem s') = cell (lmem s)" "main_at_inv T N s'"
  proof -
    have "thread_inv T N s' t = thread_inv T N s t" for t
      unfolding thread_inv_def that(1-3) sums [OF that(1,2)] by (rule refl)
    then show ?thesis using i that sums [OF that(1,2)] by (simp add: spinlock_inv_def data_inv_def)
  qed
  have made: "made_by {..T} (lmem s)" using i by simp
  show ?thesis
  proof (cases "mat s")
    case (Main_Join k)
    then obtain h where h: "lock_inv T h s" and k: "k \<le> T" "printed_acquisitions s = []"
      and joined: "\<forall>j<k. lpc s j = L_Done \<and> clock (tview (lmem s) j) j \<le> clock (tview (lmem s) T) j"
      using i by (auto simp: main_at_inv_def)
    show ?thesis
    proof (cases "k < T")
      case True
      then have s': "s' = s\<lparr>lmem := t_join T k (lmem s), mat := Main_Join (Suc k)\<rparr>" and d: "lpc s k = L_Done"
        using step Main_Join by (auto simp: spinlock_main_def split: if_splits)
      have acc: "accesses (lmem s') = accesses (lmem s)" by (rule accesses_same) (simp_all add: s')
      have "lock_inv T h s'"
        using h unfolding lock_inv_def knows_def acc by (cases h) (auto simp: s' t_join_ok)
      moreover have "made_by {..T} (lmem s')"
        by (rule made_by_extends [OF made]) (simp_all add: acc, simp add: s')
      ultimately show ?thesis
        using True joined d k(2) by (intro keep) (auto simp: s' main_at_inv_def less_Suc_eq le_max_iff_disj)
    next
      case False
      then have s': "s' = s\<lparr>mat := Main_Print 0\<rparr>" and kT: "k = T"
        using step Main_Join k by (auto simp: spinlock_main_def)
      have "knows (lmem s) (tview (lmem s) T)"
        by (rule made_by_knows [OF made]) (use joined kT in \<open>auto simp: le_less\<close>)
      then show ?thesis
        using joined kT k(2) made by (intro keep) (auto simp: s' main_at_inv_def)
    qed
  next
    case (Main_Print k)
    then have p: "k \<le> T" "\<forall>j<T. lpc s j = L_Done" "knows (lmem s) (tview (lmem s) T)"
      "printed_acquisitions s = map (\<lambda>t. of_nat (loop_n s t)) [0 ..< k]"
      using i by (auto simp: main_at_inv_def)
    show ?thesis
    proof (cases "k < T")
      case True
      then have "cell (lmem s) (Acquisitions k) = of_nat (loop_n s k)"
        using i p(2) by (simp add: takes_def)
      with True have s': "s' = s\<lparr>lmem := snd (na_read T (Acquisitions k) (lmem s)),
          printed_acquisitions := printed_acquisitions s @ [of_nat (loop_n s k)], mat := Main_Print (Suc k)\<rparr>"
        using step Main_Print by (simp add: spinlock_main_def split_beta)
      have "knows (lmem s') (tview (lmem s') T)"
        using knows_na_read [OF p(3)] by (simp add: s')
      then show ?thesis
        using True p made_by_na_read [OF made, of T] knows_no_race [OF p(3)]
        by (intro keep) (simp_all add: s' main_at_inv_def)
    next
      case False
      then have "s' = s\<lparr>mat := Main_Check\<rparr>" "k = T"
        using step Main_Print p(1) by (auto simp: spinlock_main_def)
      then show ?thesis using p made by (intro keep) (simp_all add: main_at_inv_def)
    qed
  next
    case Main_Check
    then have p: "\<forall>j<T. lpc s j = L_Done" "knows (lmem s) (tview (lmem s) T)"
      "printed_acquisitions s = map (\<lambda>t. of_nat (loop_n s t)) [0 ..< T]"
      using i by (auto simp: main_at_inv_def)
    have "thread_inv T N s 0" using i \<open>0 < T\<close> by blast
    then have "total T s = N" using p(1) \<open>0 < T\<close> by (simp add: thread_inv_def)
    then have s': "s' = s\<lparr>lmem := snd (na_read T Counter (lmem s)), mat := Main_Exit 0\<rparr>"
      using step Main_Check i by (simp add: spinlock_main_def split_beta)
    show ?thesis
      using p made_by_na_read [OF made, of T] knows_no_race [OF p(2)]
      by (intro keep) (simp_all add: s' main_at_inv_def)
  qed (use step in \<open>simp add: spinlock_main_def\<close>)
qed

lemma spinlock_next_inv:
  "spinlock_inv T N s \<Longrightarrow> 0 < T \<Longrightarrow> N < 2 ^ 63 \<Longrightarrow> spinlock_next T N c s = Some s' \<Longrightarrow> spinlock_inv T N s'"
  by (cases c) (auto simp: spinlock_next_def intro: thread_step_inv spinlock_main_inv split: if_splits)

interpretation spinlock_machine: machine "spinlock_next T N" spinlock_init
    "\<lambda>s. 0 < T \<longrightarrow> N < 2 ^ 63 \<longrightarrow> spinlock_inv T N s" for T N
  by unfold_locales (blast intro: spinlock_inv_init spinlock_next_inv)+

section \<open>Every execution can be finished\<close>

definition pc_left :: "lock_pc \<Rightarrow> nat" where
  "pc_left p =
     (case p of
        L_Loop \<Rightarrow> 11 | L_Cas \<Rightarrow> 10 | L_Check \<Rightarrow> 9 | L_Break \<Rightarrow> 8 | L_Take_Read \<Rightarrow> 7 | L_Take_Write v \<Rightarrow> 6
      | L_Inc_Read \<Rightarrow> 5 | L_Inc_Write v \<Rightarrow> 4 | L_Unlock \<Rightarrow> 3 | L_Sample \<Rightarrow> 2 | L_Done \<Rightarrow> 0)"

definition thread_left :: "nat \<Rightarrow> spinlock \<Rightarrow> tid \<Rightarrow> nat" where
  "thread_left N s t = 12 * (N - loop_n s t) + pc_left (lpc s t)"

definition main_left :: "nat \<Rightarrow> main_at \<Rightarrow> nat" where
  "main_left T p =
     (case p of Main_Join i \<Rightarrow> 2 * T + 4 - i | Main_Print i \<Rightarrow> T + 2 - i | Main_Check \<Rightarrow> 1 | Main_Exit c \<Rightarrow> 0)"

definition spin_left :: "nat \<Rightarrow> nat \<Rightarrow> spinlock \<Rightarrow> nat" where
  "spin_left T N s = (\<Sum>t<T. thread_left N s t) + main_left T (mat s)"

lemma spin_left_thread:
  assumes "t < T" and "\<And>u. u \<noteq> t \<Longrightarrow> lpc s' u = lpc s u \<and> loop_n s' u = loop_n s u" and "mat s' = mat s"
    and "thread_left N s' t < thread_left N s t"
  shows "spin_left T N s' < spin_left T N s"
proof -
  have "thread_left N s' u \<le> thread_left N s u" for u
    using assms(2) [of u] assms(4) by (cases "u = t") (simp_all add: thread_left_def)
  then have "(\<Sum>t<T. thread_left N s' t) < (\<Sum>t<T. thread_left N s t)"
    using assms(1,4) by (intro sum_strict_mono_ex1) auto
  then show ?thesis by (simp add: spin_left_def assms(3))
qed

text \<open>A thread that holds the lock, or finds it free, can move towards its end.\<close>

lemma thread_progress:
  assumes inv: "spinlock_inv T N s" and t: "t < T" "lpc s t \<noteq> L_Done"
    and free: "lpc s t = L_Cas \<Longrightarrow> \<not> mval (last (hist (lmem s) ()))"
  shows "\<exists>ch s'. increment_counter N t ch 0 s = Some s' \<and> spin_left T N s' < spin_left T N s"
proof -
  have n: "loop_n s t \<le> N" "lpc s t \<in> {L_Sample, L_Unlock} \<Longrightarrow> loop_n s t < N"
    using inv t by (auto simp: spinlock_inv_def thread_inv_def)
  obtain s' where s': "increment_counter N t Cas_Succeed 0 s = Some s'"
    using t(2) free by (cases "lpc s t") (auto simp: increment_counter_def cas_counter_lock_def a_cas_def split_beta)
  have "thread_left N s' t < thread_left N s t"
    using s' t(2) free n
    by (cases "lpc s t")
      (auto simp: increment_counter_def cas_counter_lock_def cas_counter_unlock_def a_cas_def split_beta
        thread_left_def pc_left_def)
  moreover have "mat s' = mat s" "\<And>u. u \<noteq> t \<Longrightarrow> lpc s' u = lpc s u \<and> loop_n s' u = loop_n s u"
    using s' free by (cases "lpc s t"; auto simp: increment_counter_def cas_counter_lock_def
        cas_counter_unlock_def a_cas_def split_beta split: if_splits)+
  ultimately show ?thesis using s' spin_left_thread [OF t(1)] by blast
qed

lemma spinlock_main_progress:
  assumes inv: "spinlock_inv T N s" and d: "\<forall>t<T. lpc s t = L_Done" and "\<And>c. mat s \<noteq> Main_Exit c"
  shows "\<exists>s'. spinlock_main T N s = Some s' \<and> spin_left T N s' < spin_left T N s"
proof -
  have le: "mat s = Main_Join i \<or> mat s = Main_Print i \<Longrightarrow> i \<le> T" for i
    using inv by (auto simp: spinlock_inv_def main_at_inv_def)
  have "\<exists>s'. spinlock_main T N s = Some s' \<and> lpc s' = lpc s \<and> loop_n s' = loop_n s \<and>
      main_left T (mat s') < main_left T (mat s)"
  proof (cases "mat s")
    case (Main_Join i)
    with d le show ?thesis by (cases "i < T") (simp_all add: spinlock_main_def main_left_def)
  next
    case (Main_Print i)
    with le show ?thesis by (cases "i < T") (simp_all add: spinlock_main_def main_left_def split_beta)
  next
    case Main_Check
    then show ?thesis by (simp add: spinlock_main_def main_left_def split_beta)
  qed (use assms(3) in blast)
  then show ?thesis by (force simp: spin_left_def thread_left_def)
qed

lemma spinlock_progress:
  assumes inv: "spinlock_inv T N s" and left: "\<And>c. mat s \<noteq> Main_Exit c"
  shows "\<exists>c s'. spinlock_next T N c s = Some s' \<and> spin_left T N s' < spin_left T N s"
proof (cases "\<forall>t<T. lpc s t = L_Done")
  case True
  with spinlock_main_progress [OF inv True left] obtain s' where
    "spinlock_main T N s = Some s'" "spin_left T N s' < spin_left T N s" by blast
  then show ?thesis by (intro exI [of _ Main] exI [of _ s']) (simp add: spinlock_next_def)
next
  case False
  then obtain u where u: "u < T" "lpc s u \<noteq> L_Done" by blast
  obtain h where h: "lock_inv T h s" using thread_facts [OF inv u] by metis
  have "\<exists>t<T. lpc s t \<noteq> L_Done \<and> (lpc s t = L_Cas \<longrightarrow> \<not> mval (last (hist (lmem s) ())))"
  proof (cases h)
    case None
    then show ?thesis using h u by (auto simp: lock_inv_def)
  next
    case (Some t)
    then have "t < T" "in_section (lpc s t)" using h by (simp_all add: lock_inv_def)
    then show ?thesis by (auto simp: in_section_def)
  qed
  then obtain t where "t < T" "lpc s t \<noteq> L_Done" "lpc s t = L_Cas \<Longrightarrow> \<not> mval (last (hist (lmem s) ()))"
    by blast
  note t = this
  obtain ch s' where "increment_counter N t ch 0 s = Some s'" "spin_left T N s' < spin_left T N s"
    using thread_progress [OF inv t] by blast
  with \<open>t < T\<close> show ?thesis
    by (intro exI [of _ "Thread t ch 0"] exI [of _ s']) (simp add: spinlock_next_def)
qed

lemma spinlock_terminates:
  assumes "0 < T" and "N < 2 ^ 63"
  shows "spinlock_inv T N s \<Longrightarrow> \<exists>u c. reach (spinlock_next T N) s u \<and> mat u = Main_Exit c"
proof (induction "spin_left T N s" arbitrary: s rule: less_induct)
  case less
  show ?case
  proof (cases "\<exists>c. mat s = Main_Exit c")
    case False
    then obtain c t where t: "spinlock_next T N c s = Some t" "spin_left T N t < spin_left T N s"
      using spinlock_progress [OF less.prems] by blast
    obtain u d where "reach (spinlock_next T N) t u" "mat u = Main_Exit d"
      using less.hyps [OF t(2) spinlock_next_inv [OF less.prems assms t(1)]] by blast
    with reach_step [where nxt = "spinlock_next T N", OF reach_start t(1)] show ?thesis
      by (blast intro: reach_trans)
  qed (blast intro: reach_start)
qed

lemma length_collected_samples: "length (collected_samples T s) = (\<Sum>t<T. length (samples s t))"
  by (simp add: collected_samples_def length_concat comp_def interv_sum_list_conv_sum_set_nat atLeast0LessThan)

text \<open>With a sample per round trip no percentile is read outside the vector.\<close>

lemma spinlock_report_in_bounds:
  assumes "length (collected_samples T s) = N" and "0 < N" and "\<And>p. p < 1 \<Longrightarrow> mul p N < N"
  shows "\<forall>v\<in>set (spinlock_report mul T s). \<exists>x\<in>set (collected_samples T s). v = Some x"
  using assms by (simp add: spinlock_report_def cas_percentile_def vector_at_def)

text \<open>What the invariant says at the end.\<close>

lemma spinlock_exit:
  assumes "0 < T" and "N < 2 ^ 63" and i: "spinlock_inv T N u" and e: "mat u = Main_Exit c"
  shows "c = 0 \<and> length (printed_acquisitions u) = T \<and> sum_list (map unat (printed_acquisitions u)) = N \<and>
         length (collected_samples T u) = N"
proof -
  have d: "\<forall>j<T. lpc u j = L_Done" "c = 0" "printed_acquisitions u = map (\<lambda>t. of_nat (loop_n u t)) [0 ..< T]"
    using i e by (simp_all add: spinlock_inv_def main_at_inv_def)
  have th: "length (samples u t) = loop_n u t" "loop_n u t \<le> N" "total T u = N" if "t < T" for t
    using i that d(1) by (auto simp: spinlock_inv_def thread_inv_def)
  have "total T u = (\<Sum>t<T. loop_n u t)"
    unfolding total_def by (rule sum.cong) (use d(1) in \<open>auto simp: increments_def\<close>)
  then have s: "(\<Sum>t<T. loop_n u t) = N" using th(3) [OF assms(1)] by simp
  have "unat (of_nat (loop_n u t) :: i64) = loop_n u t" if "t < T" for t
    using th(2) [OF that] assms(2) by (simp add: unat_of_nat take_bit_nat_eq_self)
  then have "map (unat \<circ> (\<lambda>t. of_nat (loop_n u t) :: i64)) [0 ..< T] = map (loop_n u) [0 ..< T]"
    by (intro map_cong) auto
  then have "sum_list (map unat (printed_acquisitions u)) = (\<Sum>t<T. loop_n u t)"
    by (simp add: d(3) interv_sum_list_conv_sum_set_nat atLeast0LessThan)
  moreover have "(\<Sum>t<T. length (samples u t)) = (\<Sum>t<T. loop_n u t)"
    by (rule sum.cong) (use th(1) in auto)
  ultimately show ?thesis using d(2,3) s by (simp add: length_collected_samples)
qed

section \<open>Properties\<close>

text \<open>Two threads, one after a spurious failure and a failure on the taken lock.\<close>

definition spin_schedule :: "spinlock_choice list" where
  "spin_schedule =
     [Thread 0 Cas_Succeed 1, Thread 1 Cas_Succeed 2, Thread 0 (Cas_Fail 0) 0, Thread 0 Cas_Succeed 0,
      Thread 1 (Cas_Fail 1) 0, Thread 0 Cas_Succeed 0, Thread 0 Cas_Succeed 0, Thread 0 Cas_Succeed 0]"

text \<open>
  Property C9. Mutual exclusion: at most one thread is between its successful compare-exchange
  and its unlock, and no access of the counter or of the acquisition counts, nor any of those
  \<open>main\<close> makes after joining the threads, races with another.
\<close>

theorem spinlock_mutual_exclusion:
  assumes "0 < T" and "N < 2 ^ 63" and "reach (spinlock_next T N) spinlock_init s"
  shows "\<not> race (lmem s) \<and>
         (\<forall>t<T. \<forall>u<T. in_section (lpc s t) \<and> in_section (lpc s u) \<longrightarrow> t = u)"
proof -
  have i: "spinlock_inv T N s" using spinlock_machine.inv_reach [OF assms(3)] assms by blast
  have "t = u" if "t < T" "u < T" "in_section (lpc s t)" "in_section (lpc s u)" for t u
  proof -
    note tu = that
    have nd: "lpc s t \<noteq> L_Done" using tu(3) by (auto simp: in_section_def)
    obtain h where h: "lock_inv T h s" using thread_facts [OF i tu(1) nd] by metis
    show ?thesis using holder [OF h tu(1,3)] holder [OF h tu(2,4)] by simp
  qed
  then show ?thesis using i by (auto simp: spinlock_inv_def data_inv_def)
qed

theorem spinlock_mutual_exclusion_witness:
  "\<exists>s. reach (spinlock_next 2 3) spinlock_init s \<and> in_section (lpc s 0) \<and> \<not> in_section (lpc s 1) \<and>
       \<not> race (lmem s)"
proof -
  have "run_to (spinlock_next 2 3) spin_schedule spinlock_init (\<lambda>s. in_section (lpc s 0))"
    by code_simp
  then obtain s where s: "reach (spinlock_next 2 3) spinlock_init s" "in_section (lpc s 0)"
    by (blast dest: run_toD)
  from spinlock_mutual_exclusion [OF _ _ s(1)] have m: "\<not> race (lmem s)"
    "\<forall>t<2. \<forall>u<2. in_section (lpc s t) \<and> in_section (lpc s u) \<longrightarrow> t = u" by simp_all
  have "\<not> in_section (lpc s 1)"
  proof
    assume "in_section (lpc s 1)"
    with m(2) s(2) have "(0 :: nat) = 1" by (meson one_less_numeral_iff semiring_norm(76) zero_less_numeral)
    then show False by simp
  qed
  with s m(1) show ?thesis by blast
qed

text \<open>
  The program counts right and can always end: from every state \<open>main\<close> can
  still reach its end, and whenever it does, the exit code is zero (the counter is
  \<open>NUM_ROUND_TRIPS\<close>), the acquisitions it prints add up to exactly that number, and so do the
  samples \<open>main\<close> collects of all threads.
\<close>

theorem spinlock_counts:
  assumes "0 < T" and "N < 2 ^ 63" and "reach (spinlock_next T N) spinlock_init s"
  shows "(\<forall>c. mat s = Main_Exit c \<longrightarrow>
            c = 0 \<and> length (printed_acquisitions s) = T \<and> sum_list (map unat (printed_acquisitions s)) = N \<and>
            length (collected_samples T s) = N) \<and>
         (\<exists>u. reach (spinlock_next T N) s u \<and> mat u = Main_Exit 0)"
proof -
  have inv: "spinlock_inv T N u" if "reach (spinlock_next T N) spinlock_init u" for u
    using spinlock_machine.inv_reach [OF that] assms by blast
  have i: "spinlock_inv T N s" by (rule inv [OF assms(3)])
  obtain u c where u: "reach (spinlock_next T N) s u" "mat u = Main_Exit c"
    using spinlock_terminates [OF assms(1,2) i] by blast
  have "c = 0" using spinlock_exit [OF assms(1,2) inv [OF reach_trans [OF assms(3) u(1)]] u(2)] by blast
  with spinlock_exit [OF assms(1,2) i] u show ?thesis by blast
qed

theorem spinlock_counts_witness:
  "\<exists>s u. reach (spinlock_next 2 3) spinlock_init s \<and> in_section (lpc s 0) \<and>
         reach (spinlock_next 2 3) s u \<and> mat u = Main_Exit 0"
proof -
  have "run_to (spinlock_next 2 3) spin_schedule spinlock_init (\<lambda>s. in_section (lpc s 0))"
    by code_simp
  then obtain s where s: "reach (spinlock_next 2 3) spinlock_init s" "in_section (lpc s 0)"
    by (blast dest: run_toD)
  from spinlock_counts [OF _ _ s(1)] s show ?thesis by auto
qed

end
