(* ===== verification/Fair_Spinlock.thy ===== *)
theory Fair_Spinlock
  imports Cas_Spinlock Fair_Runs
begin

text \<open>
  \<open>experiments/cas_spinlock.cpp\<close> under a fair scheduler: the program ends with the right count.
  Fairness has to say more here than that every thread gets its turn: a weak compare-exchange may
  fail although the flag is free, and could do so for ever.  A turn counts (\<open>earnest\<close>) unless it is
  such a failure.  Nothing is assumed about who gets the lock: a single thread may never get it
  while others do, but those run out of round trips.
\<close>

section \<open>The threads of a schedule\<close>

definition spin_thread :: "nat \<Rightarrow> spinlock_choice \<Rightarrow> tid" where
  "spin_thread T c = (case c of Thread t ch now \<Rightarrow> t | Main \<Rightarrow> T)"

definition spin_reads :: "spinlock_choice \<Rightarrow> spinlock \<Rightarrow> (unit \<times> nat) option" where
  "spin_reads c s =
     (case c of
        Thread t (Cas_Fail k) now \<Rightarrow> if lpc s t = L_Cas then Some ((), k) else None
      | _ \<Rightarrow> None)"

definition spin_messages :: "spinlock \<Rightarrow> unit \<Rightarrow> nat" where
  "spin_messages s l = length (hist (lmem s) l)"

definition earnest :: "spinlock_choice \<Rightarrow> spinlock \<Rightarrow> bool" where
  "earnest c s =
     (case c of
        Thread t (Cas_Fail k) now \<Rightarrow> \<not> (lpc s t = L_Cas \<and> \<not> mval (hist (lmem s) () ! k))
      | _ \<Rightarrow> True)"

text \<open>
  Who moves the program on: the holder of the lock; if it is free, any thread that has not ended;
  then \<open>main\<close>.
\<close>

definition spin_helper :: "nat \<Rightarrow> spinlock \<Rightarrow> tid" where
  "spin_helper T s =
     (if \<exists>t<T. in_section (lpc s t) then LEAST t. t < T \<and> in_section (lpc s t)
      else if \<exists>t<T. lpc s t \<noteq> L_Done then LEAST t. t < T \<and> lpc s t \<noteq> L_Done
      else T)"

definition spin_bound :: "nat \<Rightarrow> nat \<Rightarrow> nat" where
  "spin_bound T N = T * (12 * N + 11) + (2 * T + 4)"

definition spin_score :: "nat \<Rightarrow> nat \<Rightarrow> spinlock \<Rightarrow> nat" where
  "spin_score T N s = spin_bound T N - spin_left T N s"

definition spin_over :: "spinlock \<Rightarrow> bool" where
  "spin_over s \<longleftrightarrow> (case mat s of Main_Exit c \<Rightarrow> True | _ \<Rightarrow> False)"

lemma spin_left_bound: "spin_left T N s \<le> spin_bound T N"
proof -
  have "thread_left N s t \<le> 12 * N + 11" for t
    unfolding thread_left_def by (rule add_mono) (simp_all add: pc_left_def split: lock_pc.split)
  then have "(\<Sum>t<T. thread_left N s t) \<le> T * (12 * N + 11)"
    using sum_bounded_above [of "{..<T}" "thread_left N s" "12 * N + 11"] by simp
  moreover have "main_left T (mat s) \<le> 2 * T + 4" by (cases "mat s") (simp_all add: main_left_def)
  ultimately show ?thesis unfolding spin_left_def spin_bound_def by (rule add_mono)
qed

section \<open>Every step advances the program or fails to get the lock\<close>

definition misses :: "spinlock_choice \<Rightarrow> spinlock \<Rightarrow> spinlock \<Rightarrow> bool" where
  "misses c s s' \<longleftrightarrow>
     (\<exists>t k now v m. c = Thread t (Cas_Fail k) now \<and> lpc s t = L_Cas \<and>
        a_load Relaxed t () k (lmem s) = Some (v, m) \<and> s' = s\<lparr>lmem := m\<rparr>)"

lemma goto_here: "lpc s t = p \<Longrightarrow> goto t p (s\<lparr>lmem := m\<rparr>) = s\<lparr>lmem := m\<rparr>"
  by (cases s) (auto simp: goto_def)

lemma cas_advances:
  assumes pc: "lpc s t = L_Cas" and t: "t < T" and step: "increment_counter N t ch now s = Some s'"
  shows "spin_left T N s' < spin_left T N s \<or> misses (Thread t ch now) s s'"
proof -
  obtain b v m where cas: "a_cas True Acquire Relaxed t () False True ch (lmem s) = Some (b, v, m)"
    and s': "s' = goto t (if b then L_Check else L_Cas) (s\<lparr>lmem := m\<rparr>)"
    using step pc by (auto simp: increment_counter_def cas_counter_lock_def split: option.splits)
  show ?thesis
  proof (cases ch)
    case Cas_Succeed
    then have "b" using cas by (auto simp: a_cas_def split: if_splits)
    then have "spin_left T N s' < spin_left T N s"
      by (intro spin_left_thread [OF t]) (simp_all add: s' thread_left_def pc pc_left_def)
    then show ?thesis ..
  next
    case (Cas_Fail k)
    then have "\<not> b" "a_load Relaxed t () k (lmem s) = Some (v, m)"
      using cas by (auto simp: a_cas_def split: option.splits)
    then have "misses (Thread t ch now) s s'"
      using pc Cas_Fail by (simp add: misses_def s' goto_here)
    then show ?thesis ..
  qed
qed

lemma thread_advances:
  assumes n: "loop_n s t \<le> N" "lpc s t \<in> {L_Sample, L_Unlock} \<Longrightarrow> loop_n s t < N"
    and t: "t < T" and step: "increment_counter N t ch now s = Some s'"
  shows "spin_left T N s' < spin_left T N s \<or> misses (Thread t ch now) s s'"
proof (cases "lpc s t = L_Cas")
  case False
  have "spin_left T N s' < spin_left T N s"
  proof (rule spin_left_thread [OF t])
    show "thread_left N s' t < thread_left N s t"
      using step False n
      by (cases "lpc s t") (auto simp: increment_counter_def cas_counter_unlock_def split_beta thread_left_def pc_left_def)
    show "mat s' = mat s"
      using step False
      by (cases "lpc s t"; auto simp: increment_counter_def cas_counter_unlock_def split_beta split: if_splits)
    show "lpc s' u = lpc s u \<and> loop_n s' u = loop_n s u" if "u \<noteq> t" for u
      using step False that
      by (cases "lpc s t"; auto simp: increment_counter_def cas_counter_unlock_def split_beta split: if_splits)
  qed
  then show ?thesis ..
qed (rule cas_advances [OF _ t step])

lemma spinlock_main_advances:
  assumes "\<And>i. mat s = Main_Join i \<or> mat s = Main_Print i \<Longrightarrow> i \<le> T" and "spinlock_main T N s = Some s'"
  shows "spin_left T N s' < spin_left T N s"
proof -
  have "main_left T (mat s') < main_left T (mat s)"
  proof (cases "mat s")
    case (Main_Join i)
    with assms show ?thesis by (cases "i < T") (auto simp: spinlock_main_def main_left_def split: if_splits)
  next
    case (Main_Print i)
    with assms show ?thesis by (cases "i < T") (auto simp: spinlock_main_def main_left_def split_beta)
  next
    case Main_Check
    with assms show ?thesis by (auto simp: spinlock_main_def main_left_def split_beta)
  qed (use assms in \<open>simp add: spinlock_main_def\<close>)
  moreover have "lpc s' = lpc s" "loop_n s' = loop_n s"
    using assms(2) by (auto simp: spinlock_main_def split_beta split: main_at.splits if_splits)
  ultimately show ?thesis by (simp add: spin_left_def thread_left_def)
qed

lemma spinlock_advances:
  assumes i: "spinlock_inv T N s" and step: "spinlock_next T N c s = Some s'"
  shows "spin_left T N s' < spin_left T N s \<or> misses c s s'"
proof (cases c)
  case (Thread t ch now)
  then have t: "t < T" "increment_counter N t ch now s = Some s'"
    using step by (auto simp: spinlock_next_def split: if_splits)
  have "loop_n s t \<le> N" "lpc s t \<in> {L_Sample, L_Unlock} \<Longrightarrow> loop_n s t < N"
    using i t(1) by (auto simp: spinlock_inv_def thread_inv_def)
  from thread_advances [OF this t] show ?thesis unfolding Thread .
next
  case Main
  then have "spinlock_main T N s = Some s'" using step by (simp add: spinlock_next_def)
  moreover have "mat s = Main_Join i \<or> mat s = Main_Print i \<Longrightarrow> i \<le> T" for i
    using i by (auto simp: spinlock_inv_def main_at_inv_def)
  ultimately show ?thesis using spinlock_main_advances by blast
qed

section \<open>The rule applied\<close>

lemma spin_helper_cases:
  assumes i: "spinlock_inv T N s"
  obtains (holder) "spin_helper T s < T" "in_section (lpc s (spin_helper T s))"
    | (free) "spin_helper T s < T" "lpc s (spin_helper T s) \<noteq> L_Done" "\<not> mval (last (hist (lmem s) ()))"
    | (main) "spin_helper T s = T" "\<forall>t<T. lpc s t = L_Done"
proof (cases "\<exists>t<T. in_section (lpc s t)")
  case True
  then have "spin_helper T s = (LEAST t. t < T \<and> in_section (lpc s t))" by (simp add: spin_helper_def)
  then show thesis using LeastI_ex [OF True] holder by simp
next
  case out: False
  show thesis
  proof (cases "\<exists>t<T. lpc s t \<noteq> L_Done")
    case True
    have h: "spin_helper T s = (LEAST t. t < T \<and> lpc s t \<noteq> L_Done)"
      unfolding spin_helper_def if_not_P [OF out] if_P [OF True] by (rule refl)
    obtain u where u: "u < T" "lpc s u \<noteq> L_Done" using True by blast
    obtain h where "lock_inv T h s" using thread_facts [OF i u] by metis
    then have "\<not> mval (last (hist (lmem s) ()))" using out by (cases h) (auto simp: lock_inv_def)
    then show thesis using LeastI_ex [OF True] free unfolding h by simp
  next
    case False
    moreover have "spin_helper T s = T" unfolding spin_helper_def if_not_P [OF out] if_not_P [OF False] by (rule refl)
    ultimately show thesis using main by blast
  qed
qed

lemma spin_helper_moves:
  assumes i: "spinlock_inv T N s" and left: "\<not> spin_over s"
  shows "can_move (spinlock_next T N) (spin_thread T) (spin_helper T s) s"
proof -
  have thread: ?thesis if t: "spin_helper T s < T" "lpc s (spin_helper T s) \<noteq> L_Done"
      and free: "lpc s (spin_helper T s) = L_Cas \<Longrightarrow> \<not> mval (last (hist (lmem s) ()))"
  proof -
    obtain ch s' where "increment_counter N (spin_helper T s) ch 0 s = Some s'"
      using thread_progress [OF i t free] by blast
    then show ?thesis using t(1)
      by (auto simp: can_move_def spin_thread_def spinlock_next_def intro!: exI [of _ "Thread (spin_helper T s) ch 0"])
  qed
  from i show ?thesis
  proof (cases rule: spin_helper_cases)
    case holder
    then show ?thesis by (intro thread) (auto simp: in_section_def)
  next
    case free
    then show ?thesis by (intro thread)
  next
    case main
    then obtain s' where "spinlock_main T N s = Some s'"
      using spinlock_main_progress [OF i main(2)] left by (auto simp: spin_over_def split: main_at.splits)
    then show ?thesis using main(1)
      by (auto simp: can_move_def spin_thread_def spinlock_next_def intro!: exI [of _ Main])
  qed
qed

lemma spin_helper_frame: "spin_helper T (s\<lparr>lmem := m\<rparr>) = spin_helper T s"
proof -
  have "lpc (s\<lparr>lmem := m\<rparr>) = lpc s" by simp
  then show ?thesis unfolding spin_helper_def by (simp only:)
qed

text \<open>The helper does not miss the lock on the newest message, except spuriously.\<close>

lemma no_miss:
  assumes i: "spinlock_inv T N s" and miss: "misses c s s'" and turn: "spin_thread T c = spin_helper T s"
    and step: "spinlock_next T N c s = Some s'"
    and newest: "\<And>l k. spin_reads c s = Some (l, k) \<Longrightarrow> spin_messages s l = Suc k"
  shows "\<not> earnest c s"
proof -
  obtain k now where c: "c = Thread (spin_helper T s) (Cas_Fail k) now" and pc: "lpc s (spin_helper T s) = L_Cas"
    using miss turn by (auto simp: misses_def spin_thread_def)
  have len: "length (hist (lmem s) ()) = Suc k"
    using newest [of "()" k] pc by (simp add: c spin_reads_def spin_messages_def)
  then have "last (hist (lmem s) ()) = hist (lmem s) () ! k"
    by (metis diff_Suc_1 last_conv_nth list.size(3) nat.distinct(1))
  moreover have "\<not> mval (last (hist (lmem s) ()))" if "spin_helper T s < T"
    using i by (cases rule: spin_helper_cases) (use pc that in \<open>auto simp: in_section_def\<close>)
  moreover have "spin_helper T s < T" using step by (auto simp: c spinlock_next_def split: if_splits)
  ultimately show ?thesis using pc by (simp add: c earnest_def)
qed

text \<open>The sizes of a run: at least one thread, and round trips that an \<open>int64_t\<close> can count.\<close>

locale spinlock_size =
  fixes T N :: nat
  assumes threads: "0 < T" and countable: "N < 2 ^ 63"

sublocale spinlock_size \<subseteq> fair: fair_machine "spinlock_next T N" "spinlock_inv T N" "spin_thread T"
    earnest spin_reads spin_messages spin_over "spin_score T N" "spin_bound T N" "spin_helper T" "\<lambda>s. 0"
proof
  fix s c s'
  assume i: "spinlock_inv T N s"
  show "spin_score T N s \<le> spin_bound T N" by (simp add: spin_score_def)
  show "can_move (spinlock_next T N) (spin_thread T) (spin_helper T s) s" if "\<not> spin_over s"
    by (rule spin_helper_moves [OF i that])
  assume step: "spinlock_next T N c s = Some s'"
  show "spinlock_inv T N s'" by (rule spinlock_next_inv [OF i threads countable step])
  have "spin_left T N s' \<le> spin_left T N s"
    using spinlock_advances [OF i step] by (auto simp: misses_def spin_left_def thread_left_def)
  then show "spin_score T N s \<le> spin_score T N s'" by (simp add: spin_score_def)
  assume same: "spin_score T N s' = spin_score T N s"
  with spinlock_advances [OF i step] spin_left_bound [of T N s] have miss: "misses c s s'"
    by (auto simp: spin_score_def)
  then obtain t k v m where m: "a_load Relaxed t () k (lmem s) = Some (v, m)" "s' = s\<lparr>lmem := m\<rparr>"
    by (auto simp: misses_def)
  then show "spin_messages s' = spin_messages s"
    by (intro ext) (auto simp: spin_messages_def a_load_Some)
  assume newest: "\<And>l k. spin_reads c s = Some (l, k) \<Longrightarrow> spin_messages s l = Suc k"
  show "spin_helper T s' = spin_helper T s \<and> (0::nat) \<le> 0 \<and>
      (spin_thread T c = spin_helper T s \<and> earnest c s \<longrightarrow> (0::nat) < 0)"
    using no_miss [OF i miss _ step newest] by (auto simp: m(2) spin_helper_frame)
qed

context spinlock_size
begin

lemma threads_finish:
  assumes "weakly_fair (spinlock_next T N) (spin_thread T) earnest spinlock_init schedule"
    and "visible (spinlock_next T N) spin_reads spin_messages spinlock_init schedule"
  obtains i c where "mat (execution (spinlock_next T N) schedule spinlock_init i) = Main_Exit c"
    "spinlock_inv T N (execution (spinlock_next T N) schedule spinlock_init i)"
proof -
  obtain i where "spin_over (execution (spinlock_next T N) schedule spinlock_init i)"
    "spinlock_inv T N (execution (spinlock_next T N) schedule spinlock_init i)"
    using fair.fair_runs_finish [OF spinlock_inv_init assms] by blast
  then show thesis using that by (auto simp: spin_over_def split: main_at.splits)
qed

end

interpretation source_spinlock: spinlock_size SPIN_THREADS SPIN_ROUND_TRIPS
  by unfold_locales (simp_all add: SPIN_THREADS_def SPIN_ROUND_TRIPS_def)

text \<open>
  Property C27. The program counts right and ends: under every schedule that does not pass over a
  thread forever, in which stores to the flag become visible and an exchange does not fail
  spuriously for ever, \<open>main\<close> joins all threads and returns zero (the counter is
  \<open>NUM_ROUND_TRIPS\<close>), the acquisitions it prints add up to exactly that number, and so do the
  samples it collects - whichever thread gets the lock how often.
\<close>

theorem spinlock_always_exits:
  assumes "0 < T" and "N < 2 ^ 63"
    and "weakly_fair (spinlock_next T N) (spin_thread T) earnest spinlock_init schedule"
    and "visible (spinlock_next T N) spin_reads spin_messages spinlock_init schedule"
  shows "\<exists>i. let s = execution (spinlock_next T N) schedule spinlock_init i in
           mat s = Main_Exit 0 \<and> length (printed_acquisitions s) = T \<and>
           sum_list (map unat (printed_acquisitions s)) = N \<and> length (collected_samples T s) = N \<and>
           \<not> race (lmem s)"
proof -
  have size: "spinlock_size T N" by (rule spinlock_size.intro [OF assms(1,2)])
  obtain i c where e: "mat (execution (spinlock_next T N) schedule spinlock_init i) = Main_Exit c"
    and inv: "spinlock_inv T N (execution (spinlock_next T N) schedule spinlock_init i)"
    by (rule spinlock_size.threads_finish [OF size assms(3,4)])
  have "\<not> race (lmem (execution (spinlock_next T N) schedule spinlock_init i))"
    using inv by (simp add: spinlock_inv_def data_inv_def)
  with e spinlock_exit [OF assms(1,2) inv e] show ?thesis by (intro exI [of _ i]) (simp add: Let_def)
qed

text \<open>One thread with two round trips, to the end.\<close>

definition two_trips :: "spinlock_choice list" where
  "two_trips = replicate 19 (Thread 0 Cas_Succeed 3) @ replicate 5 Main"

lemma exited_stays: "spinlock_inv T N s \<Longrightarrow> mat s = Main_Exit c \<Longrightarrow> spinlock_next T N d s = None"
  by (cases d) (simp_all add: spinlock_next_def spinlock_inv_def main_at_inv_def increment_counter_def
      spinlock_main_def)

theorem spinlock_always_exits_witness:
  "\<exists>i. let s = execution (spinlock_next 1 2) (pad two_trips Main) spinlock_init i in
     mat s = Main_Exit 0 \<and> length (printed_acquisitions s) = 1 \<and>
     sum_list (map unat (printed_acquisitions s)) = 2 \<and> length (collected_samples 1 s) = 2 \<and> \<not> race (lmem s)"
proof -
  have "run_to (spinlock_next 1 2) two_trips spinlock_init (\<lambda>s. mat s = Main_Exit 0)" by code_simp
  then obtain s where s: "run (spinlock_next 1 2) two_trips spinlock_init = Some s" "mat s = Main_Exit 0"
    by (blast dest: run_to_run)
  have "spinlock_inv 1 2 s" using spinlock_machine.inv_reach [OF run_reach [OF s(1)]] by simp
  note fair = finished_run_is_fair [OF s(1) exited_stays [OF this s(2)]]
  from spinlock_always_exits [OF _ _ fair] show ?thesis by simp
qed

end
