(* ===== verification/Cxx_Layout.thy ===== *)
theory Cxx_Layout
  imports Pipeline_Prelude
begin

text \<open>
  Where the objects of the program lie relative to cache lines.  The program's \<open>alignas\<close>
  specifiers promise that certain members share a line and others do not; here the layout of a
  class is computed from its declaration, as the platform ABIs the source is built for do
  (x86-64 and arm64): members in the order of their declaration, each at the next multiple of its
  alignment, the size rounded up to the alignment of the class.
\<close>

section \<open>Layout of classes\<close>

record object_type =
  type_size :: nat
  type_align :: nat

text \<open>\<open>int\<close> and \<open>std::atomic_int32_t\<close>; \<open>std::size_t\<close>, \<open>std::atomic<std::size_t>\<close> and
  \<open>std::atomic_int64_t\<close>.\<close>

definition int32_type :: object_type where "int32_type = \<lparr>type_size = 4, type_align = 4\<rparr>"
definition int64_type :: object_type where "int64_type = \<lparr>type_size = 8, type_align = 8\<rparr>"

definition round_up :: "nat \<Rightarrow> nat \<Rightarrow> nat" where
  "round_up n a = (n + (a - 1)) div a * a"

text \<open>A member: the argument of its \<open>alignas\<close>, zero without one, and its type.\<close>

type_synonym member = "nat \<times> object_type"

fun place :: "nat \<Rightarrow> member list \<Rightarrow> nat list \<times> nat" where
  "place n [] = ([], n)"
| "place n ((a, t) # ms) =
     (let start = round_up n (max a (type_align t)); (starts, end) = place (start + type_size t) ms
      in (start # starts, end))"

definition member_offsets :: "member list \<Rightarrow> nat list" where
  "member_offsets ms = fst (place 0 ms)"

definition class_align :: "nat \<Rightarrow> member list \<Rightarrow> nat" where
  "class_align a ms = foldr (\<lambda>(b, t) m. max (max b (type_align t)) m) ms a"

definition class_type :: "nat \<Rightarrow> member list \<Rightarrow> object_type" where
  "class_type a ms =
     \<lparr>type_size = round_up (snd (place 0 ms)) (class_align a ms), type_align = class_align a ms\<rparr>"

definition array_type :: "nat \<Rightarrow> object_type \<Rightarrow> object_type" where
  "array_type n t = \<lparr>type_size = n * type_size t, type_align = type_align t\<rparr>"

text \<open>The cache lines, of size \<open>L\<close>, an object at an address touches.\<close>

definition cache_lines :: "nat \<Rightarrow> nat \<Rightarrow> object_type \<Rightarrow> nat set" where
  "cache_lines L addr t = {addr div L .. (addr + type_size t - 1) div L}"

section \<open>The classes of the program\<close>

definition CACHE_LINE_SIZE :: "bool \<Rightarrow> nat" where
  "CACHE_LINE_SIZE apple = (if apple then 128 else 64)"

text \<open>\<open>spsc/SpscQueue.h\<close>; \<open>T\<close> is the type of the items.\<close>

definition Slot_type :: "nat \<Rightarrow> object_type \<Rightarrow> object_type" where
  "Slot_type L T = class_type L [(0, T)]"

definition SpscQueue_members :: "nat \<Rightarrow> nat \<Rightarrow> object_type \<Rightarrow> member list" where
  "SpscQueue_members L C T =
     [(0, array_type C (Slot_type L T)), (L, int64_type), (0, int64_type), (L, int64_type), (0, int64_type)]"

definition SpscQueue_type :: "nat \<Rightarrow> nat \<Rightarrow> object_type \<Rightarrow> object_type" where
  "SpscQueue_type L C T = class_type 0 (SpscQueue_members L C T)"

text \<open>The items of \<open>bench/spsc_bench.cpp\<close>.\<close>

definition Item_type :: object_type where
  "Item_type = class_type 0 [(0, int32_type)]"

definition PaddedItem_type :: "nat \<Rightarrow> object_type" where
  "PaddedItem_type L = class_type L [(0, int32_type)]"

text \<open>\<open>flag\<close> and \<open>counter\<close> of \<open>bench/pingpong_bench.cpp\<close>.\<close>

definition Packed_members :: "member list" where
  "Packed_members = [(0, int32_type), (0, int32_type)]"

definition Padded_members :: "nat \<Rightarrow> member list" where
  "Padded_members L = [(L, int32_type), (L, int32_type)]"

definition Packed_type :: object_type where
  "Packed_type = class_type 0 Packed_members"

definition Padded_type :: "nat \<Rightarrow> object_type" where
  "Padded_type L = class_type 0 (Padded_members L)"

text \<open>The counters of \<open>bench/counter_bench.cpp\<close>.\<close>

definition aligned_atomic_vector_type :: "nat \<Rightarrow> object_type" where
  "aligned_atomic_vector_type L = class_type L [(0, array_type 4 int64_type)]"

definition single_aligned_atomic_type :: "nat \<Rightarrow> object_type" where
  "single_aligned_atomic_type L = class_type L [(0, int64_type)]"

section \<open>Arithmetic of alignment\<close>

lemma round_up_dvd [simp]: "a dvd round_up n a"
  by (simp add: round_up_def)

lemma round_up_0 [simp]: "round_up 0 a = 0"
  by (cases a) (simp_all add: round_up_def)

lemma round_up_exact [simp]: "0 < a \<Longrightarrow> round_up (q * a) a = q * a"
proof -
  assume "0 < a"
  then have "(q * a + (a - 1)) div a = q" by (intro div_nat_eqI) (simp_all add: mult.commute [of a])
  then show ?thesis by (simp add: round_up_def)
qed

lemma round_up_same: "0 < a \<Longrightarrow> a dvd n \<Longrightarrow> round_up n a = n"
  by (auto simp: mult.commute)

lemma round_up_ge: "0 < a \<Longrightarrow> n \<le> round_up n a"
  using div_mult_mod_eq [of "n + (a - 1)" a] mod_less_divisor [of a "n + (a - 1)"]
  unfolding round_up_def by linarith

lemma round_up_next: "0 < a \<Longrightarrow> a dvd n \<Longrightarrow> 0 < k \<Longrightarrow> k \<le> a \<Longrightarrow> round_up (n + k) a = n + a"
proof -
  assume a: "0 < a" "a dvd n" "0 < k" "k \<le> a"
  then obtain q where q: "n = q * a" by (auto simp: mult.commute)
  have "n + k + (a - 1) = Suc q * a + (k - 1)" using a q by simp
  then have "(n + k + (a - 1)) div a = Suc q" using a by (intro div_nat_eqI) (simp_all add: mult.commute [of a])
  then show ?thesis using q by (simp add: round_up_def)
qed

text \<open>Types of the language: the alignment is a power of two, and the size a positive multiple of it.\<close>

definition type_ok :: "object_type \<Rightarrow> bool" where
  "type_ok t \<longleftrightarrow> 0 < type_size t \<and> type_align t dvd type_size t \<and> (\<exists>k. type_align t = 2 ^ k)"

lemma type_ok_align: "type_ok t \<Longrightarrow> 0 < type_align t"
  by (auto simp: type_ok_def)

lemma line_size: "CACHE_LINE_SIZE apple \<in> {64, 128}" and line_size_pow2: "\<exists>k. CACHE_LINE_SIZE apple = 2 ^ k"
proof -
  show "CACHE_LINE_SIZE apple \<in> {64, 128}" by (simp add: CACHE_LINE_SIZE_def)
  have "CACHE_LINE_SIZE apple = 2 ^ (if apple then 7 else 6)" by (simp add: CACHE_LINE_SIZE_def)
  then show "\<exists>k. CACHE_LINE_SIZE apple = 2 ^ k" by blast
qed

text \<open>The larger of two powers of two is a multiple of both.\<close>

lemma dvd_max_pow2: "\<exists>k. a = 2 ^ k \<Longrightarrow> \<exists>k. b = 2 ^ k \<Longrightarrow> (a :: nat) dvd max a b \<and> b dvd max a b"
proof (elim exE)
  fix j k assume ab: "a = 2 ^ j" "b = 2 ^ k"
  show ?thesis
  proof (cases "j \<le> k")
    case True
    then have "a dvd b" using ab by (simp add: le_imp_power_dvd)
    moreover have "a \<le> b" using ab True by simp
    ultimately show ?thesis by (simp add: max_def)
  next
    case False
    then have "b dvd a" using ab by (simp add: le_imp_power_dvd)
    moreover have "b \<le> a" using ab False by simp
    ultimately show ?thesis by (simp add: max_def)
  qed
qed

text \<open>A slot is one or more whole lines.\<close>

lemma Slot_type_layout:
  fixes apple :: bool and T :: object_type
  defines "L \<equiv> CACHE_LINE_SIZE apple"
  assumes T: "type_ok T"
  shows "type_align (Slot_type L T) = max L (type_align T)"
    and "L dvd type_size (Slot_type L T)" and "0 < type_size (Slot_type L T)"
    and "L dvd type_align (Slot_type L T)" and "type_align (Slot_type L T) dvd type_size (Slot_type L T)"
    and "type_size T \<le> type_size (Slot_type L T)"
proof -
  have L: "0 < L" using line_size [of apple] by (auto simp: L_def)
  show align: "type_align (Slot_type L T) = max L (type_align T)"
    by (simp add: Slot_type_def class_type_def class_align_def max.commute)
  have size: "type_size (Slot_type L T) = round_up (type_size T) (max L (type_align T))"
    by (simp add: Slot_type_def class_type_def class_align_def max.commute)
  have dvd: "L dvd max L (type_align T)"
    using dvd_max_pow2 [OF line_size_pow2 [of apple], of "type_align T"] T by (simp add: L_def type_ok_def)
  then show "L dvd type_align (Slot_type L T)" "L dvd type_size (Slot_type L T)"
    using dvd_trans [OF dvd round_up_dvd] by (simp_all add: align size)
  show "type_align (Slot_type L T) dvd type_size (Slot_type L T)" by (simp add: align size)
  show le: "type_size T \<le> type_size (Slot_type L T)" using L round_up_ge by (simp add: size)
  then show "0 < type_size (Slot_type L T)" using T by (simp add: type_ok_def)
qed

text \<open>The offsets of the five members.\<close>

lemma SpscQueue_offsets:
  fixes apple :: bool and T :: object_type and C :: nat
  defines "L \<equiv> CACHE_LINE_SIZE apple"
  defines "B \<equiv> C * type_size (Slot_type L T)"
  assumes T: "type_ok T"
  shows "member_offsets (SpscQueue_members L C T) = [0, B, B + 8, B + L, B + L + 8]"
    and "L dvd type_align (SpscQueue_type L C T)"
proof -
  note slot = Slot_type_layout [OF T, of apple, folded L_def]
  have L: "L = 64 \<or> L = 128" using line_size [of apple] by (auto simp: L_def)
  have B: "L dvd B" using slot(2) by (simp add: B_def)
  then have B8: "8 dvd B" using L dvd_trans [of 8 L B] by fastforce
  have r: "round_up B L = B" "round_up (B + 8) 8 = B + 8" "round_up (B + 16) L = B + L"
    "round_up (B + L + 8) 8 = B + L + 8"
    using L B B8 by (auto intro!: round_up_same round_up_next)
  have m: "max L 8 = L" using L by auto
  have p: "place 0 (SpscQueue_members L C T) = ([0, B, B + 8, B + L, B + L + 8], B + L + 16)"
    using r m by (simp add: SpscQueue_members_def int64_type_def array_type_def B_def [symmetric] add.assoc)
  then show "member_offsets (SpscQueue_members L C T) = [0, B, B + 8, B + L, B + L + 8]"
    by (simp add: member_offsets_def)
  have "type_align (SpscQueue_type L C T) = max L (type_align T)"
    using L slot(1) by (auto simp: SpscQueue_type_def class_type_def class_align_def SpscQueue_members_def
        array_type_def int64_type_def max_def)
  then show "L dvd type_align (SpscQueue_type L C T)" using slot(1,4) by simp
qed

text \<open>The line of a small object that starts a little after the start of a line.\<close>

lemma one_line:
  assumes "L dvd a" and "k + type_size t \<le> L" and "0 < type_size t"
  shows "cache_lines L (a + k) t = {a div L}"
proof -
  obtain q where "a = q * L" using assms(1) by (metis dvd_div_mult_self)
  moreover have "(q * L + k) div L = q" "(q * L + k + type_size t - 1) div L = q"
    using assms by (auto intro!: div_nat_eqI simp: mult.commute)
  moreover have "q * L div L = q" using assms by simp
  ultimately show ?thesis by (simp add: cache_lines_def)
qed

lemma aligned_less_line: "0 < L \<Longrightarrow> L dvd a \<Longrightarrow> L dvd b \<Longrightarrow> a < (b :: nat) \<Longrightarrow> a div L < b div L"
  by (metis dvd_div_mult_self mult_less_cancel2)

text \<open>Objects that end before the start of another line do not touch it or a later one.\<close>

lemma lines_below:
  assumes "0 < L" and "L dvd b" and "a + type_size t \<le> b" and "0 < type_size t" and "l \<in> cache_lines L a t"
  shows "l < b div L"
proof -
  have "(a + type_size t - 1) div L < b div L"
    using assms(1-4) by (metis add_gr_0 diff_less div_less_iff_less_mult dvd_div_mult_self le_eq_less_or_eq
        less_imp_diff_less zero_less_one order_less_le_trans)
  then show ?thesis using assms(5) by (simp add: cache_lines_def)
qed

section \<open>What the \<open>alignas\<close> specifiers achieve\<close>

text \<open>
  Property C15. The comment in \<open>SpscQueue\<close> holds: wherever a queue lies, \<open>head_\<close> and the
  consumer's \<open>tail_cache_\<close> are on one cache line, \<open>tail_\<close> and the producer's \<open>head_cache_\<close> on
  another, no slot touches either of them, and no two slots share a line.
\<close>

theorem spsc_members_do_not_share_lines:
  fixes apple :: bool and T :: object_type
  defines "L \<equiv> CACHE_LINE_SIZE apple"
  assumes T: "type_ok T" and addr: "type_align (SpscQueue_type L C T) dvd addr"
  shows "\<exists>buf head tail_cache tail head_cache consumer_line producer_line.
           member_offsets (SpscQueue_members L C T) = [buf, head, tail_cache, tail, head_cache] \<and>
           cache_lines L (addr + head) int64_type = {consumer_line} \<and>
           cache_lines L (addr + tail_cache) int64_type = {consumer_line} \<and>
           cache_lines L (addr + tail) int64_type = {producer_line} \<and>
           cache_lines L (addr + head_cache) int64_type = {producer_line} \<and>
           consumer_line \<noteq> producer_line \<and>
           (\<forall>i < C. let slot = \<lambda>i. cache_lines L (addr + buf + i * type_size (Slot_type L T)) (Slot_type L T)
              in consumer_line \<notin> slot i \<and> producer_line \<notin> slot i \<and>
                 (\<forall>j < C. i \<noteq> j \<longrightarrow> slot i \<inter> slot j = {}))"
proof -
  let ?S = "type_size (Slot_type L T)"
  let ?B = "C * ?S"
  note slot = Slot_type_layout [OF T, of apple, folded L_def]
  note off = SpscQueue_offsets [OF T, where apple = apple and C = C, folded L_def]
  have L: "0 < L" "16 \<le> L" using line_size [of apple] by (auto simp: L_def)
  have a: "L dvd addr" using dvd_trans [OF off(2) addr] .
  then have B: "L dvd addr + ?B" "L dvd addr + ?B + L" "\<And>i. L dvd addr + i * ?S" using slot(2) by simp_all
  let ?c = "(addr + ?B) div L" and ?p = "(addr + ?B + L) div L"
  have cp: "?c < ?p" using aligned_less_line [OF L(1) B(1,2)] L(1) by simp
  have lines: "cache_lines L (addr + ?B) int64_type = {?c}" "cache_lines L (addr + (?B + 8)) int64_type = {?c}"
    "cache_lines L (addr + (?B + L)) int64_type = {?p}" "cache_lines L (addr + (?B + L + 8)) int64_type = {?p}"
    using one_line [OF B(1), of 0 int64_type] one_line [OF B(1), of 8 int64_type]
      one_line [OF B(2), of 0 int64_type] one_line [OF B(2), of 8 int64_type] L(2)
    by (simp_all add: int64_type_def add.assoc)
  let ?slot = "\<lambda>i. cache_lines L (addr + 0 + i * ?S) (Slot_type L T)"
  have below: "l < (addr + j * ?S) div L" if "i < j" "l \<in> ?slot i" for i j l
  proof -
    have "Suc i * ?S \<le> j * ?S" using that(1) by (intro mult_le_mono1) simp
    with lines_below [OF L(1) B(3), of "addr + i * ?S" "Slot_type L T" j l] slot(3) that(2) show ?thesis by simp
  qed
  have above: "(addr + i * ?S) div L \<le> l" if "l \<in> ?slot i" for i l
    using that by (simp add: cache_lines_def)
  have disjoint: "?slot i \<inter> ?slot j = {}" if "i < j" for i j
    using below [OF that] above [of _ j] by fastforce
  have all: "?c \<notin> ?slot i \<and> ?p \<notin> ?slot i \<and> (\<forall>j < C. i \<noteq> j \<longrightarrow> ?slot i \<inter> ?slot j = {})" if "i < C" for i
  proof (intro conjI allI impI)
    show "?c \<notin> ?slot i" using below [OF that, of ?c] by blast
    show "?p \<notin> ?slot i" using below [OF that, of ?p] cp by fastforce
    show "?slot i \<inter> ?slot j = {}" if "i \<noteq> j" for j
      using disjoint [of i j] disjoint [of j i] that by (cases "i < j") (simp_all add: Int_commute)
  qed
  show ?thesis
    unfolding Let_def
  proof (intro exI conjI)
    show "member_offsets (SpscQueue_members L C T) = [0, ?B, ?B + 8, ?B + L, ?B + L + 8]" by (rule off(1))
    show "\<forall>i < C. ?c \<notin> ?slot i \<and> ?p \<notin> ?slot i \<and> (\<forall>j < C. i \<noteq> j \<longrightarrow> ?slot i \<inter> ?slot j = {})"
      using all by blast
  qed (rule lines cp [THEN less_imp_neq])+
qed

theorem spsc_members_do_not_share_lines_witness:
  "\<exists>buf head tail_cache tail head_cache.
     member_offsets (SpscQueue_members 64 4 int32_type) = [buf, head, tail_cache, tail, head_cache] \<and>
     cache_lines 64 (4096 + head) int64_type = cache_lines 64 (4096 + tail_cache) int64_type \<and>
     cache_lines 64 (4096 + head) int64_type \<inter> cache_lines 64 (4096 + tail) int64_type = {}"
proof -
  have "type_align (SpscQueue_type 64 4 int32_type) = 64" by code_simp
  then have "type_align (SpscQueue_type (CACHE_LINE_SIZE False) 4 int32_type) dvd 4096"
    by (simp add: CACHE_LINE_SIZE_def)
  moreover have "type_ok int32_type"
    by (auto simp: type_ok_def int32_type_def intro: exI [of _ 2])
  ultimately show ?thesis
    using spsc_members_do_not_share_lines [of int32_type False 4 4096] by (fastforce simp: CACHE_LINE_SIZE_def)
qed

text \<open>
  Property C39. The two benchmarks of \<open>spsc_bench\<close> run on queues of the same layout, because
  \<open>SpscQueue\<close> aligns its slots itself: the mode printed as \<open>Item (shared cacheline)\<close> does not
  share lines between items, unlike a plain array of \<open>Item\<close> would.
\<close>

theorem item_and_padded_item_same_layout:
  fixes apple :: bool
  defines "L \<equiv> CACHE_LINE_SIZE apple"
  shows "Slot_type L Item_type = Slot_type L (PaddedItem_type L) \<and>
         SpscQueue_type L C Item_type = SpscQueue_type L C (PaddedItem_type L) \<and>
         member_offsets (SpscQueue_members L C Item_type) = member_offsets (SpscQueue_members L C (PaddedItem_type L)) \<and>
         type_size (Slot_type L Item_type) = L \<and> type_size Item_type = 4"
proof -
  have "L = 64 \<or> L = 128" using line_size [of apple] by (auto simp: L_def)
  then have slot: "Slot_type L Item_type = \<lparr>type_size = L, type_align = L\<rparr>"
    "Slot_type L (PaddedItem_type L) = \<lparr>type_size = L, type_align = L\<rparr>"
    by (auto simp: Slot_type_def Item_type_def PaddedItem_type_def class_type_def class_align_def
        int32_type_def round_up_def)
  have "type_size Item_type = 4"
    by (simp add: Item_type_def class_type_def class_align_def int32_type_def round_up_def)
  with slot show ?thesis by (simp add: SpscQueue_type_def SpscQueue_members_def)
qed

text \<open>
  Property C38. The two modes of \<open>pingpong_bench\<close>: \<open>Padded\<close> puts flag and counter on different
  lines wherever it lies, but \<open>Packed\<close> has the alignment of an \<open>int\<close> only: at exactly one of the
  addresses allowed within a line, its last four bytes, flag and counter are on different lines in
  the mode that announces the same one.
\<close>

theorem pingpong_lines:
  fixes apple :: bool
  defines "L \<equiv> CACHE_LINE_SIZE apple"
  shows "member_offsets Packed_members = [0, 4] \<and> member_offsets (Padded_members L) = [0, L] \<and>
         (\<forall>addr. type_align (Padded_type L) dvd addr \<longrightarrow>
            cache_lines L addr int32_type \<inter> cache_lines L (addr + L) int32_type = {}) \<and>
         (\<forall>addr. type_align Packed_type dvd addr \<longrightarrow>
            (cache_lines L addr int32_type = cache_lines L (addr + 4) int32_type \<longleftrightarrow> addr mod L \<noteq> L - 4))"
proof -
  have L: "L = 64 \<or> L = 128" using line_size [of apple] by (auto simp: L_def)
  have off: "member_offsets Packed_members = [0, 4]" "member_offsets (Padded_members L) = [0, L]"
    using L by (auto simp: member_offsets_def Packed_members_def Padded_members_def int32_type_def round_up_def)
  have align: "type_align (Padded_type L) = L" "type_align Packed_type = 4"
    using L by (auto simp: Padded_type_def Packed_type_def Padded_members_def Packed_members_def
        class_type_def class_align_def int32_type_def)
  have padded: "cache_lines L addr int32_type \<inter> cache_lines L (addr + L) int32_type = {}" if "L dvd addr" for addr
    using one_line [OF that, of 0 int32_type] one_line [of L "addr + L" 0 int32_type] that L
    by (auto simp: int32_type_def)
  have packed: "cache_lines L addr int32_type = cache_lines L (addr + 4) int32_type \<longleftrightarrow> addr mod L \<noteq> L - 4"
    if "4 dvd addr" for addr
  proof -
    have four: "4 dvd L" "8 \<le> L" using L by auto
    define q r where "q = addr div L" and "r = addr mod L"
    have addr: "addr = q * L + r" "r < L" using four by (simp_all add: q_def r_def)
    have r4: "4 dvd r" using that four by (simp add: r_def dvd_mod)
    have r: "r \<le> L - 4" using r4 four addr(2) by (auto elim!: dvdE)
    show ?thesis
    proof (cases "r = L - 4")
      case True
      have "cache_lines L (q * L + r) int32_type = {q * L div L}"
        by (rule one_line) (use True four in \<open>simp_all add: int32_type_def\<close>)
      moreover have "cache_lines L ((q * L + L) + 0) int32_type = {(q * L + L) div L}"
        by (rule one_line) (use four in \<open>simp_all add: int32_type_def\<close>)
      moreover have "addr + 4 = q * L + L" using addr True four by simp
      moreover have "q * L div L \<noteq> (q * L + L) div L" using four by simp
      ultimately have "cache_lines L addr int32_type \<noteq> cache_lines L (addr + 4) int32_type"
        by (simp only: addr(1)) simp
      then show ?thesis using True by (simp add: r_def)
    next
      case False
      then have r': "r + 8 \<le> L" using r r4 four by presburger
      have "cache_lines L (q * L + r) int32_type = {q * L div L}"
        "cache_lines L (q * L + (r + 4)) int32_type = {q * L div L}"
        by (rule one_line; use r' in \<open>simp add: int32_type_def\<close>)+
      then show ?thesis using addr False by (simp add: add.assoc)
    qed
  qed
  show ?thesis using off padded packed by (simp add: align)
qed

theorem pingpong_lines_witness:
  "type_align Packed_type dvd 60 \<and>
   cache_lines 64 60 int32_type \<noteq> cache_lines 64 (60 + 4) int32_type \<and>
   cache_lines 64 0 int32_type \<inter> cache_lines 64 (0 + 64) int32_type = {}"
proof -
  have align: "type_align Packed_type dvd 60" "type_align (Padded_type 64) dvd 0" by code_simp+
  note lines = pingpong_lines [of False, unfolded CACHE_LINE_SIZE_def if_False]
  have "cache_lines 64 60 int32_type \<noteq> cache_lines 64 (60 + 4) int32_type"
    using lines [THEN conjunct2, THEN conjunct2, THEN conjunct2, rule_format, OF align(1)] by simp
  moreover have "cache_lines 64 0 int32_type \<inter> cache_lines 64 (0 + 64) int32_type = {}"
    using lines [THEN conjunct2, THEN conjunct2, THEN conjunct1, rule_format, OF align(2)] .
  ultimately show ?thesis using align(1) by blast
qed

text \<open>
  The two sharded variants of \<open>counter_bench\<close>: the four counters of
  \<open>aligned_atomic_vector\<close> are all on one line, those of the vector of \<open>single_aligned_atomic\<close> on
  four different ones.
\<close>

theorem counter_lines:
  fixes apple :: bool
  defines "L \<equiv> CACHE_LINE_SIZE apple"
  assumes "L dvd addr" and "i < 4" and "j < 4"
  shows "cache_lines L (addr + i * type_size int64_type) int64_type = {addr div L} \<and>
         type_align (aligned_atomic_vector_type L) = L \<and> type_align (single_aligned_atomic_type L) = L \<and>
         (i \<noteq> j \<longrightarrow>
           cache_lines L (addr + i * type_size (single_aligned_atomic_type L)) int64_type \<inter>
           cache_lines L (addr + j * type_size (single_aligned_atomic_type L)) int64_type = {})"
proof -
  have L: "L = 64 \<or> L = 128" using line_size [of apple] by (auto simp: L_def)
  have align: "type_align (aligned_atomic_vector_type L) = L" "type_align (single_aligned_atomic_type L) = L"
    using L by (auto simp: aligned_atomic_vector_type_def single_aligned_atomic_type_def class_type_def
        class_align_def array_type_def int64_type_def)
  have size: "type_size (single_aligned_atomic_type L) = L"
    using L by (auto simp: single_aligned_atomic_type_def class_type_def class_align_def int64_type_def round_up_def)
  have shared: "cache_lines L (addr + i * type_size int64_type) int64_type = {addr div L}"
    using assms(2,3) L by (intro one_line) (auto simp: int64_type_def)
  have own: "cache_lines L (addr + k * L) int64_type = {addr div L + k}" for k
    using one_line [of L "addr + k * L" 0 int64_type] assms(2) L by (auto simp: int64_type_def div_plus_div_distrib_dvd_left)
  show ?thesis using align shared by (simp add: size own)
qed

theorem counter_lines_witness:
  "cache_lines 64 (128 + 3 * type_size int64_type) int64_type = {2} \<and>
   cache_lines 64 (128 + 0 * type_size (single_aligned_atomic_type 64)) int64_type \<inter>
   cache_lines 64 (128 + 3 * type_size (single_aligned_atomic_type 64)) int64_type = {}"
  using counter_lines [of False 128 0 3] counter_lines [of False 128 3 0] by (simp add: CACHE_LINE_SIZE_def)

end
