(* ===== verification/Counter_Bench.thy ===== *)
theory Counter_Bench
  imports Cxx_Memory Bench_Utils
begin

text \<open>
  \<open>bench/counter_bench.cpp\<close>: four ways for several threads to count together - a plain
  counter under \<open>std::mutex\<close>, one atomic counter, and one atomic counter a thread, unpadded
  and padded - and \<open>run_and_report\<close>, which times each and checks the count.  All orders are
  relaxed: that the sums are exact rests on the joins.  \<open>T\<close> is \<open>NUM_THREADS\<close> and \<open>K\<close> is
  \<open>THREAD_INCREMENT_COUNT\<close>; the thread that runs the variant is thread \<open>T\<close>.
\<close>

definition TOTAL_INCREMENTS :: nat where "TOTAL_INCREMENTS = 10000000"
definition COUNTER_THREADS :: nat where "COUNTER_THREADS = 4"
definition THREAD_INCREMENT_COUNT :: nat where
  "THREAD_INCREMENT_COUNT = TOTAL_INCREMENTS div COUNTER_THREADS"

text \<open>
  Where the function that runs a variant stands after starting the threads: about to join
  thread \<open>i\<close>, about to load its counter, or returned.  The second component is \<open>counter_sum\<close>.
\<close>

datatype counter_main = Joining nat i64 | Loading nat i64 | Returned i64

section \<open>The mutex variant\<close>

text \<open>
  A thread is at the head of its loop, where it constructs the guard; at the read and the
  write of \<open>counter += 1\<close>; or at the end of the body, where the guard unlocks.
\<close>

datatype mutex_pc = X_Lock | X_Read | X_Write i64 | X_Unlock

record mutex_run =
  xmem :: "(unit, unit, i64, unit) memory"
  xmutex :: "unit mutex"
  xpc :: "tid \<Rightarrow> mutex_pc"
  xn :: "tid \<Rightarrow> nat"
  xmain :: counter_main

definition mutex_run_init :: mutex_run where
  "mutex_run_init =
     \<lparr>xmem = mem_init (\<lambda>_. ()) (\<lambda>_. 0), xmutex = mutex_init, xpc = (\<lambda>_. X_Lock), xn = (\<lambda>_. 0),
      xmain = Joining 0 0\<rparr>"

definition increment_counter_mutex :: "nat \<Rightarrow> tid \<Rightarrow> mutex_run \<Rightarrow> mutex_run option" where
  "increment_counter_mutex K t s =
     (case xpc s t of
        X_Lock \<Rightarrow>
          if xn s t < K then
            (case m_lock t (xmutex s) (xmem s) of
               None \<Rightarrow> None
             | Some (l, m) \<Rightarrow> Some (s\<lparr>xmem := m, xmutex := l, xpc := (xpc s)(t := X_Read)\<rparr>))
          else None
      | X_Read \<Rightarrow>
          (let (v, m) = na_read t () (xmem s)
           in Some (s\<lparr>xmem := m, xpc := (xpc s)(t := X_Write v)\<rparr>))
      | X_Write v \<Rightarrow> Some (s\<lparr>xmem := na_write t () (v + 1) (xmem s), xpc := (xpc s)(t := X_Unlock)\<rparr>)
      | X_Unlock \<Rightarrow>
          Some (s\<lparr>xmutex := m_unlock t (xmutex s) (xmem s), xpc := (xpc s)(t := X_Lock),
                 xn := (xn s)(t := Suc (xn s t))\<rparr>))"

text \<open>A thread whose loop has ended can be joined; then the plain counter is returned.\<close>

definition run_mutex_variant :: "nat \<Rightarrow> nat \<Rightarrow> mutex_run \<Rightarrow> mutex_run option" where
  "run_mutex_variant T K s =
     (case xmain s of
        Joining i x \<Rightarrow>
          if i < T then
            (if xpc s i = X_Lock \<and> xn s i = K
             then Some (s\<lparr>xmem := t_join T i (xmem s), xmain := Joining (Suc i) x\<rparr>) else None)
          else
            (let (v, m) = na_read T () (xmem s) in Some (s\<lparr>xmem := m, xmain := Returned v\<rparr>))
      | _ \<Rightarrow> None)"

datatype mutex_choice = Mutex_Thread tid | Mutex_Main

definition mutex_next :: "nat \<Rightarrow> nat \<Rightarrow> mutex_choice \<Rightarrow> mutex_run \<Rightarrow> mutex_run option" where
  "mutex_next T K c s =
     (case c of
        Mutex_Thread t \<Rightarrow> if t < T then increment_counter_mutex K t s else None
      | Mutex_Main \<Rightarrow> run_mutex_variant T K s)"

text \<open>Increments of the counter a thread has made.\<close>

definition x_count :: "mutex_run \<Rightarrow> tid \<Rightarrow> nat" where
  "x_count s t = xn s t + (if xpc s t = X_Unlock then 1 else 0)"

text \<open>
  The counter holds what the threads have added.  If the mutex is free, no thread is inside and
  the mutex knows every access (until the variant's own read at the end); else only the owner is inside and knows every access itself.
\<close>

definition guard_inv :: "nat \<Rightarrow> nat \<Rightarrow> mutex_run \<Rightarrow> bool" where
  "guard_inv T K s \<longleftrightarrow>
     (case owner (xmutex s) of
        None \<Rightarrow> (\<forall>t<T. xpc s t = X_Lock) \<and>
          (knows (xmem s) (released (xmutex s)) \<or> (\<exists>v. xmain s = Returned v))
      | Some h \<Rightarrow> h < T \<and> xpc s h \<noteq> X_Lock \<and> xn s h < K \<and> (\<forall>u<T. u \<noteq> h \<longrightarrow> xpc s u = X_Lock) \<and>
                  knows (xmem s) (tview (xmem s) h))"

definition sum_inv :: "nat \<Rightarrow> nat \<Rightarrow> mutex_run \<Rightarrow> bool" where
  "sum_inv T K s \<longleftrightarrow>
     mem_ok (xmem s) \<and> view_ok (xmem s) (released (xmutex s)) \<and>
     \<not> race (xmem s) \<and> made_by {..T} (xmem s) \<and>
     cell (xmem s) () = of_nat (\<Sum>t<T. x_count s t) \<and>
     (\<forall>t<T. xn s t \<le> K \<and> (\<forall>v. xpc s t = X_Write v \<longrightarrow> v = cell (xmem s) ()))"

definition joined_inv :: "nat \<Rightarrow> nat \<Rightarrow> mutex_run \<Rightarrow> bool" where
  "joined_inv T K s \<longleftrightarrow>
     (case xmain s of
        Joining i x \<Rightarrow> i \<le> T \<and>
          (\<forall>j<i. xpc s j = X_Lock \<and> xn s j = K \<and> clock (tview (xmem s) j) j \<le> clock (tview (xmem s) T) j)
      | Loading i x \<Rightarrow> False
      | Returned v \<Rightarrow> v = of_nat (T * K) \<and> (\<forall>j<T. xpc s j = X_Lock \<and> xn s j = K))"

definition mutex_inv :: "nat \<Rightarrow> nat \<Rightarrow> mutex_run \<Rightarrow> bool" where
  "mutex_inv T K s \<longleftrightarrow> guard_inv T K s \<and> sum_inv T K s \<and> joined_inv T K s"

lemma mutex_inv_init: "mutex_inv T K mutex_run_init"
  by (simp add: mutex_inv_def guard_inv_def sum_inv_def joined_inv_def mutex_run_init_def mutex_init_def
      mem_ok_init knows_init made_by_init view_ok_def x_count_def)

text \<open>A thread that is not at the end of its loop has not been joined.\<close>

lemma joined_inv_frame:
  assumes "joined_inv T K s" and "t < T" and "xpc s t \<noteq> X_Lock \<or> xn s t < K"
    and "\<And>u. u \<noteq> t \<Longrightarrow> xpc s' u = xpc s u \<and> xn s' u = xn s u \<and> tview (xmem s') u = tview (xmem s) u"
    and "xmain s' = xmain s"
  shows "joined_inv T K s'"
proof -
  obtain i x where i: "xmain s = Joining i x" "t \<notin> {..<i}"
    using assms(1-3) by (cases "xmain s") (auto simp: joined_inv_def)
  have "xpc s' j = xpc s j \<and> xn s' j = xn s j \<and> tview (xmem s') j = tview (xmem s) j" if "j < i \<or> j = T" for j
    using assms(2,4) i(2) that by (intro assms(4)) auto
  then show ?thesis using assms(1,5) i(1) by (simp add: joined_inv_def)
qed

lemma joined_inv_facts:
  assumes "mutex_inv T K s" and "xmain s = Joining T x"
  shows "knows (xmem s) (tview (xmem s) T)" and "cell (xmem s) () = of_nat (T * K)"
proof -
  have j: "\<forall>j<T. xpc s j = X_Lock \<and> xn s j = K \<and> clock (tview (xmem s) j) j \<le> clock (tview (xmem s) T) j"
    using assms by (simp add: mutex_inv_def joined_inv_def)
  have made: "made_by {..T} (xmem s)" using assms(1) by (simp add: mutex_inv_def sum_inv_def)
  show "knows (xmem s) (tview (xmem s) T)"
    by (rule made_by_knows [OF made]) (use j in \<open>auto simp: le_less\<close>)
  have "(\<Sum>t<T. x_count s t) = (\<Sum>t<T. K)" using j by (intro sum_keep) (simp add: x_count_def)
  then show "cell (xmem s) () = of_nat (T * K)"
    using assms(1) by (simp add: mutex_inv_def sum_inv_def)
qed

lemma mutex_lock_inv:
  assumes inv: "mutex_inv T K s" and t: "t < T" and pc: "xpc s t = X_Lock" "xn s t < K"
    and lock: "m_lock t (xmutex s) (xmem s) = Some (l, m)"
  shows "mutex_inv T K (s\<lparr>xmem := m, xmutex := l, xpc := (xpc s)(t := X_Read)\<rparr>)" (is "mutex_inv T K ?s")
proof -
  have i: "guard_inv T K s" "sum_inv T K s" "joined_inv T K s" using inv by (simp_all add: mutex_inv_def)
  from lock have o: "owner (xmutex s) = None" and l: "l = (xmutex s)\<lparr>owner := Some t\<rparr>"
    and m: "m = set_tview t (vjoin (tview (xmem s) t) (released (xmutex s))) (xmem s)"
    by (auto simp: m_lock_def split: if_splits)
  have "xmain s \<noteq> Returned v" for v using i(3) t pc(2) by (auto simp: joined_inv_def)
  then have g: "\<forall>u<T. xpc s u = X_Lock" "knows (xmem s) (released (xmutex s))"
    using i(1) o by (simp_all add: guard_inv_def)
  have acc: "accesses m = accesses (xmem s)" by (rule accesses_same) (simp_all add: m)
  have "knows m (tview m t)"
    using knows_mono [OF g(2), of "tview m t"] acc by (simp add: m knows_def)
  then have "guard_inv T K ?s" using g(1) t pc by (simp add: guard_inv_def l)
  moreover have "sum_inv T K ?s"
  proof -
    have "mem_ok m" using m_lock_ok [OF _ _ lock] i(2) by (simp add: sum_inv_def)
    moreover have "made_by {..T} m"
      by (rule made_by_extends [of _ "xmem s"]) (use i(2) acc in \<open>simp_all add: sum_inv_def m\<close>)
    moreover have "(\<Sum>u<T. x_count ?s u) = (\<Sum>u<T. x_count s u)"
      by (rule sum_keep) (use pc in \<open>simp add: x_count_def\<close>)
    moreover have "view_ok m (released (xmutex s))"
      by (rule view_ok_extends [of "xmem s"]) (use i(2) in \<open>simp_all add: sum_inv_def m mem_extends_def\<close>)
    ultimately show ?thesis using i(2) g(1) by (simp add: sum_inv_def m l)
  qed
  moreover have "joined_inv T K ?s"
    by (rule joined_inv_frame [OF i(3) t]) (use pc in \<open>simp_all add: m\<close>)
  ultimately show ?thesis by (simp add: mutex_inv_def)
qed

text \<open>A plain access of the counter by the owner of the mutex.\<close>

lemma mutex_access_inv:
  assumes inv: "mutex_inv T K s" and t: "t < T" "xpc s t \<noteq> X_Lock" "p \<noteq> X_Lock"
    and m: "m = snd (na_read t () (xmem s)) \<or> m = na_write t () v (xmem s)"
    and s': "s' = s\<lparr>xmem := m, xpc := (xpc s)(t := p)\<rparr>"
    and val: "cell m () = of_nat (\<Sum>u<T. x_count s' u)" "\<And>v. p = X_Write v \<Longrightarrow> v = cell m ()"
  shows "mutex_inv T K s'"
proof -
  have i: "guard_inv T K s" "sum_inv T K s" "joined_inv T K s" using inv by (simp_all add: mutex_inv_def)
  have o: "owner (xmutex s) = Some t" using i(1) t by (auto simp: guard_inv_def split: option.splits)
  have g: "knows (xmem s) (tview (xmem s) t)" "xn s t < K" "\<forall>u<T. u \<noteq> t \<longrightarrow> xpc s u = X_Lock"
    using i(1) o by (simp_all add: guard_inv_def)
  have made: "made_by {..T} (xmem s)" and ok: "mem_ok (xmem s)" using i(2) by (simp_all add: sum_inv_def)
  have view: "tview m u = (if u = t then tick t (tview (xmem s) t) else tview (xmem s) u)" for u
    using m by auto
  have "accesses m \<subseteq> insert (t, Suc (clock (tview (xmem s) t) t)) (accesses (xmem s))"
    using m accesses_na_read [of t "()" "xmem s"] accesses_na_write [of t "()" v "xmem s"] by blast
  then have "knows m (tview m t)" using knows_tick [OF g(1)] view by simp
  then have "guard_inv T K s'" using g o t by (simp add: guard_inv_def s')
  moreover have "mem_ok m" using m ok na_read_ok [of "xmem s" t "()"] na_write_ok [of "xmem s" t "()" v] by blast
  moreover have "view_ok m (released (xmutex s))"
    by (rule view_ok_extends [of "xmem s"])
      (use i(2) m in \<open>auto simp: sum_inv_def mem_extends_def\<close>)
  moreover have "\<not> race m" using m knows_no_race [OF g(1)] i(2) by (auto simp: sum_inv_def)
  moreover have "made_by {..T} m"
    using m t(1) made_by_na_read [OF made, of t "()"] made_by_na_write [OF made, of t "()" v] by auto
  moreover have "v = cell m ()" if "u < T" "xpc s' u = X_Write v" for u v
    using that g(3) val(2) by (cases "u = t") (auto simp: s')
  then have "\<forall>u<T. xn s' u \<le> K \<and> (\<forall>v. xpc s' u = X_Write v \<longrightarrow> v = cell m ())"
    using i(2) by (simp add: sum_inv_def s')
  ultimately have "guard_inv T K s' \<and> sum_inv T K s'"
    using val(1) by (simp add: sum_inv_def s')
  moreover have "joined_inv T K s'"
    by (rule joined_inv_frame [OF i(3) t(1)]) (use t(2) view in \<open>simp_all add: s'\<close>)
  ultimately show ?thesis by (simp add: mutex_inv_def)
qed

lemma mutex_unlock_inv:
  assumes inv: "mutex_inv T K s" and t: "t < T" and pc: "xpc s t = X_Unlock"
  shows "mutex_inv T K (s\<lparr>xmutex := m_unlock t (xmutex s) (xmem s), xpc := (xpc s)(t := X_Lock),
           xn := (xn s)(t := Suc (xn s t))\<rparr>)" (is "mutex_inv T K ?s")
proof -
  have i: "guard_inv T K s" "sum_inv T K s" "joined_inv T K s" using inv by (simp_all add: mutex_inv_def)
  have o: "owner (xmutex s) = Some t" using i(1) t pc by (auto simp: guard_inv_def split: option.splits)
  have g: "knows (xmem s) (tview (xmem s) t)" "xn s t < K" "\<forall>u<T. u \<noteq> t \<longrightarrow> xpc s u = X_Lock"
    using i(1) o by (simp_all add: guard_inv_def)
  have "guard_inv T K ?s" using g by (simp add: guard_inv_def m_unlock_def)
  moreover have "(\<Sum>u<T. x_count ?s u) = (\<Sum>u<T. x_count s u)"
    by (rule sum_keep) (use pc in \<open>simp add: x_count_def\<close>)
  then have "sum_inv T K ?s"
    using i(2) g mem_ok_tview [of "xmem s" t] by (auto simp: sum_inv_def m_unlock_def)
  moreover have "joined_inv T K ?s"
    by (rule joined_inv_frame [OF i(3) t]) (use pc in simp_all)
  ultimately show ?thesis by (simp add: mutex_inv_def)
qed

lemma increment_counter_mutex_inv:
  assumes inv: "mutex_inv T K s" and t: "t < T" and step: "increment_counter_mutex K t s = Some s'"
  shows "mutex_inv T K s'"
proof (cases "xpc s t")
  case X_Lock
  then obtain l m where "xn s t < K" "m_lock t (xmutex s) (xmem s) = Some (l, m)"
    "s' = s\<lparr>xmem := m, xmutex := l, xpc := (xpc s)(t := X_Read)\<rparr>"
    using step by (auto simp: increment_counter_mutex_def split: if_splits option.splits)
  with mutex_lock_inv [OF inv t X_Lock] show ?thesis by simp
next
  case X_Read
  let ?m = "snd (na_read t () (xmem s))"
  have s': "s' = s\<lparr>xmem := ?m, xpc := (xpc s)(t := X_Write (cell (xmem s) ()))\<rparr>"
    using step X_Read by (simp add: increment_counter_mutex_def split_beta)
  have "(\<Sum>u<T. x_count s' u) = (\<Sum>u<T. x_count s u)"
    by (rule sum_keep) (use X_Read in \<open>simp add: x_count_def s'\<close>)
  then show ?thesis
    using inv by (intro mutex_access_inv [OF inv t _ _ _ s']) (simp_all add: X_Read mutex_inv_def sum_inv_def)
next
  case (X_Write v)
  then have s': "s' = s\<lparr>xmem := na_write t () (v + 1) (xmem s), xpc := (xpc s)(t := X_Unlock)\<rparr>"
    using step by (simp add: increment_counter_mutex_def)
  have v: "v = of_nat (\<Sum>u<T. x_count s u)"
    using inv t X_Write by (auto simp: mutex_inv_def sum_inv_def)
  have "(\<Sum>u<T. x_count s' u) = Suc (\<Sum>u<T. x_count s u)"
    by (rule sum_bump [OF t]) (use X_Write in \<open>simp_all add: x_count_def s'\<close>)
  then show ?thesis
    by (intro mutex_access_inv [OF inv t _ _ _ s', where v = "v + 1"]) (simp_all add: X_Write v)
next
  case X_Unlock
  with step mutex_unlock_inv [OF inv t X_Unlock] show ?thesis by (simp add: increment_counter_mutex_def)
qed

lemma run_mutex_variant_inv:
  assumes inv: "mutex_inv T K s" and step: "run_mutex_variant T K s = Some s'"
  shows "mutex_inv T K s'"
proof -
  have i: "guard_inv T K s" "sum_inv T K s" "joined_inv T K s" using inv by (simp_all add: mutex_inv_def)
  obtain k x where k: "xmain s = Joining k x" "k \<le> T"
    using step i(3) by (cases "xmain s") (auto simp: run_mutex_variant_def joined_inv_def)
  show ?thesis
  proof (cases "k < T")
    case True
    with step k have s': "s' = s\<lparr>xmem := t_join T k (xmem s), xmain := Joining (Suc k) x\<rparr>"
      and d: "xpc s k = X_Lock" "xn s k = K"
      by (auto simp: run_mutex_variant_def split: if_splits)
    have acc: "accesses (xmem s') = accesses (xmem s)" by (rule accesses_same) (simp_all add: s')
    have "made_by {..T} (xmem s')"
      by (rule made_by_extends [of _ "xmem s"]) (use i(2) acc in \<open>simp_all add: s' sum_inv_def\<close>)
    moreover have "view_ok (xmem s') (released (xmutex s))"
      by (rule view_ok_extends [of "xmem s"]) (use i(2) in \<open>simp_all add: s' sum_inv_def mem_extends_def\<close>)
    ultimately have "sum_inv T K s'"
      using i(2) t_join_ok by (auto simp: s' sum_inv_def x_count_def)
    moreover have "guard_inv T K s'"
      using i(1) acc k(1) by (auto simp: guard_inv_def knows_def s' split: option.splits)
    moreover have "joined_inv T K s'"
      using i(3) k d True by (auto simp: joined_inv_def s' less_Suc_eq le_max_iff_disj)
    ultimately show ?thesis by (simp add: mutex_inv_def)
  next
    case False
    with k have kT: "xmain s = Joining T x" by simp
    note f = joined_inv_facts [OF inv kT]
    let ?m = "snd (na_read T () (xmem s))"
    have s': "s' = s\<lparr>xmem := ?m, xmain := Returned (cell (xmem s) ())\<rparr>"
      using step kT by (simp add: run_mutex_variant_def split_beta)
    have lock: "\<forall>t<T. xpc s t = X_Lock \<and> xn s t = K" using i(3) kT by (simp add: joined_inv_def)
    then have free: "owner (xmutex s) = None" using i(1) by (auto simp: guard_inv_def split: option.splits)
    have "guard_inv T K s'" using free lock by (simp add: guard_inv_def s')
    moreover have "mem_ok ?m" "made_by {..T} ?m" "\<not> race ?m"
      using i(2) na_read_ok [of "xmem s" T "()"] made_by_na_read [of "{..T}" "xmem s" T "()"] knows_no_race [OF f(1)]
      by (simp_all add: sum_inv_def)
    moreover have "view_ok ?m (released (xmutex s))"
      by (rule view_ok_extends [of "xmem s"]) (use i(2) in \<open>simp_all add: sum_inv_def mem_extends_def\<close>)
    ultimately have "guard_inv T K s' \<and> sum_inv T K s'"
      using i(2) lock by (simp add: sum_inv_def s' x_count_def)
    moreover have "joined_inv T K s'" using lock f(2) by (simp add: joined_inv_def s')
    ultimately show ?thesis by (simp add: mutex_inv_def)
  qed
qed

text \<open>
  Every step uses up one unit of work: four a loop body (lock, read, write, unlock), one a
  join and one the final read.
\<close>

definition mutex_thread_work :: "nat \<Rightarrow> mutex_run \<Rightarrow> tid \<Rightarrow> nat" where
  "mutex_thread_work K s t =
     4 * (K - xn s t) - (case xpc s t of X_Lock \<Rightarrow> 0 | X_Read \<Rightarrow> 1 | X_Write v \<Rightarrow> 2 | X_Unlock \<Rightarrow> 3)"

definition main_work :: "nat \<Rightarrow> counter_main \<Rightarrow> nat" where
  "main_work T p =
     (case p of Joining i x \<Rightarrow> 2 * (T - i) + 1 | Loading i x \<Rightarrow> 2 * (T - i) | Returned v \<Rightarrow> 0)"

definition mutex_work :: "nat \<Rightarrow> nat \<Rightarrow> mutex_run \<Rightarrow> nat" where
  "mutex_work T K s = (\<Sum>t<T. mutex_thread_work K s t) + main_work T (xmain s)"

lemma mutex_inside:
  assumes "mutex_inv T K s" and "t < T" and "xpc s t \<noteq> X_Lock"
  shows "xn s t < K" and "owner (xmutex s) = Some t"
  using assms by (auto simp: mutex_inv_def guard_inv_def split: option.splits)

lemma mutex_next_work:
  assumes inv: "mutex_inv T K s" and step: "mutex_next T K c s = Some s'"
  shows "mutex_work T K s' < mutex_work T K s"
proof (cases c)
  case (Mutex_Thread t)
  then have t: "t < T" and th: "increment_counter_mutex K t s = Some s'"
    using step by (auto simp: mutex_next_def split: if_splits)
  have "xpc s t \<noteq> X_Lock \<Longrightarrow> xn s t < K" using mutex_inside [OF inv t] by blast
  with th have f: "mutex_thread_work K s' t < mutex_thread_work K s t \<and> xmain s' = xmain s \<and>
      (\<forall>u. u \<noteq> t \<longrightarrow> mutex_thread_work K s' u = mutex_thread_work K s u)"
    by (cases "xpc s t")
      (auto simp: increment_counter_mutex_def mutex_thread_work_def split_beta split: if_splits option.splits)
  then have "(\<Sum>u<T. mutex_thread_work K s' u) < (\<Sum>u<T. mutex_thread_work K s u)"
    by (intro sum_decrease [OF t]) simp_all
  with f show ?thesis by (simp add: mutex_work_def)
next
  case Mutex_Main
  then have m: "run_mutex_variant T K s = Some s'" using step by (simp add: mutex_next_def)
  then have "mutex_thread_work K s' u = mutex_thread_work K s u" "main_work T (xmain s') < main_work T (xmain s)" for u
    by (cases "xmain s"; auto simp: run_mutex_variant_def mutex_thread_work_def main_work_def split_beta
        split: if_splits)+
  then show ?thesis by (simp add: mutex_work_def)
qed

lemma mutex_not_stuck:
  assumes inv: "mutex_inv T K s" and left: "\<nexists>v. xmain s = Returned v"
  shows "\<exists>c s'. mutex_next T K c s = Some s'"
proof (cases "\<forall>t<T. xpc s t = X_Lock \<and> xn s t = K")
  case True
  obtain i x where "xmain s = Joining i x"
    using inv left by (cases "xmain s") (auto simp: mutex_inv_def joined_inv_def)
  then have "\<exists>s'. run_mutex_variant T K s = Some s'"
    using True by (cases "i < T") (simp_all add: run_mutex_variant_def split_beta)
  then show ?thesis by (metis mutex_choice.case(2) mutex_next_def)
next
  case False
  have "\<exists>t<T. \<exists>s'. increment_counter_mutex K t s = Some s'"
  proof (cases "owner (xmutex s)")
    case None
    with inv have free: "\<forall>t<T. xpc s t = X_Lock" by (simp add: mutex_inv_def guard_inv_def)
    with False inv obtain t where "t < T" "xn s t < K"
      by (auto simp: mutex_inv_def sum_inv_def le_less)
    with free None show ?thesis by (auto simp: increment_counter_mutex_def m_lock_def)
  next
    case (Some t)
    with inv have "t < T" "xpc s t \<noteq> X_Lock" by (simp_all add: mutex_inv_def guard_inv_def)
    then have "\<exists>s'. increment_counter_mutex K t s = Some s'"
      by (cases "xpc s t") (simp_all add: increment_counter_mutex_def split_beta)
    with \<open>t < T\<close> show ?thesis by blast
  qed
  then obtain t s' where "t < T" "increment_counter_mutex K t s = Some s'" by blast
  then show ?thesis by (intro exI [of _ "Mutex_Thread t"] exI [of _ s']) (simp add: mutex_next_def)
qed

lemma mutex_next_inv: "mutex_inv T K s \<Longrightarrow> mutex_next T K c s = Some s' \<Longrightarrow> mutex_inv T K s'"
  by (cases c) (auto simp: mutex_next_def intro: increment_counter_mutex_inv run_mutex_variant_inv split: if_splits)

interpretation mutex_machine: terminating_machine "mutex_next T K" mutex_run_init "mutex_inv T K"
    "mutex_work T K" "\<lambda>s. \<exists>v. xmain s = Returned v" for T K
  by unfold_locales (blast intro: mutex_inv_init mutex_next_inv mutex_next_work mutex_not_stuck)+

text \<open>
  Property C12. The mutex variant always ends, with the exact count: whatever the schedule, no
  more than so many steps are possible, the counter is never accessed in a race, from every
  state on the variant can return, and what it returns is the number of all increments.
\<close>

theorem mutex_variant_counts:
  assumes "run (mutex_next T K) cs mutex_run_init = Some s"
  shows "length cs \<le> 4 * K * T + 2 * T + 1 \<and> \<not> race (xmem s) \<and>
         (\<forall>v. xmain s = Returned v \<longrightarrow> v = of_nat (T * K)) \<and>
         (\<exists>ds t. run (mutex_next T K) ds s = Some t \<and> xmain t = Returned (of_nat (T * K)))"
proof -
  have i: "mutex_inv T K s" by (rule mutex_machine.inv_run [OF assms])
  have ret: "v = of_nat (T * K)" if "mutex_inv T K t" "xmain t = Returned v" for t v
    using that by (simp add: mutex_inv_def joined_inv_def)
  obtain ds t v where t: "run (mutex_next T K) ds s = Some t" "xmain t = Returned v"
    using mutex_machine.run_finishes [OF i] by blast
  have "mutex_inv T K t" by (rule mutex_machine.inv_run_from [OF i t(1)])
  then have "xmain t = Returned (of_nat (T * K))" using ret t(2) by blast
  moreover have "length cs \<le> mutex_work T K mutex_run_init"
    using mutex_machine.run_bound [OF mutex_inv_init assms] by simp
  moreover have "mutex_work T K mutex_run_init = 4 * K * T + 2 * T + 1"
    by (simp add: mutex_work_def mutex_run_init_def mutex_thread_work_def main_work_def)
  ultimately show ?thesis using i ret [OF i] t(1) by (auto simp: mutex_inv_def sum_inv_def)
qed

definition mutex_schedule :: "mutex_choice list" where
  "mutex_schedule = map Mutex_Thread [1, 1, 1, 1, 0, 0, 0]"

theorem mutex_variant_counts_witness:
  "\<exists>s. run (mutex_next 2 3) mutex_schedule mutex_run_init = Some s \<and> \<not> race (xmem s) \<and>
       xpc s 0 = X_Unlock \<and> cell (xmem s) () = 2 \<and>
       (\<exists>ds t. run (mutex_next 2 3) ds s = Some t \<and> xmain t = Returned 6)"
proof -
  have "run_to (mutex_next 2 3) mutex_schedule mutex_run_init (\<lambda>s. xpc s 0 = X_Unlock \<and> cell (xmem s) () = 2)"
    by code_simp
  then obtain s where s: "run (mutex_next 2 3) mutex_schedule mutex_run_init = Some s"
    "xpc s 0 = X_Unlock" "cell (xmem s) () = 2" by (blast dest: run_to_run)
  from mutex_variant_counts [OF s(1)] s show ?thesis by auto
qed

section \<open>The atomic variants\<close>

text \<open>
  The atomic objects: one for all threads, an array of four, or four in a vector, each on a
  cache line of its own.  The memory model does not know cache lines: the padding can only
  change the time a run takes.
\<close>

datatype counter_loc = Single | Shard nat | Padded_Shard nat

datatype variant = Atomic | Sharded_Unpadded | Sharded_Padded

fun counter_of :: "variant \<Rightarrow> tid \<Rightarrow> counter_loc" where
  "counter_of Atomic t = Single"
| "counter_of Sharded_Unpadded t = Shard t"
| "counter_of Sharded_Padded t = Padded_Shard t"

record atomic_run =
  amem :: "(i64, counter_loc, unit, unit) memory"
  an :: "tid \<Rightarrow> nat"
  amain :: counter_main

definition atomic_run_init :: atomic_run where
  "atomic_run_init = \<lparr>amem = mem_init (\<lambda>_. 0) (\<lambda>_. ()), an = (\<lambda>_. 0), amain = Joining 0 0\<rparr>"

definition increment_counter_atomic :: "nat \<Rightarrow> counter_loc \<Rightarrow> tid \<Rightarrow> atomic_run \<Rightarrow> atomic_run option" where
  "increment_counter_atomic K counter t s =
     (if an s t < K
      then Some (s\<lparr>amem := snd (a_fetch_add Relaxed t counter 1 (amem s)), an := (an s)(t := Suc (an s t))\<rparr>)
      else None)"

text \<open>All joins, then one load.\<close>

definition run_atomic_variant :: "nat \<Rightarrow> nat \<Rightarrow> nat \<Rightarrow> atomic_run \<Rightarrow> atomic_run option" where
  "run_atomic_variant T K k s =
     (case amain s of
        Joining i x \<Rightarrow>
          if i < T then
            (if an s i = K
             then Some (s\<lparr>amem := t_join T i (amem s), amain := Joining (Suc i) x\<rparr>) else None)
          else
            (case a_load Relaxed T Single k (amem s) of
               None \<Rightarrow> None
             | Some (v, m) \<Rightarrow> Some (s\<lparr>amem := m, amain := Returned v\<rparr>))
      | _ \<Rightarrow> None)"

text \<open>Join and load in turn, adding up.\<close>

definition run_sharded_unpadded_variant :: "nat \<Rightarrow> nat \<Rightarrow> nat \<Rightarrow> atomic_run \<Rightarrow> atomic_run option" where
  "run_sharded_unpadded_variant T K k s =
     (case amain s of
        Joining i counter_sum \<Rightarrow>
          if i < T then
            (if an s i = K
             then Some (s\<lparr>amem := t_join T i (amem s), amain := Loading i counter_sum\<rparr>) else None)
          else Some (s\<lparr>amain := Returned counter_sum\<rparr>)
      | Loading i counter_sum \<Rightarrow>
          (case a_load Relaxed T (Shard i) k (amem s) of
             None \<Rightarrow> None
           | Some (v, m) \<Rightarrow> Some (s\<lparr>amem := m, amain := Joining (Suc i) (counter_sum + v)\<rparr>))
      | Returned v \<Rightarrow> None)"

definition run_sharded_padded_variant :: "nat \<Rightarrow> nat \<Rightarrow> nat \<Rightarrow> atomic_run \<Rightarrow> atomic_run option" where
  "run_sharded_padded_variant T K k s =
     (case amain s of
        Joining i counter_sum \<Rightarrow>
          if i < T then
            (if an s i = K
             then Some (s\<lparr>amem := t_join T i (amem s), amain := Loading i counter_sum\<rparr>) else None)
          else Some (s\<lparr>amain := Returned counter_sum\<rparr>)
      | Loading i counter_sum \<Rightarrow>
          (case a_load Relaxed T (Padded_Shard i) k (amem s) of
             None \<Rightarrow> None
           | Some (v, m) \<Rightarrow> Some (s\<lparr>amem := m, amain := Joining (Suc i) (counter_sum + v)\<rparr>))
      | Returned v \<Rightarrow> None)"

datatype atomic_choice = Atomic_Thread tid | Atomic_Main nat

definition atomic_next :: "variant \<Rightarrow> nat \<Rightarrow> nat \<Rightarrow> atomic_choice \<Rightarrow> atomic_run \<Rightarrow> atomic_run option" where
  "atomic_next V T K c s =
     (case c of
        Atomic_Thread t \<Rightarrow> if t < T then increment_counter_atomic K (counter_of V t) t s else None
      | Atomic_Main k \<Rightarrow>
          (case V of
             Atomic \<Rightarrow> run_atomic_variant T K k s
           | Sharded_Unpadded \<Rightarrow> run_sharded_unpadded_variant T K k s
           | Sharded_Padded \<Rightarrow> run_sharded_padded_variant T K k s))"

text \<open>
  The \<open>k\<close>th message of a counter has the value \<open>k\<close>, there is one for every increment made on
  it, and the last was made by a thread that uses it.
\<close>

definition hits :: "variant \<Rightarrow> nat \<Rightarrow> atomic_run \<Rightarrow> counter_loc \<Rightarrow> nat" where
  "hits V T s a = (\<Sum>t<T. if counter_of V t = a then an s t else 0)"

definition values_inv :: "variant \<Rightarrow> nat \<Rightarrow> nat \<Rightarrow> atomic_run \<Rightarrow> bool" where
  "values_inv V T K s \<longleftrightarrow>
     mem_ok (amem s) \<and> (\<forall>t<T. an s t \<le> K) \<and>
     (\<forall>a. length (hist (amem s) a) = Suc (hits V T s a)) \<and>
     (\<forall>a k. k < length (hist (amem s) a) \<longrightarrow> mval (hist (amem s) a ! k) = of_nat k) \<and>
     (\<forall>a. hits V T s a = 0 \<or> (\<exists>t<T. counter_of V t = a \<and> seen (tview (amem s) t) a = hits V T s a))"

definition joined :: "nat \<Rightarrow> nat \<Rightarrow> atomic_run \<Rightarrow> nat \<Rightarrow> bool" where
  "joined T K s i \<longleftrightarrow>
     (\<forall>j<i. an s j = K \<and> (\<forall>a. seen (tview (amem s) j) a \<le> seen (tview (amem s) T) a))"

definition collect_inv :: "variant \<Rightarrow> nat \<Rightarrow> nat \<Rightarrow> atomic_run \<Rightarrow> bool" where
  "collect_inv V T K s \<longleftrightarrow>
     (case amain s of
        Joining i x \<Rightarrow> i \<le> T \<and> joined T K s i \<and> x = (if V = Atomic then 0 else of_nat (i * K))
      | Loading i x \<Rightarrow> V \<noteq> Atomic \<and> i < T \<and> joined T K s (Suc i) \<and> x = of_nat (i * K)
      | Returned v \<Rightarrow> v = of_nat (T * K) \<and> joined T K s T)"

definition atomic_inv :: "variant \<Rightarrow> nat \<Rightarrow> nat \<Rightarrow> atomic_run \<Rightarrow> bool" where
  "atomic_inv V T K s \<longleftrightarrow> values_inv V T K s \<and> collect_inv V T K s"

lemma atomic_inv_init: "atomic_inv V T K atomic_run_init"
  by (simp add: atomic_inv_def values_inv_def collect_inv_def atomic_run_init_def mem_ok_init hits_def
      joined_def cong: if_cong)

lemma increment_counter_atomic_inv:
  assumes inv: "atomic_inv V T K s" and t: "t < T"
    and step: "increment_counter_atomic K (counter_of V t) t s = Some s'"
  shows "atomic_inv V T K s'"
proof -
  let ?c = "counter_of V t"
  have i: "values_inv V T K s" "collect_inv V T K s" using inv by (simp_all add: atomic_inv_def)
  have n: "an s t < K"
    and s': "s' = s\<lparr>amem := snd (a_fetch_add Relaxed t ?c 1 (amem s)), an := (an s)(t := Suc (an s t))\<rparr>"
    using step by (auto simp: increment_counter_atomic_def split: if_splits)
  have len: "length (hist (amem s) a) = Suc (hits V T s a)" for a using i(1) by (simp add: values_inv_def)
  have val: "k < length (hist (amem s) a) \<Longrightarrow> mval (hist (amem s) a ! k) = of_nat k" for a k
    using i(1) by (simp add: values_inv_def)
  have last: "mval (last (hist (amem s) ?c)) = of_nat (hits V T s ?c)"
    using val [of "hits V T s ?c" ?c] len [of ?c] by (subst last_conv_nth) auto
  have same: "hits V T s' a = hits V T s a" if "a \<noteq> ?c" for a
    unfolding hits_def by (rule sum_keep) (use that in \<open>simp add: s'\<close>)
  have Suc: "hits V T s' ?c = Suc (hits V T s ?c)"
    unfolding hits_def by (rule sum_bump [OF t]) (simp_all add: s')
  have "values_inv V T K s'"
    unfolding values_inv_def
  proof (intro conjI allI impI)
    show "mem_ok (amem s')" using i(1) by (simp add: s' values_inv_def a_fetch_add_ok)
    show "an s' u \<le> K" if "u < T" for u using i(1) that n by (simp add: s' values_inv_def)
    show "length (hist (amem s') a) = Suc (hits V T s' a)" for a
      using len [of a] same [of a] Suc by (cases "a = ?c") (simp_all add: s' a_fetch_add_def)
    show "mval (hist (amem s') a ! k) = of_nat k" if "k < length (hist (amem s') a)" for a k
      using that val [of k a] last len [of a]
      by (cases "a = ?c") (auto simp: s' a_fetch_add_def nth_append less_Suc_eq)
    show "hits V T s' a = 0 \<or> (\<exists>t<T. counter_of V t = a \<and> seen (tview (amem s') t) a = hits V T s' a)" for a
    proof (cases "a = ?c")
      case True
      then have "seen (tview (amem s') t) a = hits V T s' a"
        using len [of a] Suc by (simp add: s' a_fetch_add_def)
      with t True show ?thesis by blast
    next
      case False
      have "hits V T s a = 0 \<or> (\<exists>u<T. counter_of V u = a \<and> seen (tview (amem s) u) a = hits V T s a)"
        using i(1) by (simp add: values_inv_def)
      then show ?thesis
      proof (elim disjE exE conjE)
        fix u assume u: "u < T" "counter_of V u = a" "seen (tview (amem s) u) a = hits V T s a"
        then have "u \<noteq> t" using False by blast
        with u False have "seen (tview (amem s') u) a = hits V T s' a"
          by (simp add: s' a_fetch_add_def same [OF False, unfolded s' a_fetch_add_def])
        with u show ?thesis by blast
      qed (use same [OF False] in simp)
    qed
  qed
  moreover have "joined T K s' m" if "joined T K s m" for m
    using that n t by (auto simp: joined_def s' a_fetch_add_def split: if_splits)
  then have "collect_inv V T K s'" using i(2) by (cases "amain s") (auto simp: collect_inv_def s')
  ultimately show ?thesis by (simp add: atomic_inv_def)
qed

text \<open>
  A load by the variant's thread, after the joins of all threads that use the counter, reads
  the last message, whatever choice it has.
\<close>

lemma load_after_joins:
  assumes inv: "values_inv V T K s" and j: "joined T K s i" and all: "\<And>t. t < T \<Longrightarrow> counter_of V t = a \<Longrightarrow> t < i"
  shows "a_load Relaxed T a k (amem s) = Some (v, m) \<Longrightarrow> v = of_nat (hits V T s a)"
    and "\<exists>m. a_load Relaxed T a (hits V T s a) (amem s) = Some (of_nat (hits V T s a), m)"
proof -
  have len: "length (hist (amem s) a) = Suc (hits V T s a)"
    and val: "\<And>k. k < length (hist (amem s) a) \<Longrightarrow> mval (hist (amem s) a ! k) = of_nat k"
    and "hits V T s a = 0 \<or> (\<exists>t<T. counter_of V t = a \<and> seen (tview (amem s) t) a = hits V T s a)"
    using inv by (simp_all add: values_inv_def)
  then have "hits V T s a \<le> seen (tview (amem s) T) a"
  proof (elim disjE exE conjE)
    fix t assume t: "t < T" "counter_of V t = a" "seen (tview (amem s) t) a = hits V T s a"
    then have "seen (tview (amem s) t) a \<le> seen (tview (amem s) T) a"
      using j all [OF t(1,2)] unfolding joined_def by blast
    with t(3) show ?thesis by simp
  qed simp
  moreover have "seen (tview (amem s) T) a < length (hist (amem s) a)"
    using inv mem_ok_tview [of "amem s" T] by (simp add: values_inv_def view_ok_def)
  ultimately have seen: "seen (tview (amem s) T) a = hits V T s a" using len by simp
  show "v = of_nat (hits V T s a)" if "a_load Relaxed T a k (amem s) = Some (v, m)"
  proof -
    have "k = hits V T s a" using a_load_newest [OF that] seen len by simp
    then show ?thesis using that val [of k] by (simp add: a_load_Some)
  qed
  show "\<exists>m. a_load Relaxed T a (hits V T s a) (amem s) = Some (of_nat (hits V T s a), m)"
    using val [of "hits V T s a"] seen len by (simp add: a_load_Some)
qed

text \<open>The two sharded variants differ only in where the counters are.\<close>

lemma sharded_main:
  "V \<noteq> Atomic \<Longrightarrow> atomic_next V T K (Atomic_Main k) s =
     (case amain s of
        Joining i counter_sum \<Rightarrow>
          if i < T then
            (if an s i = K
             then Some (s\<lparr>amem := t_join T i (amem s), amain := Loading i counter_sum\<rparr>) else None)
          else Some (s\<lparr>amain := Returned counter_sum\<rparr>)
      | Loading i counter_sum \<Rightarrow>
          (case a_load Relaxed T (counter_of V i) k (amem s) of
             None \<Rightarrow> None
           | Some (v, m) \<Rightarrow> Some (s\<lparr>amem := m, amain := Joining (Suc i) (counter_sum + v)\<rparr>))
      | Returned v \<Rightarrow> None)"
  by (cases V; cases "amain s")
    (simp_all add: atomic_next_def run_sharded_unpadded_variant_def run_sharded_padded_variant_def)

lemma sharded_counter_eq: "V \<noteq> Atomic \<Longrightarrow> counter_of V t = counter_of V u \<longleftrightarrow> t = u"
  by (cases V) simp_all

lemma hits_shard: "V \<noteq> Atomic \<Longrightarrow> i < T \<Longrightarrow> hits V T s (counter_of V i) = an s i"
  by (simp add: hits_def sharded_counter_eq)

lemma hits_single: "joined T K s T \<Longrightarrow> hits Atomic T s Single = T * K"
  by (simp add: hits_def joined_def)

lemma values_inv_frame:
  assumes "values_inv V T K s" and "hist (amem s') = hist (amem s)" and "an s' = an s"
    and "\<And>t. t < T \<Longrightarrow> tview (amem s') t = tview (amem s) t" and "mem_ok (amem s')"
  shows "values_inv V T K s'"
proof -
  have "hits V T s' = hits V T s" by (rule ext) (simp only: hits_def assms(3))
  then show ?thesis using assms by (auto simp: values_inv_def)
qed

lemma values_inv_join:
  assumes "values_inv V T K s" and "j < T"
  shows "values_inv V T K (s\<lparr>amem := t_join T j (amem s), amain := p\<rparr>)"
  by (rule values_inv_frame [OF assms(1)]) (use assms in \<open>simp_all add: values_inv_def t_join_ok\<close>)

lemma joined_join:
  assumes "joined T K s j" and "j < T" and "an s j = K"
  shows "joined T K (s\<lparr>amem := t_join T j (amem s), amain := p\<rparr>) (Suc j)"
  using assms by (auto simp: joined_def less_Suc_eq le_max_iff_disj)

lemma main_load_keeps:
  assumes "values_inv V T K s" and "a_load Relaxed T a k (amem s) = Some (v, m)" and "joined T K s j" "j \<le> T"
  shows "values_inv V T K (s\<lparr>amem := m, amain := p\<rparr>)" "joined T K (s\<lparr>amem := m, amain := p\<rparr>) j"
proof -
  have ok: "mem_ok (amem s)" using assms(1) by (simp add: values_inv_def)
  note l = load_view [OF ok assms(2)]
  show "values_inv V T K (s\<lparr>amem := m, amain := p\<rparr>)"
    by (rule values_inv_frame [OF assms(1)]) (use l(1,6,15) in simp_all)
  show "joined T K (s\<lparr>amem := m, amain := p\<rparr>) j"
    using assms(3,4) l(6) by (auto simp: joined_def intro: order_trans [OF _ l(9)])
qed

lemma atomic_main_inv:
  assumes inv: "atomic_inv V T K s" and step: "atomic_next V T K (Atomic_Main k) s = Some s'"
  shows "atomic_inv V T K s'"
proof -
  have i: "values_inv V T K s" "collect_inv V T K s" using inv by (simp_all add: atomic_inv_def)
  show ?thesis
  proof (cases "amain s")
    case (Joining j x)
    then have j: "j \<le> T" "joined T K s j" "x = (if V = Atomic then 0 else of_nat (j * K))"
      using i(2) by (simp_all add: collect_inv_def)
    show ?thesis
    proof (cases "j < T")
      case True
      then have "an s j = K" "s' = s\<lparr>amem := t_join T j (amem s), amain := if V = Atomic then Joining (Suc j) x else Loading j x\<rparr>"
        using step Joining by (cases V; auto simp: atomic_next_def run_atomic_variant_def
            run_sharded_unpadded_variant_def run_sharded_padded_variant_def split: if_splits)+
      then show ?thesis
        using values_inv_join [OF i(1) True] joined_join [OF j(2) True] True j(3)
        by (cases V) (simp_all add: atomic_inv_def collect_inv_def)
    next
      case False
      then have jT: "joined T K s T" "j = T" using j by simp_all
      show ?thesis
      proof (cases "V = Atomic")
        case True
        then obtain v m where l: "a_load Relaxed T Single k (amem s) = Some (v, m)"
          and s': "s' = s\<lparr>amem := m, amain := Returned v\<rparr>"
          using step Joining False by (auto simp: atomic_next_def run_atomic_variant_def split: option.splits)
        have "v = of_nat (T * K)"
          using load_after_joins(1) [OF i(1) jT(1) _ l] hits_single [OF jT(1)] True by simp
        then show ?thesis
          using main_load_keeps [OF i(1) l jT(1)] by (simp add: atomic_inv_def collect_inv_def s')
      next
        case sharded: False
        then have "s' = s\<lparr>amain := Returned x\<rparr>" using step Joining False by (simp add: sharded_main)
        moreover have "values_inv V T K s'"
          by (rule values_inv_frame [OF i(1)]) (use i(1) calculation in \<open>simp_all add: values_inv_def\<close>)
        ultimately show ?thesis using jT j(3) sharded by (simp add: atomic_inv_def collect_inv_def joined_def)
      qed
    qed
  next
    case (Loading j x)
    then have j: "V \<noteq> Atomic" "j < T" "joined T K s (Suc j)" "x = of_nat (j * K)"
      using i(2) by (simp_all add: collect_inv_def)
    then obtain v m where l: "a_load Relaxed T (counter_of V j) k (amem s) = Some (v, m)"
      and s': "s' = s\<lparr>amem := m, amain := Joining (Suc j) (x + v)\<rparr>"
      using step Loading by (auto simp: sharded_main split: option.splits)
    have "v = of_nat (hits V T s (counter_of V j))"
      by (rule load_after_joins(1) [OF i(1) j(3) _ l]) (use j(1) in \<open>simp add: sharded_counter_eq\<close>)
    then have "v = of_nat K" using j(1-3) by (simp add: hits_shard joined_def)
    then have "x + v = of_nat (Suc j * K)" using j(4) by (simp add: algebra_simps)
    then show ?thesis
      using main_load_keeps [OF i(1) l j(3)] j(1,2) by (simp add: atomic_inv_def collect_inv_def s')
  next
    case (Returned v)
    then show ?thesis
      using step by (cases V) (simp_all add: atomic_next_def run_atomic_variant_def
          run_sharded_unpadded_variant_def run_sharded_padded_variant_def)
  qed
qed

lemma atomic_next_inv:
  assumes "atomic_inv V T K s" and "atomic_next V T K c s = Some s'"
  shows "atomic_inv V T K s'"
proof (cases c)
  case (Atomic_Thread t)
  with assms increment_counter_atomic_inv [OF assms(1)] show ?thesis
    by (auto simp: atomic_next_def split: if_splits)
next
  case (Atomic_Main k)
  with assms atomic_main_inv show ?thesis by blast
qed

definition atomic_work :: "nat \<Rightarrow> nat \<Rightarrow> atomic_run \<Rightarrow> nat" where
  "atomic_work T K s = (\<Sum>t<T. K - an s t) + main_work T (amain s)"

lemma atomic_next_work:
  assumes "atomic_inv V T K s" and step: "atomic_next V T K c s = Some s'"
  shows "atomic_work T K s' < atomic_work T K s"
proof (cases c)
  case (Atomic_Thread t)
  then have t: "t < T" "an s t < K" "an s' = (an s)(t := Suc (an s t))" "amain s' = amain s"
    using step by (auto simp: atomic_next_def increment_counter_atomic_def split: if_splits)
  then have "(\<Sum>u<T. K - an s' u) < (\<Sum>u<T. K - an s u)"
    by (intro sum_decrease [OF t(1)]) simp_all
  with t(4) show ?thesis by (simp add: atomic_work_def)
next
  case (Atomic_Main k)
  have "an s' = an s \<and> main_work T (amain s') < main_work T (amain s)"
  proof (cases "V = Atomic")
    case True
    with step Atomic_Main show ?thesis
      by (cases "amain s") (auto simp: atomic_next_def run_atomic_variant_def main_work_def split: if_splits option.splits)
  next
    case False
    have "Loading i x = amain s \<Longrightarrow> i < T" for i x
      using assms(1) by (auto simp: atomic_inv_def collect_inv_def split: counter_main.splits)
    with step Atomic_Main False show ?thesis
      by (cases "amain s") (auto simp: sharded_main main_work_def split: if_splits option.splits)
  qed
  then show ?thesis by (simp add: atomic_work_def)
qed

lemma atomic_not_stuck:
  assumes inv: "atomic_inv V T K s" and left: "\<nexists>v. amain s = Returned v"
  shows "\<exists>c s'. atomic_next V T K c s = Some s'"
proof (cases "\<forall>t<T. an s t = K")
  case False
  with inv obtain t where t: "t < T" "an s t < K" by (auto simp: atomic_inv_def values_inv_def le_less)
  then show ?thesis
    by (intro exI [of _ "Atomic_Thread t"] exI) (simp add: atomic_next_def increment_counter_atomic_def)
next
  case True
  have i: "values_inv V T K s" "collect_inv V T K s" using inv by (simp_all add: atomic_inv_def)
  show ?thesis
  proof (cases "amain s")
    case (Joining j x)
    show ?thesis
    proof (cases "V = Atomic \<and> \<not> j < T")
      case Atomic: True
      with i(2) Joining have "j = T" "joined T K s j" by (simp_all add: collect_inv_def)
      then have "joined T K s T" by simp
      from load_after_joins(2) [OF i(1) this] obtain k v m where
        "a_load Relaxed T Single k (amem s) = Some (v, m)" using Atomic by blast
      then show ?thesis using Joining Atomic
        by (intro exI [of _ "Atomic_Main k"] exI) (simp add: atomic_next_def run_atomic_variant_def)
    next
      case False
      then have "\<exists>s'. atomic_next V T K (Atomic_Main 0) s = Some s'"
        using Joining True by (cases "V = Atomic"; cases "j < T")
          (simp_all add: sharded_main, simp_all add: atomic_next_def run_atomic_variant_def)
      then show ?thesis by blast
    qed
  next
    case (Loading j x)
    then have j: "V \<noteq> Atomic" "joined T K s (Suc j)" using i(2) by (simp_all add: collect_inv_def)
    have "t < Suc j" if "counter_of V t = counter_of V j" for t using that j(1) by (simp add: sharded_counter_eq)
    from load_after_joins(2) [OF i(1) j(2) this] obtain k v m where
      "a_load Relaxed T (counter_of V j) k (amem s) = Some (v, m)" by blast
    then show ?thesis using Loading j(1)
      by (intro exI [of _ "Atomic_Main k"] exI) (simp add: sharded_main)
  qed (use left in blast)
qed

interpretation atomic_machine: terminating_machine "atomic_next V T K" atomic_run_init "atomic_inv V T K"
    "atomic_work T K" "\<lambda>s. \<exists>v. amain s = Returned v" for V T K
  by unfold_locales (blast intro: atomic_inv_init atomic_next_inv atomic_next_work atomic_not_stuck)+

text \<open>
  Property C31. The atomic variants always end, with the exact count, although every order is
  relaxed and a load may choose a stale value: after the joins there is nothing left to choose.
  With one counter the last load returns all increments; with one a thread the loads add up to
  them, padded or not.
\<close>

theorem atomic_variants_count:
  assumes "run (atomic_next V T K) cs atomic_run_init = Some s"
  shows "length cs \<le> T * K + 2 * T + 1 \<and>
         (\<forall>v. amain s = Returned v \<longrightarrow> v = of_nat (T * K)) \<and>
         (\<exists>ds t. run (atomic_next V T K) ds s = Some t \<and> amain t = Returned (of_nat (T * K)))"
proof -
  have i: "atomic_inv V T K s" by (rule atomic_machine.inv_run [OF assms])
  have ret: "v = of_nat (T * K)" if "atomic_inv V T K t" "amain t = Returned v" for t v
    using that by (simp add: atomic_inv_def collect_inv_def)
  obtain ds t v where t: "run (atomic_next V T K) ds s = Some t" "amain t = Returned v"
    using atomic_machine.run_finishes [OF i] by blast
  have "atomic_inv V T K t" by (rule atomic_machine.inv_run_from [OF i t(1)])
  then have "amain t = Returned (of_nat (T * K))" using ret t(2) by blast
  moreover have "length cs \<le> atomic_work T K atomic_run_init"
    using atomic_machine.run_bound [OF atomic_inv_init assms] by simp
  moreover have "atomic_work T K atomic_run_init = T * K + 2 * T + 1"
    by (simp add: atomic_work_def atomic_run_init_def main_work_def)
  ultimately show ?thesis using ret [OF i] t(1) by auto
qed

text \<open>Two threads; thread 1 is joined last, and the loads read the last messages.\<close>

theorem atomic_variants_count_witness:
  "\<exists>s. run (atomic_next Sharded_Padded 2 2) (map Atomic_Thread [0, 1, 0] @ [Atomic_Main 0, Atomic_Main 2])
         atomic_run_init = Some s \<and> amain s = Joining 1 2 \<and>
       (\<exists>ds t. run (atomic_next Sharded_Padded 2 2) ds s = Some t \<and> amain t = Returned 4)"
proof -
  have "run_to (atomic_next Sharded_Padded 2 2) (map Atomic_Thread [0, 1, 0] @ [Atomic_Main 0, Atomic_Main 2])
      atomic_run_init (\<lambda>s. amain s = Joining 1 2)"
    by code_simp
  then obtain s where s: "run (atomic_next Sharded_Padded 2 2)
      (map Atomic_Thread [0, 1, 0] @ [Atomic_Main 0, Atomic_Main 2]) atomic_run_init = Some s"
    "amain s = Joining 1 2" by (blast dest: run_to_run)
  from atomic_variants_count [OF s(1)] s show ?thesis by auto
qed

section \<open>run_and_report and main\<close>

text \<open>
  A run contributes the value the variant returned and its elapsed time.  Doubles are
  parameters: their type, the division by \<open>TOTAL_INCREMENTS\<close>, the largest double, and the
  division by \<open>NUM_RUNS\<close>.  The three values the loop keeps are the least and the summed time an
  operation, and the elapsed time that belongs to the least.
\<close>

definition NUM_RUNS :: nat where "NUM_RUNS = 20"

fun report_loop :: "(int \<Rightarrow> 'd :: {linorder, plus}) \<Rightarrow> (i64 \<times> int) list \<Rightarrow> 'd \<times> 'd \<times> int
    \<Rightarrow> 'd \<times> 'd \<times> int" where
  "report_loop per_op [] acc = acc"
| "report_loop per_op ((v, elapsed_ns) # runs) (ns_min, ns_sum, elapsed_min) =
     (let ns_per_op = per_op elapsed_ns; ns_sum = ns_sum + ns_per_op
      in if ns_per_op < ns_min then report_loop per_op runs (ns_per_op, ns_sum, elapsed_ns)
         else report_loop per_op runs (ns_min, ns_sum, elapsed_min))"

text \<open>The values reported as incorrect, and the three numbers printed.\<close>

definition run_and_report :: "(int \<Rightarrow> 'd :: {linorder, plus, zero}) \<Rightarrow> 'd \<Rightarrow> ('d \<Rightarrow> nat \<Rightarrow> 'd) \<Rightarrow> bool
    \<Rightarrow> (i64 \<times> int) list \<Rightarrow> i64 list \<times> (int \<times> 'd \<times> 'd) option" where
  "run_and_report per_op dmax avg print runs =
     (let (ns_min, ns_sum, elapsed_min) = report_loop per_op runs (dmax, 0, 0)
      in (filter (\<lambda>v. v \<noteq> of_nat TOTAL_INCREMENTS) (map fst runs),
          if print then Some (elapsed_min, ns_min, avg ns_sum NUM_RUNS) else None))"

lemma report_loop_least:
  "report_loop per_op runs (a, x, e) = (a', x', e') \<Longrightarrow>
     a' \<le> a \<and> (\<forall>r \<in> set runs. a' \<le> per_op (snd r)) \<and>
     (a' = a \<and> e' = e \<or> (\<exists>r \<in> set runs. per_op (snd r) < a \<and> a' = per_op (snd r) \<and> e' = snd r))"
proof (induction runs arbitrary: a x e)
  case (Cons r runs)
  obtain v el where r: "r = (v, el)" by (cases r)
  show ?case
  proof (cases "per_op el < a")
    case True
    then have "report_loop per_op runs (per_op el, x + per_op el, el) = (a', x', e')"
      using Cons.prems by (simp add: r Let_def)
    from Cons.IH [OF this] have ih: "a' \<le> per_op el" "\<forall>r \<in> set runs. a' \<le> per_op (snd r)"
      "a' = per_op el \<and> e' = el \<or>
       (\<exists>r \<in> set runs. per_op (snd r) < per_op el \<and> a' = per_op (snd r) \<and> e' = snd r)" by blast+
    from ih(3) True have "\<exists>q \<in> set (r # runs). per_op (snd q) < a \<and> a' = per_op (snd q) \<and> e' = snd q"
      by (auto simp: r intro: less_trans)
    with ih(1,2) True show ?thesis by (auto simp: r)
  next
    case False
    then have "report_loop per_op runs (a, x + per_op el, e) = (a', x', e')"
      using Cons.prems by (simp add: r Let_def)
    from Cons.IH [OF this] False show ?thesis by (auto simp: r)
  qed
qed simp

lemma report_loop_sum:
  "fst (snd (report_loop per_op runs (a, x, e))) = foldl (\<lambda>y r. y + per_op (snd r)) x runs"
  by (induction per_op runs "(a, x, e)" arbitrary: a x e rule: report_loop.induct) (simp_all add: Let_def)

text \<open>The values a variant can return, at the counts of the program.\<close>

definition mutex_returns :: "nat \<Rightarrow> nat \<Rightarrow> i64 \<Rightarrow> bool" where
  "mutex_returns T K v \<longleftrightarrow> (\<exists>s. reach (mutex_next T K) mutex_run_init s \<and> xmain s = Returned v)"

definition atomic_returns :: "variant \<Rightarrow> nat \<Rightarrow> nat \<Rightarrow> i64 \<Rightarrow> bool" where
  "atomic_returns V T K v \<longleftrightarrow> (\<exists>s. reach (atomic_next V T K) atomic_run_init s \<and> amain s = Returned v)"

lemma variant_returns:
  assumes "mutex_returns T K v \<or> atomic_returns V T K v"
  shows "v = of_nat (T * K)"
  using assms
proof
  assume "mutex_returns T K v"
  then obtain s where "mutex_inv T K s" "xmain s = Returned v"
    unfolding mutex_returns_def using mutex_machine.inv_reach by blast
  then show ?thesis by (simp add: mutex_inv_def joined_inv_def)
next
  assume "atomic_returns V T K v"
  then obtain s where "atomic_inv V T K s" "amain s = Returned v"
    unfolding atomic_returns_def using atomic_machine.inv_reach by blast
  then show ?thesis by (simp add: atomic_inv_def collect_inv_def)
qed

lemma thread_increments_divide: "COUNTER_THREADS * THREAD_INCREMENT_COUNT = TOTAL_INCREMENTS"
  by (simp add: COUNTER_THREADS_def THREAD_INCREMENT_COUNT_def TOTAL_INCREMENTS_def)

text \<open>
  No variant is ever reported incorrect, and the report is of the fastest run:
  over any runs whose values the variants can return, the list of incorrect values is empty,
  the best time an operation is the least of all runs, the total time printed is that of a run
  that reached it, and the average is the sum divided by \<open>NUM_RUNS\<close>.
\<close>

theorem run_and_report_correct:
  fixes per_op :: "int \<Rightarrow> 'd :: {linorder, plus, zero}"
  assumes "\<forall>(v, e) \<in> set runs. mutex_returns COUNTER_THREADS THREAD_INCREMENT_COUNT v \<or>
             (\<exists>V. atomic_returns V COUNTER_THREADS THREAD_INCREMENT_COUNT v)"
    and "runs \<noteq> []" and "\<forall>(v, e) \<in> set runs. per_op e < dmax"
  shows "\<exists>r \<in> set runs. (\<forall>r' \<in> set runs. per_op (snd r) \<le> per_op (snd r')) \<and>
     run_and_report per_op dmax avg True runs =
       ([], Some (snd r, per_op (snd r), avg (foldl (\<lambda>y r. y + per_op (snd r)) 0 runs) NUM_RUNS))"
proof -
  obtain a x e where l: "report_loop per_op runs (dmax, 0, 0) = (a, x, e)"
    using prod_cases3 by blast
  note least = report_loop_least [OF l]
  obtain r0 where "r0 \<in> set runs" "per_op (snd r0) < dmax"
    using bspec [OF assms(3) hd_in_set [OF assms(2)]] hd_in_set [OF assms(2)]
    by (metis (mono_tags, lifting) case_prod_beta)
  with least have "a < dmax" by (meson le_less_trans)
  with least obtain r where r: "r \<in> set runs" "a = per_op (snd r)" "e = snd r" by auto
  have "v = of_nat TOTAL_INCREMENTS" if "v \<in> set (map fst runs)" for v
    using that assms(1) variant_returns [of COUNTER_THREADS THREAD_INCREMENT_COUNT v]
    unfolding thread_increments_divide by fastforce
  then have "filter (\<lambda>v. v \<noteq> of_nat TOTAL_INCREMENTS) (map fst runs) = []"
    by (simp only: filter_empty_conv) blast
  moreover have "x = foldl (\<lambda>y r. y + per_op (snd r)) 0 runs"
    using report_loop_sum [of per_op runs dmax 0 0] l by simp
  ultimately show ?thesis
    using r least by (intro bexI [of _ r]) (simp_all add: run_and_report_def l)
qed

lemma atomic_returns_total: "atomic_returns V T K (of_nat (T * K))"
proof -
  obtain cs s v where s: "run (atomic_next V T K) cs atomic_run_init = Some s" "amain s = Returned v"
    using atomic_machine.run_finishes [OF atomic_inv_init] by blast
  then have "atomic_returns V T K v" using run_reach [OF s(1)] by (auto simp: atomic_returns_def)
  with variant_returns show ?thesis by blast
qed

theorem run_and_report_correct_witness:
  "run_and_report (\<lambda>e. e div 10) 1000 (\<lambda>x n. x div int n) True
     [(of_nat TOTAL_INCREMENTS, 50), (of_nat TOTAL_INCREMENTS, 30), (of_nat TOTAL_INCREMENTS, 120)] =
   ([], Some (30, 3, 1))"
proof -
  let ?v = "of_nat TOTAL_INCREMENTS :: i64"
  have "atomic_returns Atomic COUNTER_THREADS THREAD_INCREMENT_COUNT ?v"
    using atomic_returns_total [of Atomic COUNTER_THREADS THREAD_INCREMENT_COUNT]
    by (simp only: thread_increments_divide)
  then have "\<exists>r \<in> set [(?v, 50), (?v, 30), (?v, 120)].
     (\<forall>r' \<in> set [(?v, 50), (?v, 30), (?v, 120)]. snd r div 10 \<le> snd r' div (10 :: int)) \<and>
     run_and_report (\<lambda>e. e div 10) 1000 (\<lambda>x n. x div int n) True [(?v, 50), (?v, 30), (?v, 120)] =
       ([], Some (snd r, snd r div 10,
          foldl (\<lambda>y r. y + snd r div 10) 0 [(?v, 50), (?v, 30), (?v, 120)] div int NUM_RUNS))"
    by (intro run_and_report_correct) auto
  then show ?thesis by (auto simp: NUM_RUNS_def)
qed

text \<open>\<open>main\<close>: which variants run, in order, and whether their reports are printed.\<close>

datatype counter_bench_part = Governor | V1_Mutex bool | V2_Atomic bool | V3_Unpadded bool | V4_Padded bool

definition counter_bench_main :: "string list \<Rightarrow> stoi_error + counter_bench_part list" where
  "counter_bench_main argv =
     map_sum id (\<lambda>args.
         (if printed args then [Governor] else []) @
         (if mode args = 0 \<or> mode args = 1 then [V1_Mutex (printed args)] else []) @
         (if mode args = 0 \<or> mode args = 2 then [V2_Atomic (printed args)] else []) @
         (if mode args = 0 \<or> mode args = 3 then [V3_Unpadded (printed args)] else []) @
         (if mode args = 0 \<or> mode args = 4 then [V4_Padded (printed args)] else []))
       (parse_bench_args argv)"

lemma counter_bench_default:
  "counter_bench_main [''counter_bench''] =
     Inr [Governor, V1_Mutex True, V2_Atomic True, V3_Unpadded True, V4_Padded True]"
  by (simp add: counter_bench_main_def parse_bench_args_def BenchArgs_default_def)

end
