(* ===== verification/Broken_Aba.thy ===== *)
theory Broken_Aba
  imports Cxx_Memory "HOL-Library.Multiset"
begin

text \<open>
  \<open>experiments/broken_aba.cpp\<close>: a lock-free stack of nodes from a pool, linked through plain
  \<open>next\<close> fields, with a \<open>head\<close> changed by compare-exchange - and the ABA failure it is meant to
  show.  Every access of \<open>head\<close> and of a field of a node is a step on the memory of
  \<open>Cxx_Memory\<close>; the sleeps of the source only choose between schedules and are left out.
\<close>

section \<open>The stack\<close>

text \<open>\<open>Node\<close>: a pointer is \<open>None\<close> (\<open>nullptr\<close>) or the index of a node of the pool.\<close>

type_synonym node_ptr = "nat option"

datatype field = Value nat | Next nat
datatype content = Val i32 | Ptr node_ptr

fun ptr_of :: "content \<Rightarrow> node_ptr" where
  "ptr_of (Ptr p) = p"
| "ptr_of (Val v) = None"

fun val_of :: "content \<Rightarrow> i32" where
  "val_of (Val v) = v"
| "val_of (Ptr p) = 0"

text \<open>What a thread has to do: the members of the stack, and what \<open>main\<close> does besides.\<close>

datatype stack_call =
    Push nat i32 | Pop_Normal | Pop_Vulnerable | Start tid | Join tid | Print_Head

text \<open>
  Where a thread stands.  In \<open>push\<close>: at the writes of \<open>value\<close>, at the load of \<open>head\<close>, at the
  write of \<open>next\<close> with it, at the read of \<open>next\<close> as the expected value, at the
  compare-exchange, at the write of \<open>next\<close> after a failure.  In the pops: at the load, at the
  read of \<open>old->next\<close>, at the compare-exchange.  \<open>Crashed\<close>: a null pointer was dereferenced.
\<close>

datatype stack_pc =
    Idle
  | Push_Value nat i32 | Push_Load nat | Push_Next nat node_ptr
  | Push_Expected nat | Push_Cas nat node_ptr | Push_Failed nat node_ptr
  | Pop_Load | Pop_Next nat | Pop_Cas nat node_ptr
  | Vuln_Load | Vuln_Next node_ptr | Vuln_Cas nat node_ptr
  | Print_Value node_ptr
  | Crashed

text \<open>
  \<open>results\<close> (what each pop of a thread returned) and \<open>events\<close> (the successful
  compare-exchanges, in order) are history variables.
\<close>

datatype stack_event = Pushed nat | Popped nat

record stack =
  smem :: "(node_ptr, unit, content, field) memory"
  stack_pc :: "tid \<Rightarrow> stack_pc"
  todo :: "tid \<Rightarrow> stack_call list"
  live :: "tid \<Rightarrow> bool"
  results :: "tid \<Rightarrow> node_ptr list"
  printed_value :: "i32 list"
  events :: "stack_event list"

text \<open>Static initialisation: \<open>head\<close> is null, the fields of the pool are zero; thread 0 runs.\<close>

definition stack_init :: "(tid \<Rightarrow> stack_call list) \<Rightarrow> stack" where
  "stack_init progs =
     \<lparr>smem = mem_init (\<lambda>_. None) (\<lambda>f. case f of Value n \<Rightarrow> Val 0 | Next n \<Rightarrow> Ptr None),
      stack_pc = (\<lambda>_. Idle), todo = progs, live = (\<lambda>t. t = 0), results = (\<lambda>_. []),
      printed_value = [], events = []\<rparr>"

definition at :: "tid \<Rightarrow> stack_pc \<Rightarrow> stack \<Rightarrow> stack" where
  "at t p s = s\<lparr>stack_pc := (stack_pc s)(t := p)\<rparr>"

definition returns :: "tid \<Rightarrow> node_ptr \<Rightarrow> stack \<Rightarrow> stack" where
  "returns t r s = at t Idle (s\<lparr>results := (results s)(t := results s t @ [r])\<rparr>)"

text \<open>\<open>push(node, value)\<close>; \<open>k\<close> is the message a load reads, \<open>ch\<close> the fate of the exchange.\<close>

definition stack_push_step :: "tid \<Rightarrow> nat \<Rightarrow> cas_choice \<Rightarrow> stack \<Rightarrow> stack option" where
  "stack_push_step t k ch s =
     (case stack_pc s t of
        Push_Value n v \<Rightarrow> Some (at t (Push_Load n) (s\<lparr>smem := na_write t (Value n) (Val v) (smem s)\<rparr>))
      | Push_Load n \<Rightarrow>
          (case a_load Relaxed t () k (smem s) of
             None \<Rightarrow> None
           | Some (p, m) \<Rightarrow> Some (at t (Push_Next n p) (s\<lparr>smem := m\<rparr>)))
      | Push_Next n p \<Rightarrow> Some (at t (Push_Expected n) (s\<lparr>smem := na_write t (Next n) (Ptr p) (smem s)\<rparr>))
      | Push_Expected n \<Rightarrow>
          (let (c, m) = na_read t (Next n) (smem s) in Some (at t (Push_Cas n (ptr_of c)) (s\<lparr>smem := m\<rparr>)))
      | Push_Cas n e \<Rightarrow>
          (case a_cas True Release Relaxed t () e (Some n) ch (smem s) of
             None \<Rightarrow> None
           | Some (b, p, m) \<Rightarrow>
               Some (if b then at t Idle (s\<lparr>smem := m, events := events s @ [Pushed n]\<rparr>)
                     else at t (Push_Failed n p) (s\<lparr>smem := m\<rparr>)))
      | Push_Failed n p \<Rightarrow> Some (at t (Push_Expected n) (s\<lparr>smem := na_write t (Next n) (Ptr p) (smem s)\<rparr>))
      | _ \<Rightarrow> None)"

text \<open>\<open>while (old != nullptr)\<close>: on with the read of \<open>old->next\<close>, or return null.\<close>

definition pop_test :: "tid \<Rightarrow> node_ptr \<Rightarrow> stack \<Rightarrow> stack" where
  "pop_test t p s = (case p of None \<Rightarrow> returns t None s | Some old \<Rightarrow> at t (Pop_Next old) s)"

definition pop_normal_step :: "tid \<Rightarrow> nat \<Rightarrow> cas_choice \<Rightarrow> stack \<Rightarrow> stack option" where
  "pop_normal_step t k ch s =
     (case stack_pc s t of
        Pop_Load \<Rightarrow>
          (case a_load Acquire t () k (smem s) of
             None \<Rightarrow> None
           | Some (p, m) \<Rightarrow> Some (pop_test t p (s\<lparr>smem := m\<rparr>)))
      | Pop_Next old \<Rightarrow>
          (let (c, m) = na_read t (Next old) (smem s) in Some (at t (Pop_Cas old (ptr_of c)) (s\<lparr>smem := m\<rparr>)))
      | Pop_Cas old nxt \<Rightarrow>
          (case a_cas True Acquire Relaxed t () (Some old) nxt ch (smem s) of
             None \<Rightarrow> None
           | Some (b, p, m) \<Rightarrow>
               Some (if b then returns t (Some old) (s\<lparr>smem := m, events := events s @ [Popped old]\<rparr>)
                     else pop_test t p (s\<lparr>smem := m\<rparr>)))
      | _ \<Rightarrow> None)"

text \<open>\<open>pop_vulnerable\<close> has no test for null and tries once, with the strong form.\<close>

definition pop_vulnerable_step :: "tid \<Rightarrow> nat \<Rightarrow> cas_choice \<Rightarrow> stack \<Rightarrow> stack option" where
  "pop_vulnerable_step t k ch s =
     (case stack_pc s t of
        Vuln_Load \<Rightarrow>
          (case a_load Acquire t () k (smem s) of
             None \<Rightarrow> None
           | Some (p, m) \<Rightarrow> Some (at t (Vuln_Next p) (s\<lparr>smem := m\<rparr>)))
      | Vuln_Next p \<Rightarrow>
          (case p of
             None \<Rightarrow> Some (at t Crashed s)
           | Some old \<Rightarrow>
               (let (c, m) = na_read t (Next old) (smem s)
                in Some (at t (Vuln_Cas old (ptr_of c)) (s\<lparr>smem := m\<rparr>))))
      | Vuln_Cas old nxt \<Rightarrow>
          (case a_cas False Release Relaxed t () (Some old) nxt ch (smem s) of
             None \<Rightarrow> None
           | Some (b, p, m) \<Rightarrow>
               Some (if b then returns t (Some old) (s\<lparr>smem := m, events := events s @ [Popped old]\<rparr>)
                     else returns t None (s\<lparr>smem := m\<rparr>)))
      | _ \<Rightarrow> None)"

text \<open>
  The next call of a thread; \<open>join\<close> waits for the end of the other.  \<open>main\<close> prints the value
  of the node \<open>head\<close> points to.
\<close>

definition call_step :: "tid \<Rightarrow> nat \<Rightarrow> stack \<Rightarrow> stack option" where
  "call_step t k s =
     (case todo s t of
        [] \<Rightarrow> None
      | c # cs \<Rightarrow>
          (let s' = s\<lparr>todo := (todo s)(t := cs)\<rparr>
           in case c of
                Push n v \<Rightarrow> Some (at t (Push_Value n v) s')
              | Pop_Normal \<Rightarrow> Some (at t Pop_Load s')
              | Pop_Vulnerable \<Rightarrow> Some (at t Vuln_Load s')
              | Start u \<Rightarrow> Some (s'\<lparr>smem := t_start t u (smem s), live := (live s)(u := True)\<rparr>)
              | Join u \<Rightarrow>
                  if live s u \<and> stack_pc s u = Idle \<and> todo s u = [] \<and> u \<noteq> t
                  then Some (s'\<lparr>smem := t_join t u (smem s)\<rparr>) else None
              | Print_Head \<Rightarrow>
                  (case a_load Relaxed t () k (smem s) of
                     None \<Rightarrow> None
                   | Some (p, m) \<Rightarrow> Some (at t (Print_Value p) (s'\<lparr>smem := m\<rparr>)))))"

definition print_step :: "tid \<Rightarrow> stack \<Rightarrow> stack option" where
  "print_step t s =
     (case stack_pc s t of
        Print_Value None \<Rightarrow> Some (at t Crashed s)
      | Print_Value (Some n) \<Rightarrow>
          (let (c, m) = na_read t (Value n) (smem s)
           in Some (at t Idle (s\<lparr>smem := m, printed_value := printed_value s @ [val_of c]\<rparr>)))
      | _ \<Rightarrow> None)"

record stack_choice =
  thread :: tid
  message :: nat
  exchange :: cas_choice

definition stack_next :: "stack_choice \<Rightarrow> stack \<Rightarrow> stack option" where
  "stack_next c s =
     (let t = thread c; k = message c; ch = exchange c
      in if \<not> live s t then None
         else case stack_pc s t of
                Idle \<Rightarrow> call_step t k s
              | Push_Value n v \<Rightarrow> stack_push_step t k ch s | Push_Load n \<Rightarrow> stack_push_step t k ch s
              | Push_Next n p \<Rightarrow> stack_push_step t k ch s | Push_Expected n \<Rightarrow> stack_push_step t k ch s
              | Push_Cas n e \<Rightarrow> stack_push_step t k ch s | Push_Failed n p \<Rightarrow> stack_push_step t k ch s
              | Pop_Load \<Rightarrow> pop_normal_step t k ch s | Pop_Next old \<Rightarrow> pop_normal_step t k ch s
              | Pop_Cas old nxt \<Rightarrow> pop_normal_step t k ch s
              | Vuln_Load \<Rightarrow> pop_vulnerable_step t k ch s | Vuln_Next p \<Rightarrow> pop_vulnerable_step t k ch s
              | Vuln_Cas old nxt \<Rightarrow> pop_vulnerable_step t k ch s
              | Print_Value p \<Rightarrow> print_step t s
              | Crashed \<Rightarrow> None)"

text \<open>The program: \<open>main\<close> (thread 0), \<open>t1\<close> and \<open>t2\<close>.\<close>

definition aba_program :: "tid \<Rightarrow> stack_call list" where
  "aba_program t =
     (if t = 0 then [Push 2 67, Push 1 66, Push 0 65, Start 1, Start 2, Join 1, Join 2, Print_Head]
      else if t = 1 then [Pop_Vulnerable]
      else if t = 2 then [Pop_Normal, Pop_Normal, Push 0 65]
      else [])"

section \<open>What the stack holds\<close>

text \<open>\<open>xs\<close> are the nodes on the way from \<open>p\<close> along the \<open>next\<close> fields, down to null.\<close>

fun chain :: "(field \<Rightarrow> content) \<Rightarrow> node_ptr \<Rightarrow> nat list \<Rightarrow> bool" where
  "chain c p [] \<longleftrightarrow> p = None"
| "chain c p (x # xs) \<longleftrightarrow> p = Some x \<and> chain c (ptr_of (c (Next x))) xs"

definition stack_top :: "stack \<Rightarrow> node_ptr" where
  "stack_top s = mval (last (hist (smem s) ()))"

definition holds :: "stack \<Rightarrow> nat list \<Rightarrow> bool" where
  "holds s xs \<longleftrightarrow> chain (cell (smem s)) (stack_top s) xs"

text \<open>The contract: each pop takes what is on top at that moment.\<close>

fun replay :: "stack_event list \<Rightarrow> nat list \<Rightarrow> nat list option" where
  "replay [] xs = Some xs"
| "replay (Pushed n # es) xs = replay es (n # xs)"
| "replay (Popped n # es) xs = (case xs of x # xs' \<Rightarrow> if x = n then replay es xs' else None | [] \<Rightarrow> None)"

lemma replay_append: "replay (es @ fs) xs = Option.bind (replay es xs) (replay fs)"
  by (induction es xs rule: replay.induct) (auto split: list.splits)

fun pushed_nodes :: "stack_event list \<Rightarrow> nat list" where
  "pushed_nodes [] = []"
| "pushed_nodes (Pushed n # es) = n # pushed_nodes es"
| "pushed_nodes (Popped n # es) = pushed_nodes es"

fun popped_nodes :: "stack_event list \<Rightarrow> nat list" where
  "popped_nodes [] = []"
| "popped_nodes (Pushed n # es) = popped_nodes es"
| "popped_nodes (Popped n # es) = n # popped_nodes es"

lemma pushed_nodes_append [simp]: "pushed_nodes (es @ fs) = pushed_nodes es @ pushed_nodes fs"
  by (induction es rule: pushed_nodes.induct) simp_all

text \<open>What went in came out or is still there.\<close>

lemma replay_mset:
  "replay es xs = Some ys \<Longrightarrow> mset xs + mset (pushed_nodes es) = mset (popped_nodes es) + mset ys"
  by (induction es xs rule: replay.induct) (auto split: list.splits if_splits)

lemma replay_distinct:
  assumes "replay es [] = Some xs" and "distinct (pushed_nodes es)"
  shows "distinct (popped_nodes es)" "distinct xs" "set (popped_nodes es) \<inter> set xs = {}"
proof -
  have "mset (pushed_nodes es) = mset (popped_nodes es @ xs)" using replay_mset [OF assms(1)] by simp
  then have "distinct (popped_nodes es @ xs)" using assms(2) by (metis mset_eq_imp_distinct_iff)
  then show "distinct (popped_nodes es)" "distinct xs" "set (popped_nodes es) \<inter> set xs = {}" by simp_all
qed

lemma chain_write: "x \<notin> set xs \<Longrightarrow> chain (c(Next x := v)) p xs = chain c p xs"
  by (induction xs arbitrary: p) auto

lemma chain_value [simp]: "chain (c(Value x := v)) p xs = chain c p xs"
  by (induction xs arbitrary: p) simp_all

lemma chain_cong: "(\<And>x. x \<in> set xs \<Longrightarrow> c (Next x) = d (Next x)) \<Longrightarrow> chain c p xs = chain d p xs"
  by (induction xs arbitrary: p) auto

section \<open>Without reuse of nodes\<close>

fun call_node :: "stack_call \<Rightarrow> nat list" where
  "call_node (Push n v) = [n]"
| "call_node c = []"

definition pushes :: "stack_call list \<Rightarrow> nat list" where
  "pushes cs = concat (map call_node cs)"

fun pushing :: "stack_pc \<Rightarrow> nat list" where
  "pushing (Push_Value n v) = [n]"
| "pushing (Push_Load n) = [n]"
| "pushing (Push_Next n p) = [n]"
| "pushing (Push_Expected n) = [n]"
| "pushing (Push_Cas n e) = [n]"
| "pushing (Push_Failed n p) = [n]"
| "pushing p = []"

text \<open>The nodes a thread is pushing or will push, and those that \<open>head\<close> has ever pointed to.\<close>

definition pending :: "stack \<Rightarrow> tid \<Rightarrow> nat list" where
  "pending s t = pushing (stack_pc s t) @ pushes (todo s t)"

definition published :: "stack \<Rightarrow> nat set" where
  "published s = {n. Some n \<in> mval ` set (hist (smem s) ())}"

text \<open>No node is pushed by two calls.\<close>

definition no_reuse :: "(tid \<Rightarrow> stack_call list) \<Rightarrow> bool" where
  "no_reuse progs \<longleftrightarrow>
     (\<forall>t. distinct (pushes (progs t))) \<and>
     (\<forall>t u. t \<noteq> u \<longrightarrow> set (pushes (progs t)) \<inter> set (pushes (progs u)) = {})"

text \<open>
  What a thread relies on: the \<open>next\<close> field of a node under way is its own, that of a node that
  was on the stack does not change any more.
\<close>

definition relies :: "stack \<Rightarrow> stack_pc \<Rightarrow> bool" where
  "relies s p \<longleftrightarrow>
     (case p of
        Push_Cas n e \<Rightarrow> ptr_of (cell (smem s) (Next n)) = e
      | Pop_Next old \<Rightarrow> old \<in> published s
      | Pop_Cas old nxt \<Rightarrow> old \<in> published s \<and> ptr_of (cell (smem s) (Next old)) = nxt
      | Vuln_Next p \<Rightarrow> (\<forall>old. p = Some old \<longrightarrow> old \<in> published s)
      | Vuln_Cas old nxt \<Rightarrow> old \<in> published s \<and> ptr_of (cell (smem s) (Next old)) = nxt
      | _ \<Rightarrow> True)"

definition nodes_inv :: "stack \<Rightarrow> bool" where
  "nodes_inv s \<longleftrightarrow>
     (\<forall>t. distinct (pending s t) \<and> set (pending s t) \<inter> published s = {} \<and> relies s (stack_pc s t)) \<and>
     (\<forall>t u. t \<noteq> u \<longrightarrow> set (pending s t) \<inter> set (pending s u) = {})"

definition list_inv :: "stack \<Rightarrow> bool" where
  "list_inv s \<longleftrightarrow> hist (smem s) () \<noteq> [] \<and>
     distinct (pushed_nodes (events s)) \<and> set (pushed_nodes (events s)) \<subseteq> published s \<and>
     (\<exists>xs. holds s xs \<and> set xs \<subseteq> published s \<and> replay (events s) [] = Some xs)"

definition stack_inv :: "stack \<Rightarrow> bool" where
  "stack_inv s \<longleftrightarrow> nodes_inv s \<and> list_inv s"

lemma stack_inv_init: "no_reuse progs \<Longrightarrow> stack_inv (stack_init progs)"
  by (auto simp: stack_inv_def nodes_inv_def list_inv_def stack_init_def no_reuse_def pending_def published_def
      relies_def holds_def stack_top_def intro!: exI [of _ "[]"])

text \<open>A step that leaves \<open>head\<close> and writes at most a \<open>next\<close> field of a node under way.\<close>

lemma quiet_step:
  assumes inv: "stack_inv s" and head: "hist (smem s') () = hist (smem s) ()" "events s' = events s"
    and other: "\<And>u. u \<noteq> t \<Longrightarrow> stack_pc s' u = stack_pc s u \<and> todo s' u = todo s u"
    and own: "pending s' t = pending s t" "relies s' (stack_pc s' t)"
    and cells: "\<And>x. x \<notin> set (pushing (stack_pc s t)) \<Longrightarrow> cell (smem s') (Next x) = cell (smem s) (Next x)"
  shows "stack_inv s'"
proof -
  have n: "nodes_inv s" and l: "list_inv s" using inv by (simp_all add: stack_inv_def)
  have pub: "published s' = published s" by (simp add: published_def head)
  have pend: "pending s' u = pending s u" for u
    using other own(1) by (cases "u = t") (simp_all add: pending_def)
  have sub: "set (pushing (stack_pc s u)) \<subseteq> set (pending s u)" for u by (simp add: pending_def)
  have next_pub: "cell (smem s') (Next x) = cell (smem s) (Next x)" if "x \<in> published s" for x
    using cells that n sub [of t] by (auto simp: nodes_inv_def)
  have "relies s' (stack_pc s' u)" for u
  proof (cases "u = t")
    case False
    then have "relies s (stack_pc s u)" and other_u: "stack_pc s' u = stack_pc s u"
      using n other by (simp_all add: nodes_inv_def)
    moreover have "cell (smem s') (Next x) = cell (smem s) (Next x)" if "x \<in> set (pushing (stack_pc s u))" for x
      using cells that n sub [of t] sub [of u] False unfolding nodes_inv_def by blast
    ultimately show ?thesis
      using next_pub pub by (cases "stack_pc s u") (simp_all add: relies_def)
  qed (use own(2) in simp)
  then have "nodes_inv s'" using n by (simp add: nodes_inv_def pend pub)
  moreover have "list_inv s'"
  proof -
    obtain xs where xs: "holds s xs" "set xs \<subseteq> published s" "replay (events s) [] = Some xs"
      using l by (auto simp: list_inv_def)
    have "stack_top s' = stack_top s" by (simp add: stack_top_def head)
    moreover have "chain (cell (smem s')) p xs = chain (cell (smem s)) p xs" for p
      by (rule chain_cong) (use xs(2) next_pub in blast)
    ultimately have "holds s' xs" using xs(1) by (simp add: holds_def)
    then show ?thesis using xs l head by (auto simp: list_inv_def pub)
  qed
  ultimately show ?thesis by (simp add: stack_inv_def)
qed

text \<open>A successful compare-exchange: \<open>head\<close> gets a new value, no field changes.\<close>

lemma exchange_step:
  assumes inv: "stack_inv s"
    and head: "map mval (hist (smem s') ()) = map mval (hist (smem s) ()) @ [p]" "cell (smem s') = cell (smem s)"
    and other: "\<And>u. u \<noteq> t \<Longrightarrow> stack_pc s' u = stack_pc s u \<and> todo s' u = todo s u"
    and own: "set (pending s' t) \<subseteq> set (pending s t)" "distinct (pending s' t)" "stack_pc s' t = Idle"
    and new: "\<And>n. p = Some n \<Longrightarrow> n \<in> published s \<or> n \<in> set (pending s t) \<and> n \<notin> set (pending s' t)"
    and xs: "chain (cell (smem s)) p xs" "set xs \<subseteq> published s \<union> {n. p = Some n}"
      "replay (events s') [] = Some xs"
    and log: "distinct (pushed_nodes (events s'))" "set (pushed_nodes (events s')) \<subseteq> published s \<union> {n. p = Some n}"
  shows "stack_inv s'"
proof -
  have n: "nodes_inv s" using inv by (simp add: stack_inv_def)
  have "mval ` set (hist (smem s') ()) = insert p (mval ` set (hist (smem s) ()))"
    using arg_cong [OF head(1), of set] by simp
  then have pub: "published s' = published s \<union> {n. p = Some n}" by (auto simp: published_def)
  have ne: "hist (smem s') () \<noteq> []" using head(1) by auto
  have "last (map mval (hist (smem s') ())) = p" by (simp add: head(1))
  then have last: "stack_top s' = p" using ne by (simp add: stack_top_def last_map)
  have pend: "pending s' u = pending s u" if "u \<noteq> t" for u using other [OF that] by (simp add: pending_def)
  have pend_sub: "set (pending s' u) \<subseteq> set (pending s u)" "distinct (pending s' u)" for u
    using pend [of u] own(1,2) n by (cases "u = t"; simp add: nodes_inv_def)+
  have "set (pending s' u) \<inter> published s' = {}" for u
  proof (cases "u = t")
    case True
    then show ?thesis using n own(1) new unfolding pub nodes_inv_def by blast
  next
    case False
    then show ?thesis using n new pend_sub(1) [of u] unfolding pub nodes_inv_def by blast
  qed
  moreover have "relies s' (stack_pc s' u)" for u
  proof (cases "u = t")
    case False
    then have "relies s (stack_pc s u)" and "stack_pc s' u = stack_pc s u"
      using n other by (simp_all add: nodes_inv_def)
    then show ?thesis by (cases "stack_pc s u") (auto simp: relies_def head(2) pub)
  qed (simp add: own(3) relies_def)
  moreover have "set (pending s' u) \<inter> set (pending s' v) = {}" if "u \<noteq> v" for u v
    using n pend_sub(1) [of u] pend_sub(1) [of v] that unfolding nodes_inv_def by blast
  ultimately have "nodes_inv s'" using pend_sub(2) by (simp add: nodes_inv_def)
  moreover have "list_inv s'"
    using ne xs last log by (auto simp: list_inv_def holds_def head(2) pub)
  ultimately show ?thesis by (simp add: stack_inv_def)
qed

lemma at_simps [simp]:
  "smem (at t p s) = smem s" "stack_pc (at t p s) u = (if u = t then p else stack_pc s u)"
  "todo (at t p s) = todo s" "events (at t p s) = events s" "live (at t p s) = live s"
  "results (at t p s) = results s" "printed_value (at t p s) = printed_value s"
  "smem (returns t r s) = smem s" "stack_pc (returns t r s) u = (if u = t then Idle else stack_pc s u)"
  "todo (returns t r s) = todo s" "events (returns t r s) = events s" "live (returns t r s) = live s"
  "results (returns t r s) u = (if u = t then results s t @ [r] else results s u)"
  by (simp_all add: at_def returns_def)

lemma load_published:
  assumes "a_load mo t () k (smem s) = Some (p, m)"
  shows "hist m = hist (smem s)" "cell m = cell (smem s)" "p = Some n \<Longrightarrow> n \<in> published s"
  using assms by (auto simp: a_load_Some published_def split: if_splits intro!: rev_image_eqI [OF nth_mem])

lemma pop_test_pc [simp]:
  "stack_pc (pop_test t p s) t = (case p of None \<Rightarrow> Idle | Some old \<Rightarrow> Pop_Next old)"
  "u \<noteq> t \<Longrightarrow> stack_pc (pop_test t p s) u = stack_pc s u" "smem (pop_test t p s) = smem s"
  "todo (pop_test t p s) = todo s" "events (pop_test t p s) = events s"
  by (cases p; simp add: pop_test_def)+

lemma relies_simps:
  "relies s Idle" "relies s (Push_Value n v)" "relies s (Push_Load n)" "relies s (Push_Next n p)"
  "relies s (Push_Expected n)" "relies s (Push_Failed n p)" "relies s Pop_Load" "relies s Vuln_Load"
  "relies s (Print_Value p)" "relies s Crashed"
  "relies s (Push_Cas n e) \<longleftrightarrow> ptr_of (cell (smem s) (Next n)) = e"
  "relies s (Pop_Next old) \<longleftrightarrow> old \<in> published s"
  "relies s (Pop_Cas old nxt) \<longleftrightarrow> old \<in> published s \<and> ptr_of (cell (smem s) (Next old)) = nxt"
  "relies s (Vuln_Next p) \<longleftrightarrow> (\<forall>old. p = Some old \<longrightarrow> old \<in> published s)"
  "relies s (Vuln_Cas old nxt) \<longleftrightarrow> old \<in> published s \<and> ptr_of (cell (smem s) (Next old)) = nxt"
  by (simp_all add: relies_def)

lemma inv_relies: "stack_inv s \<Longrightarrow> relies s (stack_pc s t)"
  by (simp add: stack_inv_def nodes_inv_def)

lemma inv_distinct: "stack_inv s \<Longrightarrow> distinct (pending s t)"
  by (simp add: stack_inv_def nodes_inv_def)

lemma published_same: "hist (smem s') () = hist (smem s) () \<Longrightarrow> published s' = published s"
  by (simp add: published_def)

lemma stack_push_inv:
  assumes inv: "stack_inv s" and step: "stack_push_step t k ch s = Some s'"
  shows "stack_inv s'"
proof (cases "stack_pc s t")
  case (Push_Cas n e)
  then obtain b p m where c: "a_cas True Release Relaxed t () e (Some n) ch (smem s) = Some (b, p, m)"
    and s': "s' = (if b then at t Idle (s\<lparr>smem := m, events := events s @ [Pushed n]\<rparr>)
              else at t (Push_Failed n p) (s\<lparr>smem := m\<rparr>))"
    using step by (auto simp: stack_push_step_def split: option.splits)
  from c show ?thesis
  proof (cases rule: a_cas_cases)
    case succeed
    obtain xs where xs: "holds s xs" "set xs \<subseteq> published s" "replay (events s) [] = Some xs"
      using inv by (auto simp: stack_inv_def list_inv_def)
    have "ptr_of (cell (smem s) (Next n)) = stack_top s"
      using inv_relies [OF inv, of t] Push_Cas succeed(2) by (simp add: relies_simps stack_top_def)
    then have "chain (cell (smem s)) (Some n) (n # xs)" using xs(1) by (simp add: holds_def)
    moreover have "distinct (n # pushes (todo s t))"
      using inv_distinct [OF inv, of t] Push_Cas by (simp add: pending_def)
    moreover have "n \<notin> published s"
      using inv Push_Cas by (auto simp: stack_inv_def nodes_inv_def pending_def dest!: spec [of _ t])
    moreover have "distinct (pushed_nodes (events s))" "set (pushed_nodes (events s)) \<subseteq> published s"
      using inv by (simp_all add: stack_inv_def list_inv_def)
    ultimately show ?thesis
      using xs Push_Cas succeed(1,3)
      by (intro exchange_step [OF inv, where t = t and p = "Some n" and xs = "n # xs"])
        (auto simp: s' pending_def replay_append)
  next
    case (fail j)
    note l = load_published [OF fail(2)]
    show ?thesis
      by (rule quiet_step [OF inv, where t = t])
        (use Push_Cas fail(1) l in \<open>simp_all add: s' pending_def relies_def\<close>)
  qed
next
  case (Push_Load n)
  then obtain p m where l: "a_load Relaxed t () k (smem s) = Some (p, m)"
    and s': "s' = at t (Push_Next n p) (s\<lparr>smem := m\<rparr>)"
    using step by (auto simp: stack_push_step_def split: option.splits)
  show ?thesis
    by (rule quiet_step [OF inv, where t = t])
      (use Push_Load load_published [OF l] in \<open>simp_all add: s' pending_def relies_def\<close>)
qed (use step in \<open>auto simp: stack_push_step_def pending_def relies_def split_beta intro!: quiet_step [OF inv, where t = t]\<close>)

text \<open>A pop that takes the node on top.\<close>

lemma pop_exchange:
  assumes inv: "stack_inv s" and r: "old \<in> published s" "ptr_of (cell (smem s) (Next old)) = nxt"
    and top: "mval (last (hist (smem s) ())) = Some old"
    and m: "m = snd (a_rmw mo t () (\<lambda>_. nxt) (smem s))" and idle: "pushing (stack_pc s t) = []"
    and s': "s' = returns t (Some old) (s\<lparr>smem := m, events := events s @ [Popped old]\<rparr>)"
  shows "stack_inv s'"
proof -
  obtain xs where xs: "holds s xs" "set xs \<subseteq> published s" "replay (events s) [] = Some xs"
    and log: "distinct (pushed_nodes (events s))" "set (pushed_nodes (events s)) \<subseteq> published s"
    using inv by (auto simp: stack_inv_def list_inv_def)
  then obtain ys where ys: "xs = old # ys" "chain (cell (smem s)) nxt ys"
    using top r(2) by (cases xs) (auto simp: holds_def stack_top_def)
  have "n \<in> published s" if "nxt = Some n" for n using that ys xs(2) by (cases ys) auto
  then show ?thesis
    using xs ys log inv_distinct [OF inv, of t] idle
    by (intro exchange_step [OF inv, where t = t and p = nxt and xs = ys])
      (auto simp: s' m pending_def replay_append)
qed

lemma pop_normal_step_inv:
  assumes inv: "stack_inv s" and step: "pop_normal_step t k ch s = Some s'"
  shows "stack_inv s'"
proof (cases "stack_pc s t")
  case Pop_Load
  then obtain p m where l: "a_load Acquire t () k (smem s) = Some (p, m)"
    and s': "s' = pop_test t p (s\<lparr>smem := m\<rparr>)"
    using step by (auto simp: pop_normal_step_def split: option.splits)
  show ?thesis
    by (rule quiet_step [OF inv, where t = t])
      (use Pop_Load load_published [OF l] in
        \<open>auto simp: s' pending_def relies_simps published_def split: option.splits\<close>)
next
  case (Pop_Next old)
  then show ?thesis
    using step inv_relies [OF inv, of t]
    by (auto simp: pop_normal_step_def pending_def relies_simps published_def split_beta
        intro!: quiet_step [OF inv, where t = t])
next
  case (Pop_Cas old nxt)
  then obtain b p m where c: "a_cas True Acquire Relaxed t () (Some old) nxt ch (smem s) = Some (b, p, m)"
    and s': "s' = (if b then returns t (Some old) (s\<lparr>smem := m, events := events s @ [Popped old]\<rparr>)
              else pop_test t p (s\<lparr>smem := m\<rparr>))"
    using step by (auto simp: pop_normal_step_def split: option.splits)
  have r: "old \<in> published s" "ptr_of (cell (smem s) (Next old)) = nxt"
    using inv_relies [OF inv, of t] Pop_Cas by (simp_all add: relies_simps)
  from c show ?thesis
  proof (cases rule: a_cas_cases)
    case succeed
    then show ?thesis using Pop_Cas s' by (intro pop_exchange [OF inv r succeed(2,3)]) simp_all
  next
    case (fail j)
    show ?thesis
      by (rule quiet_step [OF inv, where t = t])
        (use Pop_Cas fail(1) load_published [OF fail(2)] in
          \<open>auto simp: s' pending_def relies_simps published_def split: option.splits\<close>)
  qed
qed (use step in \<open>simp_all add: pop_normal_step_def\<close>)

lemma pop_vulnerable_step_inv:
  assumes inv: "stack_inv s" and step: "pop_vulnerable_step t k ch s = Some s'"
  shows "stack_inv s'"
proof (cases "stack_pc s t")
  case Vuln_Load
  then obtain p m where l: "a_load Acquire t () k (smem s) = Some (p, m)"
    and s': "s' = at t (Vuln_Next p) (s\<lparr>smem := m\<rparr>)"
    using step by (auto simp: pop_vulnerable_step_def split: option.splits)
  show ?thesis
    by (rule quiet_step [OF inv, where t = t])
      (use Vuln_Load load_published [OF l] in \<open>auto simp: s' pending_def relies_simps published_def\<close>)
next
  case (Vuln_Next p)
  show ?thesis
  proof (cases p)
    case None
    with Vuln_Next step show ?thesis
      by (auto simp: pop_vulnerable_step_def pending_def relies_simps intro!: quiet_step [OF inv, where t = t])
  next
    case (Some old)
    with Vuln_Next step inv_relies [OF inv, of t] show ?thesis
      by (auto simp: pop_vulnerable_step_def pending_def relies_simps published_def split_beta
          intro!: quiet_step [OF inv, where t = t])
  qed
next
  case (Vuln_Cas old nxt)
  then obtain b p m where c: "a_cas False Release Relaxed t () (Some old) nxt ch (smem s) = Some (b, p, m)"
    and s': "s' = (if b then returns t (Some old) (s\<lparr>smem := m, events := events s @ [Popped old]\<rparr>)
              else returns t None (s\<lparr>smem := m\<rparr>))"
    using step by (auto simp: pop_vulnerable_step_def split: option.splits)
  have r: "old \<in> published s" "ptr_of (cell (smem s) (Next old)) = nxt"
    using inv_relies [OF inv, of t] Vuln_Cas by (simp_all add: relies_simps)
  from c show ?thesis
  proof (cases rule: a_cas_cases)
    case succeed
    then show ?thesis using Vuln_Cas s' by (intro pop_exchange [OF inv r succeed(2,3)]) simp_all
  next
    case (fail j)
    show ?thesis
      by (rule quiet_step [OF inv, where t = t])
        (use Vuln_Cas fail(1) load_published [OF fail(2)] in \<open>simp_all add: s' pending_def relies_simps\<close>)
  qed
qed (use step in \<open>simp_all add: pop_vulnerable_step_def\<close>)

lemma call_step_inv:
  assumes inv: "stack_inv s" and idle: "stack_pc s t = Idle" and step: "call_step t k s = Some s'"
  shows "stack_inv s'"
proof (cases "todo s t")
  case (Cons c cs)
  show ?thesis
  proof (cases c)
    case Print_Head
    then obtain p m where l: "a_load Relaxed t () k (smem s) = Some (p, m)"
      and s': "s' = at t (Print_Value p) (s\<lparr>todo := (todo s)(t := cs), smem := m\<rparr>)"
      using step Cons by (auto simp: call_step_def split: option.splits)
    show ?thesis
      by (rule quiet_step [OF inv, where t = t])
        (use Print_Head Cons idle load_published [OF l] in \<open>simp_all add: s' pending_def relies_simps pushes_def\<close>)
  qed (use step Cons idle in \<open>auto simp: call_step_def pending_def relies_simps pushes_def Let_def
        split: if_splits intro!: quiet_step [OF inv, where t = t]\<close>)
qed (use step in \<open>simp add: call_step_def\<close>)

lemma print_step_inv:
  assumes inv: "stack_inv s" and step: "print_step t s = Some s'"
  shows "stack_inv s'"
proof (cases "stack_pc s t")
  case (Print_Value p)
  then show ?thesis
    using step by (cases p) (auto simp: print_step_def pending_def relies_simps split_beta
        intro!: quiet_step [OF inv, where t = t])
qed (use step in \<open>simp_all add: print_step_def\<close>)

lemma stack_next_inv: "stack_inv s \<Longrightarrow> stack_next c s = Some s' \<Longrightarrow> stack_inv s'"
  by (cases "stack_pc s (thread c)")
    (auto simp: stack_next_def Let_def split: if_splits
      intro: call_step_inv stack_push_inv pop_normal_step_inv pop_vulnerable_step_inv print_step_inv)

interpretation stack_machine: machine stack_next "stack_init progs" "\<lambda>s. no_reuse progs \<longrightarrow> stack_inv s" for progs
  by unfold_locales (blast intro: stack_inv_init stack_next_inv)+

section \<open>Sequentially consistent executions\<close>

text \<open>
  The same threads on one shared memory: a load reads the newest value, a compare-exchange
  fails only if the value differs.  Each of these steps is one the threads can make on the
  memory of \<open>Cxx_Memory\<close> too, so what such an execution does, the program can do.
\<close>

record sc_stack =
  c_top :: node_ptr
  c_cell :: "field \<Rightarrow> content"
  c_pc :: "tid \<Rightarrow> stack_pc"
  c_todo :: "tid \<Rightarrow> stack_call list"
  c_live :: "tid \<Rightarrow> bool"
  c_results :: "tid \<Rightarrow> node_ptr list"
  c_printed :: "i32 list"
  c_events :: "stack_event list"

definition observe :: "stack \<Rightarrow> sc_stack" where
  "observe s =
     \<lparr>c_top = stack_top s, c_cell = cell (smem s), c_pc = stack_pc s, c_todo = todo s, c_live = live s,
      c_results = results s, c_printed = printed_value s, c_events = events s\<rparr>"

definition c_at :: "tid \<Rightarrow> stack_pc \<Rightarrow> sc_stack \<Rightarrow> sc_stack" where
  "c_at t p s = s\<lparr>c_pc := (c_pc s)(t := p)\<rparr>"

definition c_returns :: "tid \<Rightarrow> node_ptr \<Rightarrow> sc_stack \<Rightarrow> sc_stack" where
  "c_returns t r s = c_at t Idle (s\<lparr>c_results := (c_results s)(t := c_results s t @ [r])\<rparr>)"

definition c_test :: "tid \<Rightarrow> sc_stack \<Rightarrow> sc_stack" where
  "c_test t s = (case c_top s of None \<Rightarrow> c_returns t None s | Some old \<Rightarrow> c_at t (Pop_Next old) s)"

definition sc_call :: "tid \<Rightarrow> sc_stack \<Rightarrow> sc_stack option" where
  "sc_call t s =
     (case c_todo s t of
        [] \<Rightarrow> None
      | c # cs \<Rightarrow>
          (let s' = s\<lparr>c_todo := (c_todo s)(t := cs)\<rparr>
           in case c of
                Push n v \<Rightarrow> Some (c_at t (Push_Value n v) s')
              | Pop_Normal \<Rightarrow> Some (c_at t Pop_Load s')
              | Pop_Vulnerable \<Rightarrow> Some (c_at t Vuln_Load s')
              | Start u \<Rightarrow> Some (s'\<lparr>c_live := (c_live s)(u := True)\<rparr>)
              | Join u \<Rightarrow>
                  if c_live s u \<and> c_pc s u = Idle \<and> c_todo s u = [] \<and> u \<noteq> t then Some s' else None
              | Print_Head \<Rightarrow> Some (c_at t (Print_Value (c_top s)) s')))"

definition sc_next :: "tid \<Rightarrow> sc_stack \<Rightarrow> sc_stack option" where
  "sc_next t s =
     (if \<not> c_live s t then None
      else case c_pc s t of
        Idle \<Rightarrow> sc_call t s
      | Push_Value n v \<Rightarrow> Some (c_at t (Push_Load n) (s\<lparr>c_cell := (c_cell s)(Value n := Val v)\<rparr>))
      | Push_Load n \<Rightarrow> Some (c_at t (Push_Next n (c_top s)) s)
      | Push_Next n p \<Rightarrow> Some (c_at t (Push_Expected n) (s\<lparr>c_cell := (c_cell s)(Next n := Ptr p)\<rparr>))
      | Push_Expected n \<Rightarrow> Some (c_at t (Push_Cas n (ptr_of (c_cell s (Next n)))) s)
      | Push_Cas n e \<Rightarrow>
          Some (if c_top s = e then c_at t Idle (s\<lparr>c_top := Some n, c_events := c_events s @ [Pushed n]\<rparr>)
                else c_at t (Push_Failed n (c_top s)) s)
      | Push_Failed n p \<Rightarrow> Some (c_at t (Push_Expected n) (s\<lparr>c_cell := (c_cell s)(Next n := Ptr p)\<rparr>))
      | Pop_Load \<Rightarrow> Some (c_test t s)
      | Pop_Next old \<Rightarrow> Some (c_at t (Pop_Cas old (ptr_of (c_cell s (Next old)))) s)
      | Pop_Cas old nxt \<Rightarrow>
          Some (if c_top s = Some old
                then c_returns t (Some old) (s\<lparr>c_top := nxt, c_events := c_events s @ [Popped old]\<rparr>)
                else c_test t s)
      | Vuln_Load \<Rightarrow> Some (c_at t (Vuln_Next (c_top s)) s)
      | Vuln_Next p \<Rightarrow>
          Some (case p of None \<Rightarrow> c_at t Crashed s
                | Some old \<Rightarrow> c_at t (Vuln_Cas old (ptr_of (c_cell s (Next old)))) s)
      | Vuln_Cas old nxt \<Rightarrow>
          Some (if c_top s = Some old
                then c_returns t (Some old) (s\<lparr>c_top := nxt, c_events := c_events s @ [Popped old]\<rparr>)
                else c_returns t None s)
      | Print_Value p \<Rightarrow>
          Some (case p of None \<Rightarrow> c_at t Crashed s
                | Some n \<Rightarrow> c_at t Idle (s\<lparr>c_printed := c_printed s @ [val_of (c_cell s (Value n))]\<rparr>))
      | Crashed \<Rightarrow> None)"

lemma load_newest:
  fixes m :: "('v, unit, 'w, 'n) memory"
  assumes "mem_ok m"
  shows "\<exists>m'. a_load mo t () (length (hist m ()) - 1) m = Some (mval (last (hist m ())), m') \<and>
              hist m' = hist m \<and> cell m' = cell m \<and> mem_ok m'"
proof -
  have "seen (tview m t) () < length (hist m ())" using mem_ok_tview [OF assms] by (simp add: view_ok_def)
  moreover have "hist m () ! (length (hist m ()) - 1) = last (hist m ())"
    using mem_ok_hist [OF assms] by (simp add: last_conv_nth)
  ultimately have "\<exists>m'. a_load mo t () (length (hist m ()) - 1) m = Some (mval (last (hist m ())), m')"
    by (simp add: a_load_Some) linarith
  then obtain m' where l: "a_load mo t () (length (hist m ()) - 1) m = Some (mval (last (hist m ())), m')" ..
  with load_view(1,2,15) [OF assms l] show ?thesis by blast
qed

lemma exchange_newest:
  fixes m :: "('v, unit, 'w, 'n) memory"
  assumes "mem_ok m"
  shows "\<exists>ch b v m'. a_cas weak success failure t () e d ch m = Some (b, v, m') \<and> cell m' = cell m \<and> mem_ok m' \<and>
     (if mval (last (hist m ())) = e then b \<and> mval (last (hist m' ())) = d
      else \<not> b \<and> v = mval (last (hist m ())) \<and> hist m' = hist m)"
proof (cases "mval (last (hist m ())) = e")
  case True
  then show ?thesis
    by (intro exI [of _ Cas_Succeed] exI [of _ True]) (simp add: a_cas_def a_rmw_ok [OF assms])
next
  case False
  obtain m' where "a_load failure t () (length (hist m ()) - 1) m = Some (mval (last (hist m ())), m')"
    "hist m' = hist m" "cell m' = cell m" "mem_ok m'" using load_newest [OF assms] by blast
  with False show ?thesis
    by (intro exI [of _ "Cas_Fail (length (hist m ()) - 1)"] exI [of _ False]) (simp add: a_cas_def)
qed

lemma observe_simps [simp]:
  "c_top (observe s) = stack_top s" "c_cell (observe s) = cell (smem s)" "c_pc (observe s) = stack_pc s"
  "c_todo (observe s) = todo s" "c_live (observe s) = live s" "c_results (observe s) = results s"
  "c_printed (observe s) = printed_value s" "c_events (observe s) = events s"
  by (simp_all add: observe_def)

lemma observe_at [simp]: "observe (at t p s) = c_at t p (observe s)"
  "observe (returns t r s) = c_returns t r (observe s)"
  by (simp_all add: observe_def at_def c_at_def returns_def c_returns_def stack_top_def)

lemma observe_memory [simp]:
  "observe (s\<lparr>smem := m\<rparr>) = (observe s)\<lparr>c_top := mval (last (hist m ())), c_cell := cell m\<rparr>"
  "observe (s\<lparr>smem := m, events := es\<rparr>) =
     (observe s)\<lparr>c_top := mval (last (hist m ())), c_cell := cell m, c_events := es\<rparr>"
  "observe (s\<lparr>smem := m, printed_value := vs\<rparr>) =
     (observe s)\<lparr>c_top := mval (last (hist m ())), c_cell := cell m, c_printed := vs\<rparr>"
  by (simp_all add: observe_def stack_top_def)

lemma observe_same [simp]:
  "(observe s)\<lparr>c_top := stack_top s, c_cell := x\<rparr> = (observe s)\<lparr>c_cell := x\<rparr>"
  "(observe s)\<lparr>c_cell := cell (smem s)\<rparr> = observe s" "(observe s)\<lparr>c_top := stack_top s\<rparr> = observe s"
  "(observe s)\<lparr>c_top := stack_top s, c_cell := cell (smem s), c_printed := vs\<rparr> = (observe s)\<lparr>c_printed := vs\<rparr>"
  "(observe s)\<lparr>c_top := p, c_cell := cell (smem s)\<rparr> = (observe s)\<lparr>c_top := p\<rparr>"
  "(observe s)\<lparr>c_top := p, c_cell := cell (smem s), c_events := es\<rparr> = (observe s)\<lparr>c_top := p, c_events := es\<rparr>"
  by (simp_all add: observe_def)

lemma observe_test [simp]:
  "c_top (observe s) = p \<Longrightarrow> observe (pop_test t p s) = c_test t (observe s)"
  by (cases p) (auto simp: pop_test_def c_test_def)

definition allows :: "stack option \<Rightarrow> sc_stack \<Rightarrow> bool" where
  "allows r c \<longleftrightarrow> (case r of None \<Rightarrow> False | Some s' \<Rightarrow> observe s' = c \<and> mem_ok (smem s'))"

lemma sc_call_possible:
  assumes ok: "mem_ok (smem s)" and step: "sc_call t (observe s) = Some c"
  shows "allows (call_step t (length (hist (smem s) ()) - 1) s) c"
proof -
  obtain d cs where d: "todo s t = d # cs" using step by (cases "todo s t") (simp_all add: sc_call_def)
  obtain m where "a_load Relaxed t () (length (hist (smem s) ()) - 1) (smem s) = Some (stack_top s, m)"
    "hist m = hist (smem s)" "cell m = cell (smem s)" "mem_ok m"
    using load_newest [OF ok] unfolding stack_top_def by blast
  then show ?thesis
    using step ok d
    by (cases d)
      (auto simp: sc_call_def call_step_def allows_def observe_def c_at_def at_def stack_top_def
        t_start_ok t_join_ok split: if_splits)
qed

lemma sc_step_possible:
  assumes ok: "mem_ok (smem s)" and step: "sc_next t (observe s) = Some c"
  shows "\<exists>ch. allows (stack_next ch s) c"
proof -
  let ?k = "length (hist (smem s) ()) - 1"
  let ?act = "\<lambda>ch. stack_next \<lparr>thread = t, message = ?k, exchange = ch\<rparr> s"
  have live: "live s t" using step by (simp add: sc_next_def split: if_splits)
  have ld: "\<exists>m. a_load mo t () ?k (smem s) = Some (stack_top s, m) \<and> mval (last (hist m ())) = stack_top s \<and>
      cell m = cell (smem s) \<and> mem_ok m" for mo
    using load_newest [OF ok, of mo t] by (auto simp: stack_top_def)
  have cas: "\<exists>ch b v m. a_cas weak mo1 mo2 t () e d ch (smem s) = Some (b, v, m) \<and> cell m = cell (smem s) \<and> mem_ok m \<and>
     (if stack_top s = e then b \<and> mval (last (hist m ())) = d
      else \<not> b \<and> v = stack_top s \<and> mval (last (hist m ())) = stack_top s)" for weak mo1 mo2 e d
    using exchange_newest [OF ok, of weak mo1 mo2 t e d] by (fastforce simp: stack_top_def)
  have "\<exists>ch. allows (?act ch) c"
  proof (cases "stack_pc s t")
    case Idle
    then show ?thesis using sc_call_possible [OF ok] step live by (simp add: sc_next_def stack_next_def)
  next
    case (Push_Load n)
    with ld [of Relaxed] step live show ?thesis
      by (auto simp: sc_next_def stack_next_def stack_push_step_def allows_def)
  next
    case (Push_Cas n e)
    obtain ch b v m where "a_cas True Release Relaxed t () e (Some n) ch (smem s) = Some (b, v, m)" "cell m = cell (smem s)"
      "mem_ok m" "if stack_top s = e then b \<and> mval (last (hist m ())) = Some n
         else \<not> b \<and> v = stack_top s \<and> mval (last (hist m ())) = stack_top s"
      using cas [of True Release Relaxed e "Some n"] by blast
    then have "allows (?act ch) c" using step live Push_Cas
      by (auto simp: sc_next_def stack_next_def stack_push_step_def allows_def split: if_splits)
    then show ?thesis ..
  next
    case Pop_Load
    with ld [of Acquire] step live show ?thesis
      by (auto simp: sc_next_def stack_next_def pop_normal_step_def allows_def)
  next
    case (Pop_Cas old nxt)
    obtain ch b v m where "a_cas True Acquire Relaxed t () (Some old) nxt ch (smem s) = Some (b, v, m)" "cell m = cell (smem s)"
      "mem_ok m" "if stack_top s = Some old then b \<and> mval (last (hist m ())) = nxt
         else \<not> b \<and> v = stack_top s \<and> mval (last (hist m ())) = stack_top s"
      using cas [of True Acquire Relaxed "Some old" nxt] by blast
    then have "allows (?act ch) c" using step live Pop_Cas
      by (auto simp: sc_next_def stack_next_def pop_normal_step_def allows_def split: if_splits)
    then show ?thesis ..
  next
    case Vuln_Load
    with ld [of Acquire] step live show ?thesis
      by (auto simp: sc_next_def stack_next_def pop_vulnerable_step_def allows_def)
  next
    case (Vuln_Cas old nxt)
    obtain ch b v m where "a_cas False Release Relaxed t () (Some old) nxt ch (smem s) = Some (b, v, m)" "cell m = cell (smem s)"
      "mem_ok m" "if stack_top s = Some old then b \<and> mval (last (hist m ())) = nxt
         else \<not> b \<and> v = stack_top s \<and> mval (last (hist m ())) = stack_top s"
      using cas [of False Release Relaxed "Some old" nxt] by blast
    then have "allows (?act ch) c" using step live Vuln_Cas
      by (auto simp: sc_next_def stack_next_def pop_vulnerable_step_def allows_def split: if_splits)
    then show ?thesis ..
  next
    case (Vuln_Next p)
    with step live ok show ?thesis
      by (cases p) (auto simp: sc_next_def stack_next_def pop_vulnerable_step_def allows_def na_read_ok stack_top_def [symmetric] split_beta)
  next
    case (Print_Value p)
    with step live ok show ?thesis
      by (cases p) (auto simp: sc_next_def stack_next_def print_step_def allows_def na_read_ok stack_top_def [symmetric] split_beta)
  next
    case (Pop_Next old)
    with step live ok show ?thesis
      by (auto simp: sc_next_def stack_next_def pop_normal_step_def allows_def na_read_ok stack_top_def [symmetric] split_beta)
  qed (use step live ok in \<open>auto simp: sc_next_def stack_next_def stack_push_step_def allows_def na_read_ok na_write_ok
        stack_top_def [symmetric] split_beta\<close>)
  then show ?thesis by blast
qed

lemma sc_run_possible:
  "mem_ok (smem s) \<Longrightarrow> run sc_next ts (observe s) = Some c \<Longrightarrow>
     \<exists>s'. reach stack_next s s' \<and> observe s' = c"
proof (induction ts arbitrary: s)
  case Nil
  then show ?case by (auto intro: reach_start)
next
  case (Cons t ts)
  then obtain d where d: "sc_next t (observe s) = Some d" "run sc_next ts d = Some c"
    by (auto split: option.splits)
  then obtain ch s1 where s1: "stack_next ch s = Some s1" "observe s1 = d" "mem_ok (smem s1)"
    using sc_step_possible [OF Cons.prems(1)] by (fastforce simp: allows_def split: option.splits)
  then obtain s' where "reach stack_next s1 s'" "observe s' = c" using Cons.IH d(2) by blast
  with reach_step [where nxt = stack_next, OF reach_start s1(1)] show ?case by (blast intro: reach_trans)
qed

lemma init_mem_ok: "mem_ok (smem (stack_init progs))"
  by (simp add: stack_init_def mem_ok_init)

lemma sc_from_start:
  assumes "run_to sc_next ts (observe (stack_init progs)) P"
  shows "\<exists>s. reach stack_next (stack_init progs) s \<and> P (observe s)"
proof -
  obtain c where "run sc_next ts (observe (stack_init progs)) = Some c" "P c"
    using run_to_run [OF assms] by blast
  with sc_run_possible [OF init_mem_ok] show ?thesis by blast
qed

lemma pop_test_mem [simp]: "smem (pop_test t p s) = smem s"
  by (cases p) (simp_all add: pop_test_def)

lemma stack_next_mem_ok: "mem_ok (smem s) \<Longrightarrow> stack_next c s = Some s' \<Longrightarrow> mem_ok (smem s')"
  by (cases "stack_pc s (thread c)")
    (auto simp: stack_next_def Let_def split_beta call_step_def stack_push_step_def pop_normal_step_def
      pop_vulnerable_step_def print_step_def t_start_ok t_join_ok na_read_ok na_write_ok
      split: if_splits list.splits stack_call.splits option.splits intro: a_load_ok a_cas_ok)

section \<open>Properties\<close>

text \<open>\<open>main\<close> up to the start of both threads, and the three schedules of \<open>t1\<close> against \<open>t2\<close>.\<close>

definition build_stack :: "tid list" where
  "build_stack = replicate 20 0"

definition aba_schedule :: "tid list" where
  "aba_schedule = build_stack @ replicate 3 1 @ replicate 14 2 @ [1] @ replicate 4 0"

definition late_schedule :: "tid list" where
  "late_schedule = build_stack @ replicate 14 2 @ replicate 4 1 @ replicate 4 0"

definition failing_schedule :: "tid list" where
  "failing_schedule = build_stack @ replicate 3 1 @ replicate 4 2 @ [1] @ replicate 10 2 @ replicate 4 0"

lemma aba_run:
  "run_to sc_next aba_schedule (observe (stack_init aba_program))
     (\<lambda>c. c_results c 1 = [Some 0] \<and> c_results c 2 = [Some 0, Some 1] \<and> c_printed c = [66] \<and>
          chain (c_cell c) (c_top c) [1, 2] \<and> replay (c_events c) [] = Some [2])"
  by code_simp

lemma late_run:
  "run_to sc_next late_schedule (observe (stack_init aba_program))
     (\<lambda>c. c_results c 1 = [Some 0] \<and> c_results c 2 = [Some 0, Some 1] \<and> c_printed c = [67] \<and>
          chain (c_cell c) (c_top c) [2] \<and> replay (c_events c) [] = Some [2])"
  by code_simp

lemma failing_run:
  "run_to sc_next failing_schedule (observe (stack_init aba_program))
     (\<lambda>c. c_results c 1 = [None] \<and> c_results c 2 = [Some 0, Some 1] \<and> c_printed c = [65] \<and>
          chain (c_cell c) (c_top c) [0, 2] \<and> replay (c_events c) [] = Some [0, 2])"
  by code_simp

text \<open>Chains are determined by where they start.\<close>

lemma chain_unique: "chain c p xs \<Longrightarrow> chain c p ys \<Longrightarrow> xs = ys"
  by (induction xs arbitrary: p ys) (case_tac ys; auto)+

lemma stack_inv_holds:
  assumes "stack_inv s"
  shows "\<exists>xs. replay (events s) [] = Some xs \<and> holds s xs \<and> distinct xs \<and>
              distinct (popped_nodes (events s)) \<and> set (popped_nodes (events s)) \<inter> set xs = {}"
proof -
  obtain xs where "holds s xs" "replay (events s) [] = Some xs" "distinct (pushed_nodes (events s))"
    using assms by (auto simp: stack_inv_def list_inv_def)
  with replay_distinct show ?thesis by blast
qed

text \<open>
  Property C11. Without reuse of nodes the stack is a stack: for any number of threads and any
  calls, if no node is pushed by two calls, then in every execution without a data race, also
  on stale values of \<open>head\<close> and with spurious failures, each successful compare-exchange pushes
  a node on top or takes the top, the nodes linked from \<open>head\<close> are exactly those pushed and not
  yet popped, and no node is popped twice.  An execution with a race has no defined behaviour,
  and \<open>pop_normal\<close> can race (\<open>Aba_Races\<close>): the hypothesis on \<open>race\<close> leaves exactly those out.
\<close>

theorem stack_without_reuse:
  assumes "no_reuse progs" and "reach stack_next (stack_init progs) s" and "\<not> race (smem s)"
  shows "\<exists>xs. replay (events s) [] = Some xs \<and> holds s xs \<and> distinct xs \<and>
              distinct (popped_nodes (events s)) \<and> set (popped_nodes (events s)) \<inter> set xs = {}"
  by (rule stack_inv_holds) (use stack_machine.inv_reach [OF assms(2)] assms(1) in blast)

definition fresh_program :: "tid \<Rightarrow> stack_call list" where
  "fresh_program t = (if t = 0 then [Push 2 67, Start 1, Push 1 66] else if t = 1 then [Pop_Normal] else [])"

lemma fresh_no_reuse: "no_reuse fresh_program"
  by (simp add: no_reuse_def fresh_program_def pushes_def)

text \<open>Thread 1 pops C while \<open>main\<close> is about to push B on it; the push finds out and tries again.\<close>

definition act :: "tid \<Rightarrow> nat \<Rightarrow> stack_choice" where
  "act t k = \<lparr>thread = t, message = k, exchange = Cas_Succeed\<rparr>"

definition fresh_schedule :: "stack_choice list" where
  "fresh_schedule =
     replicate 7 (act 0 0) @ [act 1 0, act 1 1, act 1 0] @ replicate 4 (act 0 1) @ [act 1 0] @
     [act 0 0, \<lparr>thread = 0, message = 0, exchange = Cas_Fail 2\<rparr>, act 0 0, act 0 0, act 0 0]"

lemma fresh_run:
  "run_to stack_next fresh_schedule (stack_init fresh_program)
     (\<lambda>s. events s = [Pushed 2, Popped 2, Pushed 1] \<and> \<not> race (smem s))"
  by code_simp

theorem stack_without_reuse_witness:
  "\<exists>s. reach stack_next (stack_init fresh_program) s \<and> events s = [Pushed 2, Popped 2, Pushed 1] \<and>
       \<not> race (smem s) \<and> holds s [1]"
proof -
  obtain s where s: "reach stack_next (stack_init fresh_program) s" "events s = [Pushed 2, Popped 2, Pushed 1]"
    "\<not> race (smem s)"
    using run_toD [OF fresh_run] by blast
  from stack_without_reuse [OF fresh_no_reuse s(1,3)] s show ?thesis by auto
qed

text \<open>
  What the demonstration does in three schedules.  If \<open>t1\<close> stops between its reads and its
  exchange until \<open>t2\<close> has popped A and B and pushed A again, the exchange succeeds: A has been
  popped twice and pushed again once, \<open>head\<close> is B, which \<open>t2\<close> has already popped, the stack
  that should hold C links B and C, and \<open>main\<close> prints B.  If \<open>t1\<close> starts after \<open>t2\<close> it also
  reports that ABA fired, but the stack is right; if it commits while A is away, its exchange
  fails.
\<close>

lemma aba_demonstration:
  "(\<exists>s. reach stack_next (stack_init aba_program) s \<and> results s 1 = [Some 0] \<and> results s 2 = [Some 0, Some 1] \<and>
        printed_value s = [66] \<and> holds s [1, 2] \<and> replay (events s) [] = Some [2]) \<and>
   (\<exists>s. reach stack_next (stack_init aba_program) s \<and> results s 1 = [Some 0] \<and> results s 2 = [Some 0, Some 1] \<and>
        printed_value s = [67] \<and> holds s [2] \<and> replay (events s) [] = Some [2]) \<and>
   (\<exists>s. reach stack_next (stack_init aba_program) s \<and> results s 1 = [None] \<and> results s 2 = [Some 0, Some 1] \<and>
        printed_value s = [65] \<and> holds s [0, 2] \<and> replay (events s) [] = Some [0, 2])"
  using sc_from_start [OF aba_run] sc_from_start [OF late_run] sc_from_start [OF failing_run]
  by (simp add: holds_def)

text \<open>Which threads can dereference null.\<close>

definition crash_inv :: "(tid \<Rightarrow> stack_call list) \<Rightarrow> stack \<Rightarrow> bool" where
  "crash_inv progs s \<longleftrightarrow>
     (\<forall>t. set (todo s t) \<subseteq> set (progs t) \<and>
        (case stack_pc s t of
           Vuln_Load \<Rightarrow> Pop_Vulnerable \<in> set (progs t)
         | Vuln_Next p \<Rightarrow> Pop_Vulnerable \<in> set (progs t)
         | Print_Value p \<Rightarrow> Print_Head \<in> set (progs t)
         | Crashed \<Rightarrow> Pop_Vulnerable \<in> set (progs t) \<or> Print_Head \<in> set (progs t)
         | _ \<Rightarrow> True))"

lemma crash_invD:
  assumes "crash_inv progs s"
  shows "set (todo s t) \<subseteq> set (progs t)"
    and "stack_pc s t = Vuln_Load \<or> stack_pc s t = Vuln_Next p \<Longrightarrow> Pop_Vulnerable \<in> set (progs t)"
    and "stack_pc s t = Print_Value p \<Longrightarrow> Print_Head \<in> set (progs t)"
    and "stack_pc s t = Crashed \<Longrightarrow> Pop_Vulnerable \<in> set (progs t) \<or> Print_Head \<in> set (progs t)"
  using assms unfolding crash_inv_def by (auto dest!: spec [of _ t])

lemma crash_inv_frame:
  assumes "crash_inv progs s" and "\<And>u. u \<noteq> t \<Longrightarrow> stack_pc s' u = stack_pc s u \<and> todo s' u = todo s u"
    and "set (todo s' t) \<subseteq> set (progs t)"
    and "stack_pc s' t = Vuln_Load \<or> (\<exists>p. stack_pc s' t = Vuln_Next p) \<Longrightarrow> Pop_Vulnerable \<in> set (progs t)"
    and "\<exists>p. stack_pc s' t = Print_Value p \<Longrightarrow> Print_Head \<in> set (progs t)"
    and "stack_pc s' t = Crashed \<Longrightarrow> Pop_Vulnerable \<in> set (progs t) \<or> Print_Head \<in> set (progs t)"
  shows "crash_inv progs s'"
  unfolding crash_inv_def
proof (intro allI conjI)
  fix u
  show "set (todo s' u) \<subseteq> set (progs u)"
    using assms(2,3) crash_invD(1) [OF assms(1), of u] by (cases "u = t") auto
  show "case stack_pc s' u of
          Vuln_Load \<Rightarrow> Pop_Vulnerable \<in> set (progs u)
        | Vuln_Next p \<Rightarrow> Pop_Vulnerable \<in> set (progs u)
        | Print_Value p \<Rightarrow> Print_Head \<in> set (progs u)
        | Crashed \<Rightarrow> Pop_Vulnerable \<in> set (progs u) \<or> Print_Head \<in> set (progs u)
        | _ \<Rightarrow> True"
    using assms crash_invD [OF assms(1), of u] by (cases "u = t"; cases "stack_pc s' u") auto
qed

lemma crash_inv_next:
  assumes inv: "crash_inv progs s" and step: "stack_next c s = Some s'"
  shows "crash_inv progs s'"
  using step crash_invD [OF inv, of "thread c"]
  by (cases "stack_pc s (thread c)")
    (auto simp: stack_next_def Let_def split_beta call_step_def stack_push_step_def pop_normal_step_def
      pop_vulnerable_step_def print_step_def split: if_splits list.splits stack_call.splits option.splits
      intro!: crash_inv_frame [OF inv, where t = "thread c"])

interpretation crash_machine: machine stack_next "stack_init progs" "\<lambda>s. crash_inv progs s \<and> mem_ok (smem s)" for progs
proof
  show "crash_inv progs (stack_init progs) \<and> mem_ok (smem (stack_init progs))"
    using init_mem_ok by (simp add: crash_inv_def stack_init_def)
qed (blast intro: crash_inv_next stack_next_mem_ok)

text \<open>
  Property C34. \<open>pop_normal\<close> reports an empty stack, \<open>pop_vulnerable\<close> crashes on it: a thread
  can only dereference null in \<open>pop_vulnerable\<close>, which does not test the head it loads, or in
  \<open>main\<close>'s print; and whenever the stack is empty, a \<open>pop_vulnerable\<close> about to start can crash
  while a \<open>pop_normal\<close> can return null.
\<close>

theorem null_head_crashes:
  assumes "reach stack_next (stack_init progs) s"
  shows "(stack_pc s t = Crashed \<longrightarrow> Pop_Vulnerable \<in> set (progs t) \<or> Print_Head \<in> set (progs t)) \<and>
    (live s t \<and> stack_pc s t = Idle \<and> stack_top s = None \<and> todo s t = Pop_Vulnerable # cs \<longrightarrow>
       (\<exists>u. reach stack_next s u \<and> stack_pc u t = Crashed)) \<and>
    (live s t \<and> stack_pc s t = Idle \<and> stack_top s = None \<and> todo s t = Pop_Normal # cs \<longrightarrow>
       (\<exists>u. reach stack_next s u \<and> stack_pc u t = Idle \<and> results u t = results s t @ [None]))"
proof -
  have i: "crash_inv progs s" "mem_ok (smem s)" using crash_machine.inv_reach [OF assms] by simp_all
  have lift: "\<exists>u. reach stack_next s u \<and> P (observe u)" if "run_to sc_next ts (observe s) P" for ts P
    using run_to_run [OF that] sc_run_possible [OF i(2)] by blast
  have "\<exists>u. reach stack_next s u \<and> stack_pc u t = Crashed"
    if "live s t" "stack_pc s t = Idle" "stack_top s = None" "todo s t = Pop_Vulnerable # cs"
    using lift [of "[t, t, t]" "\<lambda>c. c_pc c t = Crashed"] that
    by (simp add: run_to_def sc_next_def sc_call_def c_at_def)
  moreover have "\<exists>u. reach stack_next s u \<and> stack_pc u t = Idle \<and> results u t = results s t @ [None]"
    if "live s t" "stack_pc s t = Idle" "stack_top s = None" "todo s t = Pop_Normal # cs"
    using lift [of "[t, t]" "\<lambda>c. c_pc c t = Idle \<and> c_results c t = results s t @ [None]"] that
    by (simp add: run_to_def sc_next_def sc_call_def c_at_def c_test_def c_returns_def)
  ultimately show ?thesis using crash_invD(4) [OF i(1)] by blast
qed

definition empty_program :: "tid \<Rightarrow> stack_call list" where
  "empty_program t = (if t = 0 then [Pop_Normal, Pop_Vulnerable] else [])"

theorem null_head_crashes_witness:
  "\<exists>s u. reach stack_next (stack_init empty_program) s \<and> results s 0 = [None] \<and>
         reach stack_next s u \<and> stack_pc u 0 = Crashed"
proof -
  have "run_to sc_next [0, 0] (observe (stack_init empty_program))
      (\<lambda>c. c_results c 0 = [None] \<and> c_top c = None \<and> c_live c 0 \<and> c_pc c 0 = Idle \<and> c_todo c 0 = [Pop_Vulnerable])"
    by code_simp
  then obtain s where s: "reach stack_next (stack_init empty_program) s" "results s 0 = [None]" "stack_top s = None"
    "live s 0" "stack_pc s 0 = Idle" "todo s 0 = [Pop_Vulnerable]"
    by (auto dest: sc_from_start)
  from null_head_crashes [OF s(1), of 0 "[]"] s show ?thesis by blast
qed

end
