(* ===== verification/Aba_Races.thy ===== *)
theory Aba_Races
  imports Broken_Aba
begin

text \<open>
  The data races of \<open>experiments/broken_aba.cpp\<close>, on the model of \<open>Broken_Aba\<close>.  Two facts
  are proved for any threads and calls.  An exchange of a pop that goes wrong - an ABA - comes
  with a race on a \<open>next\<close> field.  And without reuse of nodes the only race is the one of
  \<open>pop_normal\<close> after a failed exchange, and it is there because of the relaxed failure order:
  the same stack with an acquire order there has no race.
\<close>

section \<open>The next field a pop has read\<close>

text \<open>
  A pop at its exchange: the field it read still has the value it read, its read is on record,
  and no other thread and no message knows of that read.
\<close>

definition unknown :: "(node_ptr, unit, content, field) memory \<Rightarrow> tid \<Rightarrow> bool" where
  "unknown m t \<longleftrightarrow>
     (\<forall>u. u \<noteq> t \<longrightarrow> clock (tview m u) t < clock (tview m t) t) \<and>
     (\<forall>msg \<in> set (hist m ()). clock (mview msg) t < clock (tview m t) t)"

definition fresh_read :: "(node_ptr, unit, content, field) memory \<Rightarrow> tid \<Rightarrow> nat \<Rightarrow> node_ptr \<Rightarrow> bool" where
  "fresh_read m t old nxt \<longleftrightarrow>
     ptr_of (cell m (Next old)) = nxt \<and> (t, clock (tview m t) t) \<in> set (reads m (Next old)) \<and> unknown m t"

lemma fresh_na_read_own:
  assumes "mem_ok m"
  shows "fresh_read (snd (na_read t (Next old) m)) t old (ptr_of (cell m (Next old)))"
proof -
  have "clock (tview m u) t \<le> clock (tview m t) t" for u
    using mem_ok_tview [OF assms, of u] by (simp add: view_ok_def)
  moreover have "clock (mview msg) t \<le> clock (tview m t) t" if "msg \<in> set (hist m ())" for msg
    using mem_ok_message [OF assms that] by (simp add: view_ok_def)
  ultimately show ?thesis by (simp add: fresh_read_def unknown_def less_Suc_eq_le)
qed

lemma fresh_na_read: "fresh_read m t old nxt \<Longrightarrow> u \<noteq> t \<Longrightarrow> fresh_read (snd (na_read u x m)) t old nxt"
  by (auto simp: fresh_read_def unknown_def)

text \<open>A write of that field by another thread is a race.\<close>

lemma fresh_na_write:
  assumes "fresh_read m t old nxt" and "u \<noteq> t" and "\<not> race (na_write u x y m)"
  shows "fresh_read (na_write u x y m) t old nxt"
proof -
  have "\<not> ordered (tview m u) (t, clock (tview m t) t)"
    using assms(1,2) by (simp add: fresh_read_def unknown_def ordered_def not_le)
  then have "x \<noteq> Next old" using assms(1,3) by (auto simp: fresh_read_def list_all_iff)
  then show ?thesis using assms(1,2) by (auto simp: fresh_read_def unknown_def)
qed

lemma fresh_view:
  assumes "fresh_read m t old nxt" and "u \<noteq> t" and "clock v t < clock (tview m t) t"
  shows "fresh_read (set_tview u v m) t old nxt"
  using assms by (auto simp: fresh_read_def unknown_def)

lemma fresh_load:
  assumes "fresh_read m t old nxt" and "u \<noteq> t" and "a_load mo u () k m = Some (p, m')"
  shows "fresh_read m' t old nxt"
proof -
  have "k < length (hist m ())" using assms(3) by (simp add: a_load_Some)
  then have "clock (mview (hist m () ! k)) t < clock (tview m t) t"
    using assms(1) by (simp add: fresh_read_def unknown_def)
  then show ?thesis
    using assms by (auto simp: a_load_Some fresh_read_def unknown_def intro!: fresh_view)
qed

lemma fresh_rmw:
  assumes "fresh_read m t old nxt" and "u \<noteq> t" and "hist m () \<noteq> []"
  shows "fresh_read (snd (a_rmw mo u () f m)) t old nxt"
proof -
  have "clock (mview (last (hist m ()))) t < clock (tview m t) t"
    using assms(1,3) by (simp add: fresh_read_def unknown_def)
  then show ?thesis using assms(1,2) by (auto simp: fresh_read_def unknown_def)
qed

lemma fresh_cas:
  assumes "fresh_read m t old nxt" and "u \<noteq> t" and "hist m () \<noteq> []"
    and "a_cas weak mos mof u () e d ch m = Some (b, p, m')"
  shows "fresh_read m' t old nxt"
  using assms(4) by (cases rule: a_cas_cases) (use assms(1-3) in \<open>auto intro: fresh_rmw fresh_load\<close>)

lemma fresh_start: "fresh_read m t old nxt \<Longrightarrow> u \<noteq> t \<Longrightarrow> fresh_read (t_start u w m) t old nxt"
  by (auto simp: fresh_read_def unknown_def max_absorb1)

lemma fresh_join: "fresh_read m t old nxt \<Longrightarrow> u \<noteq> t \<Longrightarrow> w \<noteq> t \<Longrightarrow> fresh_read (t_join u w m) t old nxt"
  by (auto simp: fresh_read_def unknown_def)

lemmas fresh_intros = fresh_na_read fresh_na_write fresh_load fresh_cas fresh_start fresh_join

definition at_exchange :: "stack \<Rightarrow> tid \<Rightarrow> nat \<Rightarrow> node_ptr \<Rightarrow> bool" where
  "at_exchange s t old nxt \<longleftrightarrow> stack_pc s t = Pop_Cas old nxt \<or> stack_pc s t = Vuln_Cas old nxt"

text \<open>Every step of a thread makes at most one access of the memory; a join waits for an idle thread.\<close>

inductive access :: "(tid \<Rightarrow> stack_pc) \<Rightarrow> tid \<Rightarrow> (node_ptr, unit, content, field) memory
    \<Rightarrow> (node_ptr, unit, content, field) memory \<Rightarrow> bool" for pc u m where
  access_none: "access pc u m m"
| access_read: "access pc u m (snd (na_read u x m))"
| access_write: "access pc u m (na_write u x y m)"
| access_load: "a_load mo u () k m = Some (p, m') \<Longrightarrow> access pc u m m'"
| access_cas: "a_cas weak mos mof u () e d ch m = Some (b, p, m') \<Longrightarrow> access pc u m m'"
| access_start: "access pc u m (t_start u w m)"
| access_join: "pc w = Idle \<Longrightarrow> access pc u m (t_join u w m)"

lemma stack_next_access:
  assumes "stack_next c s = Some s'"
  shows "access (stack_pc s) (thread c) (smem s) (smem s')"
proof (cases "stack_pc s (thread c)")
  case Idle
  then obtain d cs where d: "todo s (thread c) = d # cs"
    using assms by (cases "todo s (thread c)") (simp_all add: stack_next_def call_step_def Let_def split: if_splits)
  show ?thesis
    using assms Idle d
    by (cases d) (auto simp: stack_next_def call_step_def Let_def split: if_splits option.splits intro: access.intros)
qed (use assms in \<open>auto simp: stack_next_def Let_def split_beta stack_push_step_def pop_normal_step_def
      pop_vulnerable_step_def print_step_def split: if_splits option.splits intro: access.intros\<close>)

text \<open>The steps of another thread leave it so, or race.\<close>

lemma fresh_access:
  assumes "access pc u m m'" and "u \<noteq> t" and "hist m () \<noteq> []" and "pc t \<noteq> Idle" and "fresh_read m t old nxt"
    and "\<not> race m'"
  shows "fresh_read m' t old nxt"
  using assms by (cases rule: access.cases) (blast intro: fresh_intros)+

lemma fresh_other:
  assumes step: "stack_next c s = Some s'" and other: "thread c \<noteq> t" and ok: "mem_ok (smem s)"
    and here: "at_exchange s t old nxt" "fresh_read (smem s) t old nxt" and quiet: "\<not> race (smem s')"
  shows "fresh_read (smem s') t old nxt"
proof -
  have "stack_pc s t \<noteq> Idle" using here(1) by (auto simp: at_exchange_def)
  with fresh_access [OF stack_next_access [OF step] other mem_ok_hist [OF ok]] here(2) quiet show ?thesis by blast
qed

lemma pc_other: "stack_next c s = Some s' \<Longrightarrow> thread c \<noteq> t \<Longrightarrow> stack_pc s' t = stack_pc s t"
  by (cases "stack_pc s (thread c)")
    (auto simp: stack_next_def Let_def split_beta call_step_def stack_push_step_def pop_normal_step_def
      pop_vulnerable_step_def print_step_def split: if_splits list.splits stack_call.splits option.splits)

lemma access_race: "access pc u m m' \<Longrightarrow> mem_ok m \<Longrightarrow> race m \<Longrightarrow> race m'"
  by (induction rule: access.induct) (simp_all add: load_view(5) cas_view(4))

lemma race_kept: "stack_next c s = Some s' \<Longrightarrow> mem_ok (smem s) \<Longrightarrow> race (smem s) \<Longrightarrow> race (smem s')"
  by (rule access_race [OF stack_next_access])

text \<open>A thread comes to its exchange by the read of the field.\<close>

lemma fresh_own:
  assumes step: "stack_next c s = Some s'" and ok: "mem_ok (smem s)"
    and here: "at_exchange s' (thread c) old nxt"
  shows "fresh_read (smem s') (thread c) old nxt"
  using step here
  by (cases "stack_pc s (thread c)")
    (auto simp: at_exchange_def stack_next_def Let_def split_beta call_step_def stack_push_step_def
      pop_normal_step_def pop_vulnerable_step_def print_step_def pop_test_def fresh_na_read_own [OF ok]
      simp del: na_write_simps na_read_simps(2-)
      split: if_splits list.splits stack_call.splits option.splits)

definition next_inv :: "stack \<Rightarrow> bool" where
  "next_inv s \<longleftrightarrow> mem_ok (smem s) \<and>
     (race (smem s) \<or> (\<forall>t old nxt. at_exchange s t old nxt \<longrightarrow> fresh_read (smem s) t old nxt))"

lemma next_inv_next:
  assumes inv: "next_inv s" and step: "stack_next c s = Some s'"
  shows "next_inv s'"
proof -
  have ok: "mem_ok (smem s)" using inv by (simp add: next_inv_def)
  have "fresh_read (smem s') t old nxt" if "\<not> race (smem s')" "at_exchange s' t old nxt" for t old nxt
  proof (cases "t = thread c")
    case True
    with fresh_own [OF step ok] that(2) show ?thesis by blast
  next
    case False
    then have "at_exchange s t old nxt" using that(2) pc_other [OF step] by (simp add: at_exchange_def)
    moreover have "\<not> race (smem s)" using race_kept [OF step ok] that(1) by blast
    ultimately show ?thesis using fresh_other [OF step _ ok] inv False that(1) by (auto simp: next_inv_def)
  qed
  with stack_next_mem_ok [OF ok step] show ?thesis by (auto simp: next_inv_def)
qed

interpretation reading_machine: machine stack_next "stack_init progs" next_inv for progs
proof
  show "next_inv (stack_init progs)"
    using init_mem_ok by (simp add: next_inv_def at_exchange_def stack_init_def)
qed (rule next_inv_next)

section \<open>The order of the accesses without reuse\<close>

text \<open>
  The repair: \<open>pop_normal\<close> with an acquire failure order, the rest of the program as it is.
\<close>

definition stack_next_acquire :: "stack_choice \<Rightarrow> stack \<Rightarrow> stack option" where
  "stack_next_acquire c s =
     (let t = thread c in
      case stack_pc s t of
        Pop_Cas old nxt \<Rightarrow>
          if \<not> live s t then None
          else (case a_cas True Acquire Acquire t () (Some old) nxt (exchange c) (smem s) of
             None \<Rightarrow> None
           | Some (b, p, m) \<Rightarrow>
               Some (if b then returns t (Some old) (s\<lparr>smem := m, events := events s @ [Popped old]\<rparr>)
                     else pop_test t p (s\<lparr>smem := m\<rparr>)))
      | _ \<Rightarrow> stack_next c s)"

text \<open>Both machines at once: \<open>mo\<close> is the failure order of the exchange in \<open>pop_normal\<close>.\<close>

definition pop_cas_step :: "memory_order \<Rightarrow> tid \<Rightarrow> nat \<Rightarrow> node_ptr \<Rightarrow> cas_choice \<Rightarrow> stack \<Rightarrow> stack option" where
  "pop_cas_step mo t old nxt ch s =
     (case a_cas True Acquire mo t () (Some old) nxt ch (smem s) of
        None \<Rightarrow> None
      | Some (b, p, m) \<Rightarrow>
          Some (if b then returns t (Some old) (s\<lparr>smem := m, events := events s @ [Popped old]\<rparr>)
                else pop_test t p (s\<lparr>smem := m\<rparr>)))"

definition failing_next :: "memory_order \<Rightarrow> stack_choice \<Rightarrow> stack \<Rightarrow> stack option" where
  "failing_next mo c s =
     (case stack_pc s (thread c) of
        Pop_Cas old nxt \<Rightarrow>
          if live s (thread c) then pop_cas_step mo (thread c) old nxt (exchange c) s else None
      | _ \<Rightarrow> stack_next c s)"

lemma failing_next_both: "failing_next Acquire = stack_next_acquire" "failing_next Relaxed = stack_next"
  by (intro ext, simp add: failing_next_def stack_next_acquire_def pop_cas_step_def Let_def stack_next_def
      pop_normal_step_def split: stack_pc.splits)+

lemma pop_cas_step_inv:
  assumes inv: "stack_inv s" and pc: "stack_pc s t = Pop_Cas old nxt" and step: "pop_cas_step mo t old nxt ch s = Some s'"
  shows "stack_inv s'"
proof -
  obtain b p m where c: "a_cas True Acquire mo t () (Some old) nxt ch (smem s) = Some (b, p, m)"
    and s': "s' = (if b then returns t (Some old) (s\<lparr>smem := m, events := events s @ [Popped old]\<rparr>)
              else pop_test t p (s\<lparr>smem := m\<rparr>))"
    using step by (auto simp: pop_cas_step_def split: option.splits)
  have r: "old \<in> published s" "ptr_of (cell (smem s) (Next old)) = nxt"
    using inv_relies [OF inv, of t] pc by (simp_all add: relies_simps)
  from c show ?thesis
  proof (cases rule: a_cas_cases)
    case succeed
    then show ?thesis using pc s' by (intro pop_exchange [OF inv r succeed(2,3)]) simp_all
  next
    case (fail j)
    show ?thesis
      by (rule quiet_step [OF inv, where t = t])
        (use pc fail(1) load_published [OF fail(2)] in
          \<open>auto simp: s' pending_def relies_simps published_def split: option.splits\<close>)
  qed
qed

lemma failing_next_inv: "stack_inv s \<Longrightarrow> failing_next mo c s = Some s' \<Longrightarrow> stack_inv s'"
  by (auto simp: failing_next_def split: stack_pc.splits if_splits intro: stack_next_inv pop_cas_step_inv)

lemma failing_next_mem_ok: "mem_ok (smem s) \<Longrightarrow> failing_next mo c s = Some s' \<Longrightarrow> mem_ok (smem s')"
  by (auto simp: failing_next_def pop_cas_step_def split: stack_pc.splits if_splits option.splits
      intro: stack_next_mem_ok a_cas_ok)

text \<open>
  A thread knows every access of the two fields of a node.  Every message of \<open>head\<close> knows the
  write of the \<open>next\<close> field of the node it points to, and the last message knows what the
  others know: all changes of \<open>head\<close> are read-modify-writes.
\<close>

definition knows_node :: "(node_ptr, unit, content, field) memory \<Rightarrow> tid \<Rightarrow> nat \<Rightarrow> bool" where
  "knows_node m t n \<longleftrightarrow>
     (\<forall>f \<in> {Value n, Next n}. ordered (tview m t) (wrote m f) \<and> (\<forall>e \<in> set (reads m f). ordered (tview m t) e))"

definition heads_known :: "(node_ptr, unit, content, field) memory \<Rightarrow> bool" where
  "heads_known m \<longleftrightarrow>
     (\<forall>msg \<in> set (hist m ()). (\<forall>i. clock (mview msg) i \<le> clock (mview (last (hist m ()))) i) \<and>
        (\<forall>n. mval msg = Some n \<longrightarrow> ordered (mview msg) (wrote m (Next n))))"

fun reads_next :: "memory_order \<Rightarrow> stack_pc \<Rightarrow> nat \<Rightarrow> bool" where
  "reads_next mo (Vuln_Next p) old \<longleftrightarrow> p = Some old"
| "reads_next mo (Pop_Next n) old \<longleftrightarrow> mo = Acquire \<and> n = old"
| "reads_next mo _ old \<longleftrightarrow> False"

definition no_print :: "stack \<Rightarrow> bool" where
  "no_print s \<longleftrightarrow> (\<forall>t. Print_Head \<notin> set (todo s t) \<and> (\<forall>p. stack_pc s t \<noteq> Print_Value p))"

definition order_inv :: "memory_order \<Rightarrow> stack \<Rightarrow> bool" where
  "order_inv mo s \<longleftrightarrow>
     mem_ok (smem s) \<and> \<not> race (smem s) \<and> stack_inv s \<and> no_print s \<and> heads_known (smem s) \<and>
     (\<forall>t. (\<forall>n \<in> set (pending s t). knows_node (smem s) t n) \<and>
        (\<forall>old. reads_next mo (stack_pc s t) old \<longrightarrow> ordered (tview (smem s) t) (wrote (smem s) (Next old))))"

lemma order_invD:
  assumes "order_inv mo s"
  shows "mem_ok (smem s)" "\<not> race (smem s)" "stack_inv s" "no_print s" "heads_known (smem s)"
    "n \<in> set (pending s t) \<Longrightarrow> knows_node (smem s) t n"
    "reads_next mo (stack_pc s t) old \<Longrightarrow> ordered (tview (smem s) t) (wrote (smem s) (Next old))"
    "hist (smem s) () \<noteq> []"
  using assms mem_ok_hist [of "smem s" "()"] by (auto simp: order_inv_def)

lemma reads_next_published: "stack_inv s \<Longrightarrow> reads_next mo (stack_pc s t) old \<Longrightarrow> old \<in> published s"
  using inv_relies [of s t] by (cases "stack_pc s t") (auto simp: relies_simps)

text \<open>What a step has to establish: its own obligations; those of the others stay.\<close>

lemma order_frame:
  assumes inv: "order_inv mo s"
    and good: "stack_inv s'" "mem_ok (smem s')" "\<not> race (smem s')" "no_print s'"
    and heads: "heads_known (smem s')"
    and grow: "\<And>u i. clock (tview (smem s) u) i \<le> clock (tview (smem s') u) i"
    and other: "\<And>u. u \<noteq> t \<Longrightarrow> stack_pc s' u = stack_pc s u \<and> todo s' u = todo s u"
    and same: "\<And>u n. u \<noteq> t \<Longrightarrow> n \<in> set (pending s u) \<Longrightarrow>
        wrote (smem s') (Value n) = wrote (smem s) (Value n) \<and> wrote (smem s') (Next n) = wrote (smem s) (Next n) \<and>
        reads (smem s') (Value n) = reads (smem s) (Value n) \<and> reads (smem s') (Next n) = reads (smem s) (Next n)"
    and heads_same: "\<And>n. n \<in> published s \<Longrightarrow> wrote (smem s') (Next n) = wrote (smem s) (Next n)"
    and own: "\<And>n. n \<in> set (pending s' t) \<Longrightarrow> knows_node (smem s') t n"
      "\<And>old. reads_next mo (stack_pc s' t) old \<Longrightarrow> ordered (tview (smem s') t) (wrote (smem s') (Next old))"
  shows "order_inv mo s'"
proof -
  have "knows_node (smem s') u n" if "n \<in> set (pending s' u)" for u n
  proof (cases "u = t")
    case False
    then have "n \<in> set (pending s u)" using that other by (simp add: pending_def)
    with order_invD(6) [OF inv this] same [OF False this] show ?thesis
      by (auto simp: knows_node_def intro: ordered_mono [OF _ grow])
  qed (use own(1) that in blast)
  moreover have "ordered (tview (smem s') u) (wrote (smem s') (Next old))"
    if "reads_next mo (stack_pc s' u) old" for u old
  proof (cases "u = t")
    case False
    then have r: "reads_next mo (stack_pc s u) old" using that other by simp
    with order_invD(7) [OF inv r] heads_same reads_next_published [OF order_invD(3) [OF inv] r] show ?thesis
      by (auto intro: ordered_mono [OF _ grow])
  qed (use own(2) that in blast)
  ultimately show ?thesis using good heads by (simp add: order_inv_def)
qed

text \<open>A step that makes no plain access and leaves \<open>head\<close>.\<close>

lemma order_quiet:
  assumes inv: "order_inv mo s"
    and good: "stack_inv s'" "mem_ok (smem s')" "no_print s'"
    and mem: "hist (smem s') = hist (smem s)" "wrote (smem s') = wrote (smem s)"
      "reads (smem s') = reads (smem s)" "race (smem s') = race (smem s)"
    and grow: "\<And>u i. clock (tview (smem s) u) i \<le> clock (tview (smem s') u) i"
    and other: "\<And>u. u \<noteq> t \<Longrightarrow> stack_pc s' u = stack_pc s u \<and> todo s' u = todo s u"
    and own: "set (pending s' t) \<subseteq> set (pending s t)"
      "\<And>old. reads_next mo (stack_pc s' t) old \<Longrightarrow> ordered (tview (smem s') t) (wrote (smem s) (Next old))"
  shows "order_inv mo s'"
proof (rule order_frame [OF inv good(1,2) _ good(3) _ grow other])
  show "heads_known (smem s')" using order_invD(5) [OF inv] by (simp add: heads_known_def mem)
  show "knows_node (smem s') t n" if "n \<in> set (pending s' t)" for n
    using order_invD(6) [OF inv, of n t] own(1) that
    by (auto simp: knows_node_def mem intro: ordered_mono [OF _ grow])
qed (use order_invD(2) [OF inv] mem own(2) in simp_all)

lemma pending_apart:
  assumes "stack_inv s" and "n \<in> set (pending s u)"
  shows "n \<notin> published s" and "u \<noteq> t \<Longrightarrow> n \<notin> set (pending s t)"
  using assms unfolding stack_inv_def nodes_inv_def by blast+

lemma heads_knownD:
  assumes "heads_known m" and "msg \<in> set (hist m ())"
  shows "clock (mview msg) i \<le> clock (mview (last (hist m ()))) i"
    and "mval msg = Some n \<Longrightarrow> ordered (mview msg) (wrote m (Next n))"
    and "mval msg = Some n \<Longrightarrow> ordered (mview (last (hist m ()))) (wrote m (Next n))"
proof -
  show le: "clock (mview msg) i \<le> clock (mview (last (hist m ()))) i" for i
    using assms by (simp add: heads_known_def)
  show o: "mval msg = Some n \<Longrightarrow> ordered (mview msg) (wrote m (Next n))"
    using assms by (simp add: heads_known_def)
  show "mval msg = Some n \<Longrightarrow> ordered (mview (last (hist m ()))) (wrote m (Next n))"
    by (rule ordered_mono [OF o le])
qed

lemma heads_known_same:
  assumes "heads_known m" and "hist m' () = hist m ()"
    and "\<And>msg n. msg \<in> set (hist m ()) \<Longrightarrow> mval msg = Some n \<Longrightarrow> wrote m' (Next n) = wrote m (Next n)"
  shows "heads_known m'"
  using assms heads_knownD [OF assms(1)] by (simp add: heads_known_def)

lemma message_published: "msg \<in> set (hist (smem s) ()) \<Longrightarrow> mval msg = Some n \<Longrightarrow> n \<in> published s"
  by (metis (mono_tags, lifting) image_eqI mem_Collect_eq published_def)

text \<open>A write of a field of a node the thread is pushing.\<close>

lemma order_write:
  assumes inv: "order_inv mo s" and good: "stack_inv s'" "no_print s'"
    and n: "n \<in> set (pending s t)" "f = Value n \<or> f = Next n" and mem: "smem s' = na_write t f x (smem s)"
    and other: "\<And>u. u \<noteq> t \<Longrightarrow> stack_pc s' u = stack_pc s u \<and> todo s' u = todo s u"
    and own: "set (pending s' t) \<subseteq> set (pending s t)" "\<And>old. \<not> reads_next mo (stack_pc s' t) old"
  shows "order_inv mo s'"
proof (rule order_frame [OF inv good(1) _ _ good(2) _ _ other])
  note i = order_invD(3) [OF inv]
  show "mem_ok (smem s')" by (simp add: mem na_write_ok order_invD(1) [OF inv])
  have k: "knows_node (smem s) t n" by (rule order_invD(6) [OF inv n(1)])
  show "\<not> race (smem s')"
    using order_invD(2) [OF inv] k n(2) by (auto simp: mem knows_node_def list_all_iff)
  show heads: "wrote (smem s') (Next p) = wrote (smem s) (Next p)" if "p \<in> published s" for p
    using pending_apart(1) [OF i n(1)] that n(2) by (auto simp: mem)
  show "heads_known (smem s')"
    by (rule heads_known_same [OF order_invD(5) [OF inv]]) (use heads message_published in \<open>auto simp: mem\<close>)
  show "clock (tview (smem s) u) i \<le> clock (tview (smem s') u) i" for u i by (simp add: mem)
  show "wrote (smem s') (Value p) = wrote (smem s) (Value p) \<and> wrote (smem s') (Next p) = wrote (smem s) (Next p) \<and>
      reads (smem s') (Value p) = reads (smem s) (Value p) \<and> reads (smem s') (Next p) = reads (smem s) (Next p)"
    if "u \<noteq> t" "p \<in> set (pending s u)" for u p
    using pending_apart(2) [OF i that(2,1)] n by (auto simp: mem)
  show "knows_node (smem s') t p" if "p \<in> set (pending s' t)" for p
  proof -
    have "knows_node (smem s) t p" using order_invD(6) [OF inv] own(1) that by blast
    then show ?thesis by (auto simp: knows_node_def mem ordered_def le_SucI)
  qed
  show "ordered (tview (smem s') t) (wrote (smem s') (Next old))" if "reads_next mo (stack_pc s' t) old" for old
    using own(2) that by blast
qed

text \<open>A read of a \<open>next\<close> field: of a node the thread is pushing, or whose write it knows.\<close>

lemma order_read:
  assumes inv: "order_inv mo s" and good: "stack_inv s'" "no_print s'"
    and n: "n \<in> set (pending s t) \<or> n \<in> published s \<and> ordered (tview (smem s) t) (wrote (smem s) (Next n))"
    and mem: "smem s' = snd (na_read t (Next n) (smem s))"
    and other: "\<And>u. u \<noteq> t \<Longrightarrow> stack_pc s' u = stack_pc s u \<and> todo s' u = todo s u"
    and own: "set (pending s' t) \<subseteq> set (pending s t)" "\<And>old. \<not> reads_next mo (stack_pc s' t) old"
  shows "order_inv mo s'"
proof (rule order_frame [OF inv good(1) _ _ good(2) _ _ other])
  note i = order_invD(3) [OF inv]
  show "mem_ok (smem s')" by (simp add: mem na_read_ok order_invD(1) [OF inv])
  have "ordered (tview (smem s) t) (wrote (smem s) (Next n))"
    using n order_invD(6) [OF inv, of n t] by (auto simp: knows_node_def)
  then show "\<not> race (smem s')" using order_invD(2) [OF inv] by (simp add: mem)
  show "heads_known (smem s')"
    by (rule heads_known_same [OF order_invD(5) [OF inv]]) (simp_all add: mem)
  show "wrote (smem s') (Value p) = wrote (smem s) (Value p) \<and> wrote (smem s') (Next p) = wrote (smem s) (Next p) \<and>
      reads (smem s') (Value p) = reads (smem s) (Value p) \<and> reads (smem s') (Next p) = reads (smem s) (Next p)"
    if "u \<noteq> t" "p \<in> set (pending s u)" for u p
    using pending_apart [OF i that(2)] that(1) n by (auto simp: mem)
  show "knows_node (smem s') t p" if "p \<in> set (pending s' t)" for p
  proof -
    have "knows_node (smem s) t p" using order_invD(6) [OF inv] own(1) that by blast
    then show ?thesis by (auto simp: knows_node_def mem ordered_def le_SucI)
  qed
  show "ordered (tview (smem s') t) (wrote (smem s') (Next old))" if "reads_next mo (stack_pc s' t) old" for old
    using own(2) that by blast
qed (simp_all add: mem)

text \<open>A successful exchange.\<close>

lemma heads_known_rmw:
  assumes known: "heads_known m" and ne: "hist m () \<noteq> []"
    and new: "\<And>n. p = Some n \<Longrightarrow>
        ordered (tview m t) (wrote m (Next n)) \<and> mo = Release \<or> ordered (mview (last (hist m ()))) (wrote m (Next n))"
  shows "heads_known (snd (a_rmw mo t () (\<lambda>_. p) m))"
proof -
  have ord: "ordered v e \<Longrightarrow> ordered (vjoin v w) e" "ordered w e \<Longrightarrow> ordered (vjoin v w) e"
    "ordered (see () k v) e = ordered v e" for v w :: "unit view" and e k
    by (auto simp: ordered_def)
  have le: "clock (mview msg) i \<le> clock (mview (last (hist m ()))) i" if "msg \<in> set (hist m ())" for msg i
    using known that by (simp add: heads_known_def)
  show ?thesis
    using known new le by (auto simp: heads_known_def ord le_max_iff_disj)
qed

lemma order_exchange:
  assumes inv: "order_inv mo s" and good: "stack_inv s'" "no_print s'"
    and mem: "smem s' = snd (a_rmw mo' t () (\<lambda>_. p) (smem s))"
    and new: "\<And>n. p = Some n \<Longrightarrow> n \<in> published s \<or> n \<in> set (pending s t) \<and> mo' = Release"
    and other: "\<And>u. u \<noteq> t \<Longrightarrow> stack_pc s' u = stack_pc s u \<and> todo s' u = todo s u"
    and own: "set (pending s' t) \<subseteq> set (pending s t)" "\<And>old. \<not> reads_next mo (stack_pc s' t) old"
  shows "order_inv mo s'"
proof (rule order_frame [OF inv good(1) _ _ good(2) _ _ other])
  show "mem_ok (smem s')" by (simp add: mem a_rmw_ok order_invD(1) [OF inv])
  show "heads_known (smem s')"
    unfolding mem
  proof (rule heads_known_rmw [OF order_invD(5,8) [OF inv]])
    fix n assume "p = Some n"
    then consider "n \<in> published s" | "n \<in> set (pending s t)" "mo' = Release" using new by blast
    then show "ordered (tview (smem s) t) (wrote (smem s) (Next n)) \<and> mo' = Release \<or>
        ordered (mview (last (hist (smem s) ()))) (wrote (smem s) (Next n))"
    proof cases
      case 1
      then obtain msg where "msg \<in> set (hist (smem s) ())" "mval msg = Some n" by (auto simp: published_def)
      from heads_knownD(3) [OF order_invD(5) [OF inv] this] show ?thesis by blast
    next
      case 2
      with order_invD(6) [OF inv] show ?thesis by (simp add: knows_node_def)
    qed
  qed
  show "knows_node (smem s') t n" if "n \<in> set (pending s' t)" for n
  proof -
    have "knows_node (smem s) t n" using order_invD(6) [OF inv] own(1) that by blast
    then show ?thesis by (auto simp: knows_node_def mem ordered_def le_max_iff_disj)
  qed
  show "ordered (tview (smem s') t) (wrote (smem s') (Next old))" if "reads_next mo (stack_pc s' t) old" for old
    using own(2) that by blast
qed (use order_invD(2) [OF inv] in \<open>simp_all add: mem\<close>)

text \<open>A load of \<open>head\<close>; with acquire order it brings the write of the node it points to.\<close>

lemma load_orders:
  assumes inv: "order_inv mo s" and load: "a_load Acquire t () k (smem s) = Some (Some old, m)"
  shows "ordered (tview m t) (wrote (smem s) (Next old))"
proof -
  note l = load_view [OF order_invD(1) [OF inv] load]
  have "ordered (mview (hist (smem s) () ! k)) (wrote (smem s) (Next old))"
    using heads_knownD(2) [OF order_invD(5) [OF inv] nth_mem [OF l(12)]] l(14) by simp
  then show ?thesis using l(16) by (rule ordered_mono) simp
qed

lemma order_load:
  assumes inv: "order_inv mo s" and good: "stack_inv s'" "no_print s'"
    and load: "a_load mo' t () k (smem s) = Some (p, smem s')"
    and other: "\<And>u. u \<noteq> t \<Longrightarrow> stack_pc s' u = stack_pc s u \<and> todo s' u = todo s u"
    and own: "set (pending s' t) \<subseteq> set (pending s t)"
      "\<And>old. reads_next mo (stack_pc s' t) old \<Longrightarrow> p = Some old \<and> mo' = Acquire"
  shows "order_inv mo s'"
proof (rule order_quiet [OF inv good(1) _ good(2) _ _ _ _ _ other own(1)])
  note l = load_view [OF order_invD(1) [OF inv] load]
  show "clock (tview (smem s) u) i \<le> clock (tview (smem s') u) i" for u i
    using l(6,8) by (cases "u = t") simp_all
  show "ordered (tview (smem s') t) (wrote (smem s) (Next old))" if "reads_next mo (stack_pc s' t) old" for old
    using own(2) [OF that] load by (auto intro: load_orders [OF inv])
qed (use load_view(1-5,15) [OF order_invD(1) [OF inv] load] in simp_all)

lemma failing_other:
  "failing_next mo c s = Some s' \<Longrightarrow> u \<noteq> thread c \<Longrightarrow> stack_pc s' u = stack_pc s u \<and> todo s' u = todo s u"
  by (cases "stack_pc s (thread c)")
    (auto simp: failing_next_def pop_cas_step_def stack_next_def Let_def split_beta call_step_def
      stack_push_step_def pop_normal_step_def pop_vulnerable_step_def print_step_def
      split: if_splits list.splits stack_call.splits option.splits)

lemma no_print_next:
  assumes np: "no_print s" and step: "failing_next mo c s = Some s'"
  shows "no_print s'"
proof -
  have here: "Print_Head \<notin> set (todo s (thread c))" "\<And>p. stack_pc s (thread c) \<noteq> Print_Value p"
    using np by (simp_all add: no_print_def)
  have "Print_Head \<notin> set (todo s' (thread c)) \<and> (\<forall>p. stack_pc s' (thread c) \<noteq> Print_Value p)"
    using step here
    by (cases "stack_pc s (thread c)")
      (auto simp: failing_next_def pop_cas_step_def stack_next_def Let_def split_beta call_step_def
        stack_push_step_def pop_normal_step_def pop_vulnerable_step_def print_step_def
        split: if_splits list.splits stack_call.splits option.splits)
  with np failing_other [OF step] show ?thesis unfolding no_print_def by metis
qed

text \<open>The node below the top of the stack has been on it.\<close>

lemma next_of_top_published:
  assumes "stack_inv s" and "mval (last (hist (smem s) ())) = Some old"
    and "ptr_of (cell (smem s) (Next old)) = Some n"
  shows "n \<in> published s"
proof -
  obtain xs where xs: "holds s xs" "set xs \<subseteq> published s"
    using assms(1) by (auto simp: stack_inv_def list_inv_def)
  then obtain ys where "xs = old # ys" "chain (cell (smem s)) (Some n) ys"
    using assms(2,3) by (cases xs) (auto simp: holds_def stack_top_def)
  with xs(2) show ?thesis by (cases ys) auto
qed

lemma order_next_call:
  assumes inv: "order_inv mo s" and good: "stack_inv s'" "mem_ok (smem s')" "no_print s'"
    and other: "\<And>u. u \<noteq> thread c \<Longrightarrow> stack_pc s' u = stack_pc s u \<and> todo s' u = todo s u"
    and idle: "stack_pc s (thread c) = Idle" and step: "stack_next c s = Some s'"
  shows "order_inv mo s'"
proof -
  obtain d ds where d: "todo s (thread c) = d # ds" "live s (thread c)"
    using step idle by (cases "todo s (thread c)") (auto simp: stack_next_def Let_def call_step_def split: if_splits)
  have np: "d \<noteq> Print_Head" using order_invD(4) [OF inv] d by (auto simp: no_print_def dest!: spec [of _ "thread c"])
  have pc: "\<not> reads_next mo (stack_pc s' (thread c)) old" for old
    using step idle d np by (cases d) (auto simp: stack_next_def Let_def call_step_def split: if_splits)
  show ?thesis
    by (rule order_quiet [OF inv good _ _ _ _ _ other])
      (use step idle d np pc in \<open>cases d; auto simp: stack_next_def Let_def call_step_def pending_def pushes_def
        split: if_splits\<close>)+
qed

text \<open>
  Every step but the read of \<open>next\<close> in \<open>pop_normal\<close> keeps the order of the accesses, and that one
  does if the failure order is acquire.
\<close>

lemma order_next:
  assumes inv: "order_inv mo s" and step: "failing_next mo c s = Some s'"
    and next_read: "\<And>old. stack_pc s (thread c) = Pop_Next old \<Longrightarrow> mo = Acquire \<or> \<not> race (smem s')"
  shows "order_inv mo s'"
proof -
  let ?t = "thread c"
  note i = order_invD(3) [OF inv]
  have good: "stack_inv s'" "no_print s'" and ok: "mem_ok (smem s')"
    using failing_next_inv [OF i step] no_print_next [OF order_invD(4) [OF inv] step]
      failing_next_mem_ok [OF order_invD(1) [OF inv] step] by simp_all
  note other = failing_other [OF step]
  have live: "live s ?t"
    using step by (cases "stack_pc s ?t") (simp_all add: failing_next_def stack_next_def Let_def split: if_splits)
  note defs = failing_next_def stack_next_def Let_def live stack_push_step_def pop_vulnerable_step_def
    pop_normal_step_def pending_def split_beta
  note do_write = order_write [OF inv good _ _ _ other]
    and do_read = order_read [OF inv good _ _ other]
    and do_load = order_load [OF inv good _ other]
    and do_exchange = order_exchange [OF inv good _ _ other]
  show ?thesis
  proof (cases "stack_pc s ?t")
    case Idle
    then show ?thesis
      using step order_next_call [OF inv good(1) ok good(2) other] by (simp add: failing_next_def)
  next
    case (Push_Value n v)
    show ?thesis by (rule do_write [where n = n and f = "Value n"]) (use step Push_Value in \<open>auto simp: defs\<close>)
  next
    case (Push_Load n)
    then obtain p m where "a_load Relaxed ?t () (message c) (smem s) = Some (p, m)"
      "s' = at ?t (Push_Next n p) (s\<lparr>smem := m\<rparr>)"
      using step by (auto simp: defs split: option.splits)
    then show ?thesis using Push_Load by (intro do_load [where mo' = Relaxed and k = "message c" and p = p]) (auto simp: pending_def)
  next
    case (Push_Next n p)
    show ?thesis by (rule do_write [where n = n and f = "Next n"]) (use step Push_Next in \<open>auto simp: defs\<close>)
  next
    case (Push_Expected n)
    show ?thesis by (rule do_read [where n = n]) (use step Push_Expected in \<open>auto simp: defs\<close>)
  next
    case (Push_Cas n e)
    then obtain b p m where c: "a_cas True Release Relaxed ?t () e (Some n) (exchange c) (smem s) = Some (b, p, m)"
      and s': "s' = (if b then at ?t Idle (s\<lparr>smem := m, events := events s @ [Pushed n]\<rparr>)
                else at ?t (Push_Failed n p) (s\<lparr>smem := m\<rparr>))"
      using step by (auto simp: defs split: option.splits)
    from c show ?thesis
    proof (cases rule: a_cas_cases)
      case succeed
      then show ?thesis
        using Push_Cas s' by (intro do_exchange [where mo' = Release and p = "Some n"]) (auto simp: pending_def)
    next
      case (fail j)
      then show ?thesis using Push_Cas s' by (intro do_load [where mo' = Relaxed and k = j and p = p]) (auto simp: pending_def)
    qed
  next
    case (Push_Failed n p)
    show ?thesis by (rule do_write [where n = n and f = "Next n"]) (use step Push_Failed in \<open>auto simp: defs\<close>)
  next
    case Pop_Load
    then obtain p m where "a_load Acquire ?t () (message c) (smem s) = Some (p, m)"
      "s' = pop_test ?t p (s\<lparr>smem := m\<rparr>)"
      using step by (auto simp: defs split: option.splits)
    then show ?thesis
      using Pop_Load by (intro do_load [where mo' = Acquire and k = "message c" and p = p]) (auto simp: pending_def split: option.splits)
  next
    case (Pop_Next old)
    have "old \<in> published s" using inv_relies [OF i, of ?t] Pop_Next by (simp add: relies_simps)
    moreover have "ordered (tview (smem s) ?t) (wrote (smem s) (Next old))"
    proof (cases "mo = Acquire")
      case True
      then show ?thesis using order_invD(7) [OF inv, of ?t old] Pop_Next by simp
    next
      case False
      then show ?thesis using next_read [OF Pop_Next] step Pop_Next by (auto simp: defs)
    qed
    ultimately show ?thesis by (intro do_read [where n = old]) (use step Pop_Next in \<open>auto simp: defs\<close>)
  next
    case (Pop_Cas old nxt)
    then obtain b p m where c: "a_cas True Acquire mo ?t () (Some old) nxt (exchange c) (smem s) = Some (b, p, m)"
      and s': "s' = (if b then returns ?t (Some old) (s\<lparr>smem := m, events := events s @ [Popped old]\<rparr>)
                else pop_test ?t p (s\<lparr>smem := m\<rparr>))"
      using step live by (auto simp: failing_next_def pop_cas_step_def split: option.splits)
    from c show ?thesis
    proof (cases rule: a_cas_cases)
      case succeed
      have "n \<in> published s" if "nxt = Some n" for n
        using next_of_top_published [OF i succeed(2)] inv_relies [OF i, of ?t] Pop_Cas that by (simp add: relies_simps)
      then show ?thesis
        using Pop_Cas s' succeed by (intro do_exchange [where mo' = Acquire and p = nxt]) (auto simp: pending_def)
    next
      case (fail j)
      then show ?thesis
        using Pop_Cas s' by (intro do_load [where mo' = mo and k = j and p = p]) (auto simp: pending_def split: option.splits)
    qed
  next
    case Vuln_Load
    then obtain p m where "a_load Acquire ?t () (message c) (smem s) = Some (p, m)"
      "s' = at ?t (Vuln_Next p) (s\<lparr>smem := m\<rparr>)"
      using step by (auto simp: defs split: option.splits)
    then show ?thesis using Vuln_Load by (intro do_load [where mo' = Acquire and k = "message c" and p = p]) (auto simp: pending_def)
  next
    case (Vuln_Next p)
    show ?thesis
    proof (cases p)
      case None
      then have "s' = at ?t Crashed s" using step Vuln_Next by (simp add: defs)
      then show ?thesis
        using Vuln_Next by (intro order_quiet [OF inv good(1) ok good(2) _ _ _ _ _ other]) (auto simp: pending_def)
    next
      case (Some old)
      then have "old \<in> published s" "ordered (tview (smem s) ?t) (wrote (smem s) (Next old))"
        using inv_relies [OF i, of ?t] order_invD(7) [OF inv, of ?t old] Vuln_Next by (simp_all add: relies_simps)
      then show ?thesis by (intro do_read [where n = old]) (use step Vuln_Next Some in \<open>auto simp: defs\<close>)
    qed
  next
    case (Vuln_Cas old nxt)
    then obtain b p m where c: "a_cas False Release Relaxed ?t () (Some old) nxt (exchange c) (smem s) = Some (b, p, m)"
      and s': "s' = (if b then returns ?t (Some old) (s\<lparr>smem := m, events := events s @ [Popped old]\<rparr>)
                else returns ?t None (s\<lparr>smem := m\<rparr>))"
      using step by (auto simp: defs split: option.splits)
    from c show ?thesis
    proof (cases rule: a_cas_cases)
      case succeed
      have "n \<in> published s" if "nxt = Some n" for n
        using next_of_top_published [OF i succeed(2)] inv_relies [OF i, of ?t] Vuln_Cas that by (simp add: relies_simps)
      then show ?thesis
        using Vuln_Cas s' succeed by (intro do_exchange [where mo' = Release and p = nxt]) (auto simp: pending_def)
    next
      case (fail j)
      then show ?thesis using Vuln_Cas s' by (intro do_load [where mo' = Relaxed and k = j and p = p]) (auto simp: pending_def)
    qed
  qed (use step order_invD(4) [OF inv] in \<open>auto simp: failing_next_def stack_next_def Let_def no_print_def split: if_splits\<close>)
qed

text \<open>Programs that do not print: only \<open>main\<close> does, after it has joined the others.\<close>

definition prints_nothing :: "(tid \<Rightarrow> stack_call list) \<Rightarrow> bool" where
  "prints_nothing progs \<longleftrightarrow> (\<forall>t. Print_Head \<notin> set (progs t))"

lemma order_inv_init: "no_reuse progs \<Longrightarrow> prints_nothing progs \<Longrightarrow> order_inv mo (stack_init progs)"
  using stack_inv_init [of progs]
  by (auto simp: order_inv_def stack_init_def prints_nothing_def no_print_def heads_known_def knows_node_def
      ordered_def mem_ok_init)

interpretation acquire_machine: machine stack_next_acquire "stack_init progs"
  "\<lambda>s. no_reuse progs \<and> prints_nothing progs \<longrightarrow> order_inv Acquire s" for progs
proof
  show "no_reuse progs \<and> prints_nothing progs \<longrightarrow> order_inv Acquire (stack_init progs)"
    by (simp add: order_inv_init)
  show "no_reuse progs \<and> prints_nothing progs \<longrightarrow> order_inv Acquire s'"
    if "no_reuse progs \<and> prints_nothing progs \<longrightarrow> order_inv Acquire s" "stack_next_acquire c s = Some s'" for s c s'
    using that order_next [of Acquire s c s'] by (simp add: failing_next_both)
qed

interpretation relaxed_machine: machine stack_next "stack_init progs"
  "\<lambda>s. mem_ok (smem s) \<and> (no_reuse progs \<and> prints_nothing progs \<and> \<not> race (smem s) \<longrightarrow> order_inv Relaxed s)" for progs
proof
  fix s c s'
  assume inv: "mem_ok (smem s) \<and> (no_reuse progs \<and> prints_nothing progs \<and> \<not> race (smem s) \<longrightarrow> order_inv Relaxed s)"
    and step: "stack_next c s = Some s'"
  then show "mem_ok (smem s') \<and> (no_reuse progs \<and> prints_nothing progs \<and> \<not> race (smem s') \<longrightarrow> order_inv Relaxed s')"
    using order_next [of Relaxed s c s'] race_kept [OF step] stack_next_mem_ok [OF _ step]
    by (auto simp: failing_next_both)
qed (simp add: order_inv_init init_mem_ok)

section \<open>Properties\<close>

text \<open>What a successful exchange of a pop does to the stack.\<close>

lemma pop_exchange_effect:
  assumes "stack_next c s = Some s'" and "at_exchange s (thread c) old nxt" and "events s' = events s @ [Popped old]"
  shows "stack_top s = Some old" "stack_top s' = nxt" "cell (smem s') = cell (smem s)"
  using assms
  by (auto simp: at_exchange_def stack_next_def Let_def pop_normal_step_def pop_vulnerable_step_def stack_top_def
      a_cas_def split: if_splits option.splits cas_choice.splits)

text \<open>
  Property C32. An exchange that goes wrong comes with a data race.  For any threads and calls,
  nodes reused or not: let a thread of \<open>pop_normal\<close> or \<open>pop_vulnerable\<close> succeed with its
  exchange on a stack whose nodes are \<open>old\<close> and below it \<open>xs\<close>.  Then \<open>old\<close> was the head, and the
  stack afterwards is \<open>xs\<close> exactly if the \<open>next\<close> field of \<open>old\<close> still has the value the thread
  read before; and if it has not - the ABA - then the execution has a data race by then: nothing
  orders a write of the field after the thread's read of it.  So the corruption the program is
  made to show is, by the standard, part of an execution with undefined behaviour.  The witness
  is \<open>main\<close>'s own program: A is popped twice and B once, and the stack that should hold C
  links B and C.
\<close>

theorem aba_comes_with_a_race:
  assumes "reach stack_next (stack_init progs) s"
    and "stack_pc s (thread c) = Pop_Cas old nxt \<or> stack_pc s (thread c) = Vuln_Cas old nxt"
    and "stack_next c s = Some s'" and "events s' = events s @ [Popped old]" and "holds s (x # xs)"
  shows "x = old \<and> (holds s' xs \<longleftrightarrow> ptr_of (cell (smem s) (Next old)) = nxt) \<and>
    (\<not> holds s' xs \<longrightarrow> race (smem s))"
proof -
  have at: "at_exchange s (thread c) old nxt" using assms(2) by (simp add: at_exchange_def)
  note effect = pop_exchange_effect [OF assms(3) at assms(4)]
  have below: "x = old" "chain (cell (smem s)) (ptr_of (cell (smem s) (Next old))) xs"
    using assms(5) effect(1) by (simp_all add: holds_def)
  have "holds s' xs \<longleftrightarrow> chain (cell (smem s)) nxt xs" by (simp add: holds_def effect(2,3))
  also have "\<dots> \<longleftrightarrow> ptr_of (cell (smem s) (Next old)) = nxt" using below(2) by (cases xs) auto
  finally have right: "holds s' xs \<longleftrightarrow> ptr_of (cell (smem s) (Next old)) = nxt" .
  have "race (smem s) \<or> fresh_read (smem s) (thread c) old nxt"
    using reading_machine.inv_reach [OF assms(1)] at by (auto simp: next_inv_def)
  with right below(1) show ?thesis by (auto simp: fresh_read_def)
qed

text \<open>\<open>main\<close>'s program, up to the exchange of \<open>t1\<close> after \<open>t2\<close> has put A back.\<close>

definition aba_choices :: "stack_choice list" where
  "aba_choices =
     replicate 6 (act 0 0) @ replicate 6 (act 0 1) @ replicate 8 (act 0 2) @ [act 1 0, act 1 3, act 1 0] @
     [act 2 0, act 2 3, act 2 0, act 2 0, act 2 0, act 2 4, act 2 0, act 2 0] @ replicate 6 (act 2 5)"

lemma aba_choices_run:
  "run_step_to stack_next aba_choices (stack_init aba_program)
     (\<lambda>s. stack_pc s 1 = Vuln_Cas 0 (Some 1) \<and> holds s [0, 2] \<and>
        events s = [Pushed 2, Pushed 1, Pushed 0, Popped 0, Popped 1, Pushed 0])
     (act 1 0)
     (\<lambda>s'. events s' = [Pushed 2, Pushed 1, Pushed 0, Popped 0, Popped 1, Pushed 0] @ [Popped 0] \<and>
        holds s' [1, 2] \<and> \<not> holds s' [2])"
  by code_simp

theorem aba_comes_with_a_race_witness:
  "\<exists>s s'. reach stack_next (stack_init aba_program) s \<and> stack_next (act 1 0) s = Some s' \<and>
     holds s [0, 2] \<and> holds s' [1, 2] \<and> popped_nodes (events s') = [0, 1, 0] \<and> race (smem s)"
proof -
  obtain s s' where s: "reach stack_next (stack_init aba_program) s" "stack_pc s 1 = Vuln_Cas 0 (Some 1)" "holds s [0, 2]"
    "events s = [Pushed 2, Pushed 1, Pushed 0, Popped 0, Popped 1, Pushed 0]" "stack_next (act 1 0) s = Some s'"
    "events s' = [Pushed 2, Pushed 1, Pushed 0, Popped 0, Popped 1, Pushed 0] @ [Popped 0]" "holds s' [1, 2]" "\<not> holds s' [2]"
    using run_step_toD [OF aba_choices_run] by blast
  have "thread (act 1 0) = 1" by (simp add: act_def)
  with aba_comes_with_a_race [OF s(1) _ s(5) _ s(3), of 0 "Some 1"] s have "race (smem s)" by simp
  with s show ?thesis by (intro exI [of _ s] exI [of _ s']) simp
qed

definition racing_program :: "tid \<Rightarrow> stack_call list" where
  "racing_program t = (if t = 0 then [Push 1 66, Start 1, Push 0 65] else if t = 1 then [Pop_Normal] else [])"

lemma racing_no_reuse: "no_reuse racing_program" "prints_nothing racing_program"
  by (simp_all add: no_reuse_def prints_nothing_def racing_program_def pushes_def)

text \<open>Thread 1 has read B and its \<open>next\<close>; \<open>main\<close> pushes A; the exchange of thread 1 fails and brings A.\<close>

definition racing_schedule :: "stack_choice list" where
  "racing_schedule =
     replicate 7 (act 0 0) @ [act 1 0, act 1 1, act 1 0, act 0 0, act 0 0, act 0 1, act 0 0, act 0 0, act 0 0]"

definition failed_exchange :: stack_choice where
  "failed_exchange = \<lparr>thread = 1, message = 0, exchange = Cas_Fail 2\<rparr>"

lemma racing_run:
  "run_step_to stack_next racing_schedule (stack_init racing_program)
     (\<lambda>s. stack_pc s 1 = Pop_Cas 1 None)
     failed_exchange
     (\<lambda>s. stack_pc s 1 = Pop_Next 0 \<and> \<not> race (smem s) \<and> run_to stack_next [act 1 0] s (\<lambda>s'. race (smem s')))"
  by code_simp

text \<open>
  Property C33. \<open>pop_normal\<close> has a data race, and the relaxed failure order of its exchange is the
  cause.  For any threads and calls in which no node is pushed by two calls (and nobody prints
  while they run), the step that makes the first race of an execution is always the read of
  \<open>next\<close> in \<open>pop_normal\<close>; with an acquire failure order there, and nothing else changed, no
  execution has a race, and so the stack is right in every one.  With the order of the source
  there is an execution, without a race so far, in which the exchange of thread 1 fails, brings
  the node that \<open>main\<close> has just pushed, and the read of its \<open>next\<close> races.
\<close>

theorem pop_normal_races:
  assumes "no_reuse progs" and "prints_nothing progs"
  shows "(\<forall>s c s'. reach stack_next (stack_init progs) s \<and> stack_next c s = Some s' \<and> \<not> race (smem s) \<and> race (smem s')
       \<longrightarrow> (\<exists>old. stack_pc s (thread c) = Pop_Next old)) \<and>
    (\<forall>s. reach stack_next_acquire (stack_init progs) s \<longrightarrow> \<not> race (smem s) \<and>
       (\<exists>xs. replay (events s) [] = Some xs \<and> holds s xs \<and> distinct xs \<and>
          distinct (popped_nodes (events s)) \<and> set (popped_nodes (events s)) \<inter> set xs = {})) \<and>
    (\<exists>s0 s s'. reach stack_next (stack_init racing_program) s0 \<and> stack_pc s0 1 = Pop_Cas 1 None \<and>
       stack_next failed_exchange s0 = Some s \<and> stack_pc s 1 = Pop_Next 0 \<and> \<not> race (smem s) \<and>
       stack_next (act 1 0) s = Some s' \<and> race (smem s'))"
proof (intro conjI allI impI)
  show "\<exists>old. stack_pc s (thread c) = Pop_Next old"
    if "reach stack_next (stack_init progs) s \<and> stack_next c s = Some s' \<and> \<not> race (smem s) \<and> race (smem s')" for s c s'
  proof (rule ccontr)
    assume no: "\<not> ?thesis"
    have "order_inv Relaxed s" using relaxed_machine.inv_reach [of progs s] assms that by blast
    then have "order_inv Relaxed s'" by (rule order_next) (use no that in \<open>auto simp: failing_next_both\<close>)
    then show False using that order_invD(2) by blast
  qed
  fix s assume "reach stack_next_acquire (stack_init progs) s"
  then have o: "order_inv Acquire s" using acquire_machine.inv_reach assms by blast
  show "\<not> race (smem s)" by (rule order_invD(2) [OF o])
  show "\<exists>xs. replay (events s) [] = Some xs \<and> holds s xs \<and> distinct xs \<and>
      distinct (popped_nodes (events s)) \<and> set (popped_nodes (events s)) \<inter> set xs = {}"
    by (rule stack_inv_holds [OF order_invD(3) [OF o]])
next
  obtain s0 s where s: "reach stack_next (stack_init racing_program) s0" "stack_pc s0 1 = Pop_Cas 1 None"
    "stack_next failed_exchange s0 = Some s" "stack_pc s 1 = Pop_Next 0" "\<not> race (smem s)"
    "run_to stack_next [act 1 0] s (\<lambda>s'. race (smem s'))"
    using run_step_toD [OF racing_run] by blast
  obtain s' where "stack_next (act 1 0) s = Some s'" "race (smem s')"
    using run_to_run [OF s(6)] unfolding run_single by blast
  with s show "\<exists>s0 s s'. reach stack_next (stack_init racing_program) s0 \<and> stack_pc s0 1 = Pop_Cas 1 None \<and>
       stack_next failed_exchange s0 = Some s \<and> stack_pc s 1 = Pop_Next 0 \<and> \<not> race (smem s) \<and>
       stack_next (act 1 0) s = Some s' \<and> race (smem s')"
    by blast
qed

text \<open>The same schedule with the acquire order, past the read of \<open>next\<close>: there is no race.\<close>

lemma repaired_run:
  "run_to stack_next_acquire (racing_schedule @ [failed_exchange, act 1 0]) (stack_init racing_program)
     (\<lambda>s. stack_pc s 1 = Pop_Cas 0 (Some 1))"
  by code_simp

theorem pop_normal_races_witness:
  "no_reuse racing_program \<and> prints_nothing racing_program \<and>
   (\<exists>s. reach stack_next_acquire (stack_init racing_program) s \<and> stack_pc s 1 = Pop_Cas 0 (Some 1) \<and> \<not> race (smem s)) \<and>
   (\<exists>s. reach stack_next (stack_init racing_program) s \<and> race (smem s))"
proof -
  obtain s where s: "reach stack_next_acquire (stack_init racing_program) s" "stack_pc s 1 = Pop_Cas 0 (Some 1)"
    using run_toD [OF repaired_run] by blast
  from pop_normal_races [OF racing_no_reuse] s racing_no_reuse show ?thesis
    by (blast intro: reach.reach_step)
qed

end
