(* ===== verification/Cxx_Heap.thy ===== *)
theory Cxx_Heap
  imports Pipeline_Prelude
begin

text \<open>
  The free store as the ownership experiments use it: \<open>new\<close>, \<open>delete\<close>, and accesses through
  pointers, with what is undefined in C++ as explicit errors.  A pointer is \<open>None\<close> (\<open>nullptr\<close>)
  or the address of a block; addresses are not used twice, so a dangling pointer never comes to
  life again.  An operation is done, has thrown \<open>std::bad_alloc\<close> (the state is that at the
  throw), or is undefined.
\<close>

datatype undefined_behaviour = Null_Dereference | Use_After_Free | Double_Free | Out_Of_Bounds | No_Object

datatype 's effect = Done 's | Thrown 's | Undefined undefined_behaviour

fun and_then :: "'s effect \<Rightarrow> ('s \<Rightarrow> 's effect) \<Rightarrow> 's effect" where
  "and_then (Done s) f = f s"
| "and_then (Thrown s) f = Thrown s"
| "and_then (Undefined e) f = Undefined e"

lemma and_then_assoc: "and_then (and_then r f) g = and_then r (\<lambda>s. and_then (f s) g)"
  by (cases r) simp_all

text \<open>A sequence of statements, up to the first that is not done.\<close>

fun execute :: "('c \<Rightarrow> 's \<Rightarrow> 's effect) \<Rightarrow> 'c list \<Rightarrow> 's \<Rightarrow> 's effect" where
  "execute exec [] s = Done s"
| "execute exec (c # cs) s = and_then (exec c s) (execute exec cs)"

text \<open>Every statement that is reached is permitted where it is reached.\<close>

fun all_permitted :: "('c \<Rightarrow> 's \<Rightarrow> bool) \<Rightarrow> ('c \<Rightarrow> 's \<Rightarrow> 's effect) \<Rightarrow> 'c list \<Rightarrow> 's \<Rightarrow> bool" where
  "all_permitted permitted exec [] s = True"
| "all_permitted permitted exec (c # cs) s =
     (permitted c s \<and> (case exec c s of Done t \<Rightarrow> all_permitted permitted exec cs t | _ \<Rightarrow> True))"

text \<open>
  An invariant of the statements: kept by each, whether it is done or throws, and strong enough
  that none is undefined.  Then no sequence of statements is undefined.
\<close>

locale safe_statements =
  fixes exec :: "'c \<Rightarrow> 's \<Rightarrow> 's effect"
    and inv :: "'s \<Rightarrow> bool"
    and permitted :: "'c \<Rightarrow> 's \<Rightarrow> bool"
  assumes exec_safe: "inv s \<Longrightarrow> permitted c s \<Longrightarrow>
      (\<exists>t. exec c s = Done t \<and> inv t) \<or> (\<exists>t. exec c s = Thrown t \<and> inv t)"
begin

lemma execute_safe:
  "inv s \<Longrightarrow> all_permitted permitted exec cs s \<Longrightarrow>
     (\<exists>t. execute exec cs s = Done t \<and> inv t) \<or> (\<exists>t. execute exec cs s = Thrown t \<and> inv t)"
proof (induction cs arbitrary: s)
  case (Cons c cs)
  from exec_safe [OF Cons.prems(1), of c] Cons.prems(2)
  consider t where "exec c s = Done t" "inv t" | t where "exec c s = Thrown t" "inv t" by auto
  then show ?case using Cons by cases auto
qed simp

end

section \<open>The heap\<close>

type_synonym address = nat
type_synonym pointer = "address option"

text \<open>\<open>budget\<close> is the memory left: an allocation of more throws.\<close>

record 'v heap =
  blocks :: "address \<Rightarrow> 'v list option"
  fresh :: address
  budget :: nat

definition heap_init :: "nat \<Rightarrow> 'v heap" where
  "heap_init n = \<lparr>blocks = (\<lambda>_. None), fresh = 0, budget = n\<rparr>"

text \<open>\<open>new\<close> of a block with the given contents; \<open>None\<close>: \<open>std::bad_alloc\<close>.\<close>

definition h_new :: "'v list \<Rightarrow> 'v heap \<Rightarrow> (address \<times> 'v heap) option" where
  "h_new xs h =
     (if length xs \<le> budget h
      then Some (fresh h, h\<lparr>blocks := (blocks h)(fresh h \<mapsto> xs), fresh := Suc (fresh h),
                            budget := budget h - length xs\<rparr>)
      else None)"

text \<open>\<open>delete\<close> of null does nothing.\<close>

definition h_delete :: "pointer \<Rightarrow> 'v heap \<Rightarrow> 'v heap effect" where
  "h_delete p h =
     (case p of
        None \<Rightarrow> Done h
      | Some a \<Rightarrow>
          (case blocks h a of
             None \<Rightarrow> Undefined Double_Free
           | Some xs \<Rightarrow> Done (h\<lparr>blocks := (blocks h)(a := None), budget := budget h + length xs\<rparr>)))"

definition h_read :: "pointer \<Rightarrow> nat \<Rightarrow> 'v heap \<Rightarrow> undefined_behaviour + 'v" where
  "h_read p i h =
     (case p of
        None \<Rightarrow> Inl Null_Dereference
      | Some a \<Rightarrow>
          (case blocks h a of
             None \<Rightarrow> Inl Use_After_Free
           | Some xs \<Rightarrow> if i < length xs then Inr (xs ! i) else Inl Out_Of_Bounds))"

definition h_write :: "pointer \<Rightarrow> nat \<Rightarrow> 'v \<Rightarrow> 'v heap \<Rightarrow> 'v heap effect" where
  "h_write p i v h =
     (case p of
        None \<Rightarrow> Undefined Null_Dereference
      | Some a \<Rightarrow>
          (case blocks h a of
             None \<Rightarrow> Undefined Use_After_Free
           | Some xs \<Rightarrow>
               if i < length xs then Done (h\<lparr>blocks := (blocks h)(a \<mapsto> xs[i := v])\<rparr>)
               else Undefined Out_Of_Bounds))"

text \<open>\<open>std::copy(from + i, from + i + n, to + i)\<close>.\<close>

fun h_copy :: "pointer \<Rightarrow> pointer \<Rightarrow> nat \<Rightarrow> nat \<Rightarrow> 'v heap \<Rightarrow> 'v heap effect" where
  "h_copy from dest i 0 h = Done h"
| "h_copy from dest i (Suc n) h =
     (case h_read from i h of
        Inl e \<Rightarrow> Undefined e
      | Inr v \<Rightarrow> and_then (h_write dest i v h) (h_copy from dest (Suc i) n))"

definition heap_ok :: "'v heap \<Rightarrow> bool" where
  "heap_ok h \<longleftrightarrow> (\<forall>a. blocks h a \<noteq> None \<longrightarrow> a < fresh h)"

lemma heap_ok_init: "heap_ok (heap_init n)"
  by (simp add: heap_ok_def heap_init_def)

lemma fresh_free: "heap_ok h \<Longrightarrow> blocks h (fresh h) = None"
  unfolding heap_ok_def by blast

lemma h_new_ok: "heap_ok h \<Longrightarrow> h_new xs h = Some (a, h') \<Longrightarrow> heap_ok h'"
  by (auto simp: heap_ok_def h_new_def less_Suc_eq split: if_splits)

lemma h_delete_ok: "heap_ok h \<Longrightarrow> h_delete p h = Done h' \<Longrightarrow> heap_ok h'"
  by (auto simp: heap_ok_def h_delete_def split: option.splits if_splits)

lemma h_delete_allocated:
  "blocks h a = Some xs \<Longrightarrow>
     h_delete (Some a) h = Done (h\<lparr>blocks := (blocks h)(a := None), budget := budget h + length xs\<rparr>)"
  by (simp add: h_delete_def)

text \<open>Copying all of one block over another of at least its length.\<close>

lemma h_copy_done:
  assumes "blocks h a = Some xs" and "a \<noteq> b" and "i + n = length xs"
  shows "blocks h b = Some (take i xs @ ys) \<Longrightarrow> length ys = n \<Longrightarrow>
     h_copy (Some a) (Some b) i n h = Done (h\<lparr>blocks := (blocks h)(b \<mapsto> xs)\<rparr>)"
  using assms
proof (induction n arbitrary: i ys h)
  case 0
  then have "blocks h b = Some xs" by simp
  then have "(blocks h)(b \<mapsto> xs) = blocks h" by (simp add: fun_upd_idem)
  then show ?case by simp
next
  case (Suc n)
  then obtain y zs where ys: "ys = y # zs" "length zs = n" by (cases ys) auto
  have i: "i < length xs" using Suc.prems by simp
  let ?h = "h\<lparr>blocks := (blocks h)(b \<mapsto> take (Suc i) xs @ zs)\<rparr>"
  have "(take i xs @ ys)[i := xs ! i] = take (Suc i) xs @ zs"
    using i by (simp add: ys(1) list_update_append take_Suc_conv_app_nth)
  then have "h_write (Some b) i (xs ! i) h = Done ?h"
    using Suc.prems i by (simp add: h_write_def)
  moreover have "h_read (Some a) i h = Inr (xs ! i)" using Suc.prems i by (simp add: h_read_def)
  moreover have "h_copy (Some a) (Some b) (Suc i) n ?h = Done (?h\<lparr>blocks := (blocks ?h)(b \<mapsto> xs)\<rparr>)"
    using Suc.prems ys(2) by (intro Suc.IH) simp_all
  then have "h_copy (Some a) (Some b) (Suc i) n ?h = Done (h\<lparr>blocks := (blocks h)(b \<mapsto> xs)\<rparr>)"
    by simp
  ultimately show ?case by (simp only: h_copy.simps sum.case and_then.simps)
qed

lemma h_copy_not_thrown: "h_copy from dest i n h \<noteq> Thrown h'"
proof (induction n arbitrary: i h)
  case (Suc n)
  have w: "h_write dest i v h \<noteq> Thrown u" for v u by (auto simp: h_write_def split: option.splits)
  show ?case
  proof (cases "h_read from i h")
    case (Inr v)
    then show ?thesis using Suc w [of v] by (cases "h_write dest i v h") simp_all
  qed simp
qed simp

end
