(* ===== verification/Move_Semantics.thy ===== *)
theory Move_Semantics
  imports Cxx_Heap
begin

text \<open>
  \<open>experiments/move_semantics.cpp\<close>: a buffer that owns an array, with all five special members.
  An object is known by its address (a number), so \<open>this == &other\<close> is equality of names; the
  array is a block of the heap of \<open>Cxx_Heap\<close>, whose elements hold garbage \<open>g\<close> at first.
\<close>

section \<open>The members\<close>

record Buffer =
  data :: pointer
  bsize :: u64

datatype line = Size u64 | Element i32 | Differs bool | Null_Data bool

text \<open>The objects that exist, their heap, and what \<open>main\<close> has printed.\<close>

record objects =
  store :: "i32 heap"
  buf :: "nat \<Rightarrow> Buffer option"
  out :: "line list"

definition objects_init :: "nat \<Rightarrow> objects" where
  "objects_init n = \<lparr>store = heap_init n, buf = (\<lambda>_. None), out = []\<rparr>"

definition on_heap :: "i32 heap effect \<Rightarrow> objects \<Rightarrow> objects effect" where
  "on_heap r st =
     (case r of Done h \<Rightarrow> Done (st\<lparr>store := h\<rparr>) | Thrown h \<Rightarrow> Thrown (st\<lparr>store := h\<rparr>)
              | Undefined e \<Rightarrow> Undefined e)"

definition set_buf :: "nat \<Rightarrow> pointer \<Rightarrow> u64 \<Rightarrow> objects \<Rightarrow> objects" where
  "set_buf x p n st = st\<lparr>buf := (buf st)(x \<mapsto> \<lparr>data = p, bsize = n\<rparr>)\<rparr>"

text \<open>\<open>data = new int[n]\<close>.\<close>

definition new_array :: "(nat \<Rightarrow> i32) \<Rightarrow> u64 \<Rightarrow> objects \<Rightarrow> (address \<times> objects) option" where
  "new_array g n st =
     (case h_new (map g [0 ..< unat n]) (store st) of
        None \<Rightarrow> None
      | Some (a, h) \<Rightarrow> Some (a, st\<lparr>store := h\<rparr>))"

definition buffer_construct :: "nat \<Rightarrow> u64 \<Rightarrow> (nat \<Rightarrow> i32) \<Rightarrow> objects \<Rightarrow> objects effect" where
  "buffer_construct x n g st =
     (case new_array g n st of
        None \<Rightarrow> Thrown st
      | Some (a, st) \<Rightarrow> Done (set_buf x (Some a) n st))"

definition buffer_destroy :: "nat \<Rightarrow> objects \<Rightarrow> objects effect" where
  "buffer_destroy x st =
     (case buf st x of
        None \<Rightarrow> Undefined No_Object
      | Some b \<Rightarrow>
          and_then (on_heap (h_delete (data b) (store st)) st) (\<lambda>st. Done (st\<lparr>buf := (buf st)(x := None)\<rparr>)))"

definition buffer_copy_construct :: "nat \<Rightarrow> nat \<Rightarrow> (nat \<Rightarrow> i32) \<Rightarrow> objects \<Rightarrow> objects effect" where
  "buffer_copy_construct x y g st =
     (case buf st y of
        None \<Rightarrow> Undefined No_Object
      | Some other \<Rightarrow>
          (case new_array g (bsize other) st of
             None \<Rightarrow> Thrown st
           | Some (a, st) \<Rightarrow>
               and_then (on_heap (h_copy (data other) (Some a) 0 (unat (bsize other)) (store st)) st)
                 (\<lambda>st. Done (set_buf x (Some a) (bsize other) st))))"

text \<open>
  If the allocation throws, the old array is gone, the size is the new one, and \<open>data\<close> still
  points to the old array.
\<close>

definition buffer_copy_assign :: "nat \<Rightarrow> nat \<Rightarrow> (nat \<Rightarrow> i32) \<Rightarrow> objects \<Rightarrow> objects effect" where
  "buffer_copy_assign x y g st =
     (case (buf st x, buf st y) of
        (Some this, Some other) \<Rightarrow>
          if x = y then Done st
          else
            and_then (on_heap (h_delete (data this) (store st)) st) (\<lambda>st.
              let st = set_buf x (data this) (bsize other) st
              in case new_array g (bsize other) st of
                   None \<Rightarrow> Thrown st
                 | Some (a, st) \<Rightarrow>
                     on_heap (h_copy (data other) (Some a) 0 (unat (bsize other)) (store st))
                       (set_buf x (Some a) (bsize other) st))
      | _ \<Rightarrow> Undefined No_Object)"

definition buffer_move_construct :: "nat \<Rightarrow> nat \<Rightarrow> objects \<Rightarrow> objects effect" where
  "buffer_move_construct x y st =
     (case buf st y of
        None \<Rightarrow> Undefined No_Object
      | Some other \<Rightarrow> Done (set_buf y None 0 (set_buf x (data other) (bsize other) st)))"

definition buffer_move_assign :: "nat \<Rightarrow> nat \<Rightarrow> objects \<Rightarrow> objects effect" where
  "buffer_move_assign x y st =
     (case (buf st x, buf st y) of
        (Some this, Some other) \<Rightarrow>
          if x = y then Done st
          else
            and_then (on_heap (h_delete (data this) (store st)) st) (\<lambda>st.
              Done (set_buf y None 0 (set_buf x (data other) (bsize other) st)))
      | _ \<Rightarrow> Undefined No_Object)"

text \<open>\<open>b.data[i] = v\<close> and \<open>b.data[i]\<close>.\<close>

definition buffer_set :: "nat \<Rightarrow> nat \<Rightarrow> i32 \<Rightarrow> objects \<Rightarrow> objects effect" where
  "buffer_set x i v st =
     (case buf st x of
        None \<Rightarrow> Undefined No_Object
      | Some b \<Rightarrow> on_heap (h_write (data b) i v (store st)) st)"

definition print :: "line \<Rightarrow> objects \<Rightarrow> objects effect" where
  "print l st = Done (st\<lparr>out := out st @ [l]\<rparr>)"

datatype statement =
    Construct nat u64 "nat \<Rightarrow> i32" | Destroy nat
  | Copy_Construct nat nat "nat \<Rightarrow> i32" | Copy_Assign nat nat "nat \<Rightarrow> i32"
  | Move_Construct nat nat | Move_Assign nat nat
  | Set nat nat i32
  | Print_Size nat | Print_Element nat nat | Print_Differs nat nat | Print_Null nat

definition statement_step :: "statement \<Rightarrow> objects \<Rightarrow> objects effect" where
  "statement_step c st =
     (case c of
        Construct x n g \<Rightarrow> buffer_construct x n g st
      | Destroy x \<Rightarrow> buffer_destroy x st
      | Copy_Construct x y g \<Rightarrow> buffer_copy_construct x y g st
      | Copy_Assign x y g \<Rightarrow> buffer_copy_assign x y g st
      | Move_Construct x y \<Rightarrow> buffer_move_construct x y st
      | Move_Assign x y \<Rightarrow> buffer_move_assign x y st
      | Set x i v \<Rightarrow> buffer_set x i v st
      | Print_Size x \<Rightarrow> (case buf st x of None \<Rightarrow> Undefined No_Object | Some b \<Rightarrow> print (Size (bsize b)) st)
      | Print_Element x i \<Rightarrow>
          (case buf st x of
             None \<Rightarrow> Undefined No_Object
           | Some b \<Rightarrow> (case h_read (data b) i (store st) of Inl e \<Rightarrow> Undefined e | Inr v \<Rightarrow> print (Element v) st))
      | Print_Differs x y \<Rightarrow>
          (case (buf st x, buf st y) of
             (Some a, Some b) \<Rightarrow> print (Differs (data a \<noteq> data b)) st
           | _ \<Rightarrow> Undefined No_Object)
      | Print_Null x \<Rightarrow>
          (case buf st x of None \<Rightarrow> Undefined No_Object | Some b \<Rightarrow> print (Null_Data (data b = None)) st))"

text \<open>\<open>main\<close>, with the destructors at its end in reverse order of construction.\<close>

definition move_main :: "(nat \<Rightarrow> i32) \<Rightarrow> statement list" where
  "move_main g =
     [Construct 1 4 g, Set 1 0 1, Set 1 1 2, Set 1 2 3, Set 1 3 4, Print_Size 1,
      Copy_Construct 2 1 g, Print_Element 2 0, Print_Differs 1 2,
      Construct 3 2 g, Copy_Assign 3 1 g, Print_Element 3 1, Print_Differs 1 2,
      Move_Construct 4 1, Print_Null 4, Print_Null 1, Print_Size 1,
      Construct 5 1 g, Move_Assign 5 2, Print_Element 5 0, Print_Null 2, Print_Size 2,
      Destroy 5, Destroy 4, Destroy 3, Destroy 2, Destroy 1]"

section \<open>Ownership\<close>

text \<open>
  An object without an array has size zero, any other owns a block of its size, no two own the
  same, and every block is owned.
\<close>

definition owns :: "objects \<Rightarrow> nat \<Rightarrow> address \<Rightarrow> bool" where
  "owns st x a \<longleftrightarrow> (\<exists>b. buf st x = Some b \<and> data b = Some a)"

definition objects_ok :: "objects \<Rightarrow> bool" where
  "objects_ok st \<longleftrightarrow>
     heap_ok (store st) \<and>
     (\<forall>x b. buf st x = Some b \<longrightarrow>
        (case data b of
           None \<Rightarrow> bsize b = 0
         | Some a \<Rightarrow> \<exists>xs. blocks (store st) a = Some xs \<and> length xs = unat (bsize b))) \<and>
     (\<forall>x y a. owns st x a \<longrightarrow> owns st y a \<longrightarrow> x = y) \<and>
     (\<forall>a. blocks (store st) a \<noteq> None \<longrightarrow> (\<exists>x. owns st x a))"

text \<open>The value of an object: the elements of its array.\<close>

definition elements :: "objects \<Rightarrow> Buffer \<Rightarrow> i32 list" where
  "elements st b = (case data b of None \<Rightarrow> [] | Some a \<Rightarrow> the (blocks (store st) a))"

definition elems :: "objects \<Rightarrow> nat \<Rightarrow> i32 list option" where
  "elems st x = map_option (elements st) (buf st x)"

text \<open>What each statement means for the values: objects are independent of each other.\<close>

definition value_step :: "statement \<Rightarrow> (nat \<Rightarrow> i32 list option) \<Rightarrow> nat \<Rightarrow> i32 list option" where
  "value_step c V =
     (case c of
        Construct x n g \<Rightarrow> V(x \<mapsto> map g [0 ..< unat n])
      | Destroy x \<Rightarrow> V(x := None)
      | Copy_Construct x y g \<Rightarrow> V(x := V y)
      | Copy_Assign x y g \<Rightarrow> V(x := V y)
      | Move_Construct x y \<Rightarrow> V(x := V y, y \<mapsto> [])
      | Move_Assign x y \<Rightarrow> if x = y then V else V(x := V y, y \<mapsto> [])
      | Set x i v \<Rightarrow> V(x := map_option (\<lambda>xs. xs[i := v]) (V x))
      | _ \<Rightarrow> V)"

text \<open>
  Where a statement may stand: the objects it uses exist and those it constructs do not, and
  indices are in range.
\<close>

definition usable :: "statement \<Rightarrow> objects \<Rightarrow> bool" where
  "usable c st =
     (case c of
        Construct x n g \<Rightarrow> buf st x = None
      | Destroy x \<Rightarrow> buf st x \<noteq> None
      | Copy_Construct x y g \<Rightarrow> buf st x = None \<and> buf st y \<noteq> None
      | Copy_Assign x y g \<Rightarrow> buf st x \<noteq> None \<and> buf st y \<noteq> None
      | Move_Construct x y \<Rightarrow> buf st x = None \<and> buf st y \<noteq> None
      | Move_Assign x y \<Rightarrow> buf st x \<noteq> None \<and> buf st y \<noteq> None
      | Set x i v \<Rightarrow> buf st x \<noteq> None \<and> i < length (the (elems st x))
      | Print_Size x \<Rightarrow> buf st x \<noteq> None
      | Print_Element x i \<Rightarrow> buf st x \<noteq> None \<and> i < length (the (elems st x))
      | Print_Differs x y \<Rightarrow> buf st x \<noteq> None \<and> buf st y \<noteq> None
      | Print_Null x \<Rightarrow> buf st x \<noteq> None)"

text \<open>An assignment by copy finds memory for the new array once the old is gone.\<close>

fun finds_memory :: "statement \<Rightarrow> objects \<Rightarrow> bool" where
  "finds_memory (Copy_Assign x y g) st \<longleftrightarrow>
     x = y \<or> length (the (elems st y)) \<le> budget (store st) + length (the (elems st x))"
| "finds_memory c st \<longleftrightarrow> True"

definition permitted :: "statement \<Rightarrow> objects \<Rightarrow> bool" where
  "permitted c st \<longleftrightarrow> usable c st \<and> finds_memory c st"

text \<open>What the constructors ask for.\<close>

fun asks :: "statement \<Rightarrow> objects \<Rightarrow> nat" where
  "asks (Construct x n g) st = unat n"
| "asks (Copy_Construct x y g) st = length (the (elems st y))"
| "asks c st = 0"

lemma objects_ok_init: "objects_ok (objects_init n)"
  by (simp add: objects_ok_def objects_init_def heap_ok_init owns_def) (simp add: heap_init_def)

lemma set_buf_simps [simp]:
  "store (set_buf x p n st) = store st" "out (set_buf x p n st) = out st"
  "buf (set_buf x p n st) = (buf st)(x \<mapsto> \<lparr>data = p, bsize = n\<rparr>)"
  by (simp_all add: set_buf_def)

lemma object_block:
  assumes "objects_ok st" and "buf st x = Some b"
  shows "data b = None \<Longrightarrow> bsize b = 0 \<and> elements st b = []"
    and "data b = Some a \<Longrightarrow> blocks (store st) a = Some (elements st b)"
    and "length (elements st b) = unat (bsize b)"
proof -
  have "case data b of
          None \<Rightarrow> bsize b = 0
        | Some a \<Rightarrow> \<exists>xs. blocks (store st) a = Some xs \<and> length xs = unat (bsize b)"
    using assms unfolding objects_ok_def by blast
  then show "data b = None \<Longrightarrow> bsize b = 0 \<and> elements st b = []"
    "data b = Some a \<Longrightarrow> blocks (store st) a = Some (elements st b)"
    "length (elements st b) = unat (bsize b)"
    by (cases "data b"; auto simp: elements_def)+
qed

lemma objects_okD:
  assumes "objects_ok st"
  shows "heap_ok (store st)" "owns st x a \<Longrightarrow> owns st y a \<Longrightarrow> x = y"
    "blocks (store st) a \<noteq> None \<Longrightarrow> \<exists>x. owns st x a"
  using assms unfolding objects_ok_def by blast+

lemma own_fresh:
  assumes "objects_ok st" and "owns st x a"
  shows "a < fresh (store st)"
proof -
  obtain b where "buf st x = Some b" "data b = Some a" using assms(2) by (auto simp: owns_def)
  then have "blocks (store st) a \<noteq> None" using object_block(2) [OF assms(1)] by simp
  moreover have "heap_ok (store st)" using assms(1) unfolding objects_ok_def by blast
  ultimately show ?thesis unfolding heap_ok_def by blast
qed

text \<open>A new object with a new array.\<close>

lemma new_object:
  assumes ok: "objects_ok st" and x: "buf st x = None" and n: "length xs = unat n"
    and new: "h_new xs (store st) = Some (a, h)"
  shows "objects_ok (set_buf x (Some a) n (st\<lparr>store := h\<rparr>))" (is "objects_ok ?t")
    and "elems (set_buf x (Some a) n (st\<lparr>store := h\<rparr>)) = (elems st)(x \<mapsto> xs)"
proof -
  have a: "a = fresh (store st)" and h: "blocks h = (blocks (store st))(a \<mapsto> xs)"
    using new by (auto simp: h_new_def split: if_splits)
  have owns: "owns ?t y b \<longleftrightarrow> (if y = x then b = a else owns st y b)" for y b
    by (auto simp: owns_def)
  have old: "b \<noteq> a" if "owns st y b" for y b using own_fresh [OF ok that] a by simp
  have nx: "\<not> owns st x b" for b using x by (simp add: owns_def)
  show "objects_ok ?t"
    unfolding objects_ok_def
  proof (intro conjI allI impI)
    show "heap_ok (store ?t)" using h_new_ok [OF objects_okD(1) [OF ok] new] by simp
    show "case data b of None \<Rightarrow> bsize b = 0
          | Some c \<Rightarrow> \<exists>ys. blocks (store ?t) c = Some ys \<and> length ys = unat (bsize b)"
      if b: "buf ?t y = Some b" for y b
    proof (cases "y = x")
      case True
      then show ?thesis using b n by (auto simp: h)
    next
      case False
      then have b': "buf st y = Some b" using b by simp
      then have "c \<noteq> a" if "data b = Some c" for c using old [of y c] that by (simp add: owns_def)
      then show ?thesis
        using object_block [OF ok b'] by (cases "data b") (auto simp: h)
    qed
    show "y = z" if "owns ?t y b" "owns ?t z b" for y z b
      using that old objects_okD(2) [OF ok, of y b z] unfolding owns by (auto split: if_splits)
    show "\<exists>y. owns ?t y b" if "blocks (store ?t) b \<noteq> None" for b
    proof (cases "b = a")
      case True
      then have "owns ?t x b" by (simp add: owns)
      then show ?thesis ..
    next
      case False
      then have "blocks (store st) b \<noteq> None" using that by (simp add: h)
      then obtain y where y: "owns st y b" using objects_okD(3) [OF ok] by blast
      then have "y \<noteq> x" using nx by blast
      with y have "owns ?t y b" by (simp add: owns)
      then show ?thesis ..
    qed
  qed
  show "elems ?t = (elems st)(x \<mapsto> xs)"
  proof
    fix y
    show "elems ?t y = ((elems st)(x \<mapsto> xs)) y"
    proof (cases "y = x")
      case False
      have "elements ?t b = elements st b" if "buf st y = Some b" for b
        using old [of y] that by (auto simp: elements_def h owns_def split: option.splits)
      with False show ?thesis by (cases "buf st y") (simp_all add: elems_def)
    qed (simp add: elems_def elements_def h)
  qed
qed

lemma on_heap_Done [simp]: "on_heap (Done h) st = Done (st\<lparr>store := h\<rparr>)"
  by (simp add: on_heap_def)

text \<open>The copy constructor allocates an array with the other's elements.\<close>

lemma copy_construct_is_new:
  assumes ok: "objects_ok st" and y: "buf st y = Some other"
  shows "buffer_copy_construct x y g st =
     (case h_new (elements st other) (store st) of
        None \<Rightarrow> Thrown st
      | Some (a, h) \<Rightarrow> Done (set_buf x (Some a) (bsize other) (st\<lparr>store := h\<rparr>)))"
proof -
  note b = object_block [OF ok y]
  let ?xs = "elements st other" and ?g = "map g [0 ..< unat (bsize other)]"
  let ?a = "fresh (store st)"
  show ?thesis
  proof (cases "length ?xs \<le> budget (store st)")
    case False
    then show ?thesis using b(3) by (simp add: buffer_copy_construct_def y new_array_def h_new_def)
  next
    case True
    let ?h = "(store st)\<lparr>blocks := (blocks (store st))(?a \<mapsto> ?g), fresh := Suc ?a,
        budget := budget (store st) - length ?xs\<rparr>"
    have "h_copy (data other) (Some ?a) 0 (unat (bsize other)) ?h =
        Done (?h\<lparr>blocks := (blocks ?h)(?a \<mapsto> ?xs)\<rparr>)"
    proof (cases "data other")
      case None
      with b(1) show ?thesis by simp
    next
      case (Some c)
      then have c: "blocks (store st) c = Some ?xs" using b(2) by simp
      have "c \<noteq> ?a" using own_fresh [OF ok, of y c] y Some by (simp add: owns_def)
      then show ?thesis unfolding Some using c b(3)
        by (intro h_copy_done [where ys = ?g]) simp_all
    qed
    then show ?thesis using True b(3)
      by (simp add: buffer_copy_construct_def y new_array_def h_new_def)
  qed
qed

text \<open>Destruction frees the array and no other.\<close>

lemma destroy_object:
  assumes ok: "objects_ok st" and x: "buf st x = Some b"
  shows "\<exists>t. buffer_destroy x st = Done t \<and> objects_ok t \<and> buf t = (buf st)(x := None) \<and>
             elems t = (elems st)(x := None) \<and>
             budget (store t) = budget (store st) + length (elements st b)"
proof -
  note blk = object_block [OF ok x]
  define h where "h = (case data b of None \<Rightarrow> store st
     | Some a \<Rightarrow> (store st)\<lparr>blocks := (blocks (store st))(a := None),
                          budget := budget (store st) + length (elements st b)\<rparr>)"
  have del: "h_delete (data b) (store st) = Done h"
    using blk by (cases "data b") (simp_all add: h_def h_delete_def)
  let ?t = "st\<lparr>store := h, buf := (buf st)(x := None)\<rparr>"
  have finished: "buffer_destroy x st = Done ?t" by (simp add: buffer_destroy_def x del)
  have budget: "budget h = budget (store st) + length (elements st b)"
    using blk by (cases "data b") (simp_all add: h_def)
  have owns: "owns ?t y a \<longleftrightarrow> y \<noteq> x \<and> owns st y a" for y a by (auto simp: owns_def)
  have keep: "blocks h a = blocks (store st) a" if "owns st y a" "y \<noteq> x" for y a
  proof (cases "data b")
    case (Some c)
    then have "owns st x c" using x by (simp add: owns_def)
    then have "a \<noteq> c" using objects_okD(2) [OF ok] that by blast
    with Some show ?thesis by (simp add: h_def)
  qed (simp add: h_def)
  have gone: "blocks (store st) a \<noteq> None \<and> \<not> owns st x a" if "blocks h a \<noteq> None" for a
    using that x by (cases "data b") (auto simp: h_def owns_def split: if_splits)
  have el: "elements ?t c = elements st c" if "buf st y = Some c" "y \<noteq> x" for y c
    using keep [of y] that by (auto simp: elements_def owns_def split: option.splits)
  have "objects_ok ?t"
    unfolding objects_ok_def
  proof (intro conjI allI impI)
    show "heap_ok (store ?t)" using h_delete_ok [OF objects_okD(1) [OF ok] del] by simp
    show "case data c of None \<Rightarrow> bsize c = 0
          | Some a \<Rightarrow> \<exists>ys. blocks (store ?t) a = Some ys \<and> length ys = unat (bsize c)"
      if c: "buf ?t y = Some c" for y c
    proof -
      have y: "buf st y = Some c" "y \<noteq> x" using c by (auto split: if_splits)
      then show ?thesis
        using object_block [OF ok y(1)] keep [of y] by (cases "data c") (auto simp: owns_def)
    qed
    show "y = z" if "owns ?t y a" "owns ?t z a" for y z a
      using that objects_okD(2) [OF ok, of y a z] unfolding owns by simp
    show "\<exists>y. owns ?t y a" if "blocks (store ?t) a \<noteq> None" for a
    proof -
      have "blocks (store st) a \<noteq> None" "\<not> owns st x a" using gone [of a] that by simp_all
      then obtain y where "owns st y a" "y \<noteq> x" using objects_okD(3) [OF ok] by blast
      then have "owns ?t y a" by (simp add: owns)
      then show ?thesis ..
    qed
  qed
  moreover have "elems ?t = (elems st)(x := None)"
  proof
    fix y show "elems ?t y = ((elems st)(x := None)) y"
      using el [of y] by (cases "buf st y") (simp_all add: elems_def)
  qed
  ultimately show ?thesis using finished budget by (intro exI [of _ ?t]) simp
qed

text \<open>Assignment is destruction followed by construction.\<close>

lemma copy_assign_splits:
  assumes "x \<noteq> y" and "buf st x = Some this" "buf st y = Some other"
    and "buffer_destroy x st = Done t" and "unat (bsize other) \<le> budget (store t)"
  shows "buffer_copy_assign x y g st = buffer_copy_construct x y g t"
proof -
  obtain h where h: "h_delete (data this) (store st) = Done h"
    and t: "t = st\<lparr>store := h, buf := (buf st)(x := None)\<rparr>"
    using assms(2,4) by (cases "h_delete (data this) (store st)") (auto simp: buffer_destroy_def on_heap_def)
  define h' where "h' = h\<lparr>blocks := (blocks h)(fresh h \<mapsto> map g [0 ..< unat (bsize other)]),
      fresh := Suc (fresh h), budget := budget h - unat (bsize other)\<rparr>"
  have new: "h_new (map g [0 ..< unat (bsize other)]) h = Some (fresh h, h')"
    using assms(5) by (simp add: h_new_def h'_def t)
  obtain s0 b0 o0 where st: "st = \<lparr>store = s0, buf = b0, out = o0\<rparr>" by (cases st)
  show ?thesis
    using assms(1-3) h
    by (cases "h_copy (data other) (Some (fresh h)) 0 (unat (bsize other)) h'")
      (simp_all add: buffer_copy_assign_def buffer_copy_construct_def new_array_def new t set_buf_def on_heap_def st
        h_copy_not_thrown)
qed

lemma move_assign_splits:
  assumes "x \<noteq> y" and "buf st x = Some this" "buf st y = Some other" and "buffer_destroy x st = Done t"
  shows "buffer_move_assign x y st = buffer_move_construct x y t"
proof -
  obtain h where h: "h_delete (data this) (store st) = Done h"
    and t: "t = st\<lparr>store := h, buf := (buf st)(x := None)\<rparr>"
    using assms(2,4) by (cases "h_delete (data this) (store st)") (auto simp: buffer_destroy_def on_heap_def)
  obtain s0 b0 o0 where st: "st = \<lparr>store = s0, buf = b0, out = o0\<rparr>" by (cases st)
  show ?thesis
    using assms(1-3) h
    by (simp add: buffer_move_assign_def buffer_move_construct_def t set_buf_def on_heap_def st)
qed

text \<open>A move hands the array over.\<close>

lemma move_object:
  assumes ok: "objects_ok st" and x: "buf st x = None" and y: "buf st y = Some other"
  shows "\<exists>t. buffer_move_construct x y st = Done t \<and> objects_ok t \<and> elems t = (elems st)(x := elems st y, y \<mapsto> [])"
proof -
  let ?t = "set_buf y None 0 (set_buf x (data other) (bsize other) st)"
  have xy: "x \<noteq> y" using x y by auto
  have owns: "owns ?t z a \<longleftrightarrow> (if z = y then False else if z = x then owns st y a else owns st z a)" for z a
    using y by (auto simp: owns_def)
  have el: "elements ?t = elements st" by (simp add: fun_eq_iff elements_def cong: option.case_cong)
  have "objects_ok ?t"
    unfolding objects_ok_def
  proof (intro conjI allI impI)
    show "heap_ok (store ?t)" using objects_okD(1) [OF ok] by simp
    show "case data b of None \<Rightarrow> bsize b = 0
          | Some a \<Rightarrow> \<exists>ys. blocks (store ?t) a = Some ys \<and> length ys = unat (bsize b)"
      if b: "buf ?t z = Some b" for z b
    proof (cases "z = y")
      case False
      then have "z = x \<and> b = other \<or> buf st z = Some b" using b by (cases "z = x") auto
      then obtain w where w: "buf st w = Some b" using y by blast
      show ?thesis using object_block [OF ok w] by (cases "data b") auto
    qed (use b in auto)
    show "z = w" if "owns ?t z a" "owns ?t w a" for z w a
      using that objects_okD(2) [OF ok, of _ a] x unfolding owns by (auto simp: owns_def split: if_splits)
    show "\<exists>z. owns ?t z a" if "blocks (store ?t) a \<noteq> None" for a
    proof -
      have "blocks (store st) a \<noteq> None" using that by simp
      then obtain z where z: "owns st z a" using objects_okD(3) [OF ok] by blast
      then have "z \<noteq> x" using x by (auto simp: owns_def)
      then have "owns ?t (if z = y then x else z) a" using z xy by (auto simp: owns)
      then show ?thesis ..
    qed
  qed
  moreover have "elems ?t = (elems st)(x := elems st y, y \<mapsto> [])"
    using y xy by (simp add: elems_def fun_eq_iff el) (simp add: elements_def)
  ultimately show ?thesis by (simp add: buffer_move_construct_def y)
qed

text \<open>Writing an element changes the block of the object, and nobody else has it.\<close>

lemma set_element:
  assumes ok: "objects_ok st" and x: "buf st x = Some b" and i: "i < length (elements st b)"
  shows "\<exists>t. buffer_set x i v st = Done t \<and> objects_ok t \<and>
             elems t = (elems st)(x \<mapsto> (elements st b)[i := v])"
proof -
  obtain a where a: "data b = Some a" using i by (cases "data b") (simp_all add: elements_def)
  then have blk: "blocks (store st) a = Some (elements st b)" using object_block(2) [OF ok x] by simp
  let ?h = "(store st)\<lparr>blocks := (blocks (store st))(a \<mapsto> (elements st b)[i := v])\<rparr>"
  let ?t = "st\<lparr>store := ?h\<rparr>"
  have set: "buffer_set x i v st = Done ?t" using i by (simp add: buffer_set_def x h_write_def a blk)
  have owns: "owns ?t y c = owns st y c" for y c by (simp add: owns_def)
  have ax: "y = x" if "owns st y a" for y using objects_okD(2) [OF ok that, of x] x a by (simp add: owns_def)
  have "objects_ok ?t"
    unfolding objects_ok_def owns
  proof (intro conjI allI impI)
    show "heap_ok (store ?t)" using objects_okD(1) [OF ok] blk by (auto simp: heap_ok_def)
    show "case data c of None \<Rightarrow> bsize c = 0
          | Some d \<Rightarrow> \<exists>ys. blocks (store ?t) d = Some ys \<and> length ys = unat (bsize c)"
      if c: "buf ?t y = Some c" for y c
    proof -
      have y: "buf st y = Some c" using c by simp
      note o = object_block [OF ok y]
      show ?thesis
      proof (cases "data c")
        case (Some d)
        then show ?thesis using o(2,3) blk by (cases "d = a") auto
      qed (use o(1) in simp)
    qed
    show "y = z" if "owns st y c" "owns st z c" for y z c using that objects_okD(2) [OF ok] by blast
    show "\<exists>y. owns st y c" if "blocks (store ?t) c \<noteq> None" for c
      using that objects_okD(3) [OF ok, of c] blk by (auto split: if_splits)
  qed
  moreover have "elems ?t = (elems st)(x \<mapsto> (elements st b)[i := v])"
  proof
    fix y
    show "elems ?t y = ((elems st)(x \<mapsto> (elements st b)[i := v])) y"
    proof (cases "y = x")
      case False
      have "elements ?t c = elements st c" if "buf st y = Some c" for c
        using that ax [of y] False by (auto simp: elements_def owns_def split: option.splits)
      with False show ?thesis by (cases "buf st y") (simp_all add: elems_def)
    qed (simp add: elems_def x elements_def a)
  qed
  ultimately show ?thesis using set by blast
qed

lemma elems_Some: "buf st x = Some b \<Longrightarrow> elems st x = Some (elements st b)"
  by (simp add: elems_def)

text \<open>A state that differs only in what was printed.\<close>

lemma printed_ok: "objects_ok st \<Longrightarrow> objects_ok (st\<lparr>out := ls\<rparr>)" "elems (st\<lparr>out := ls\<rparr>) = elems st"
proof -
  have o: "owns (st\<lparr>out := ls\<rparr>) = owns st" by (simp add: fun_eq_iff owns_def)
  have e: "elements (st\<lparr>out := ls\<rparr>) = elements st"
    by (simp add: fun_eq_iff elements_def cong: option.case_cong)
  show "objects_ok st \<Longrightarrow> objects_ok (st\<lparr>out := ls\<rparr>)"
    by (simp add: objects_ok_def o cong: option.case_cong)
  show "elems (st\<lparr>out := ls\<rparr>) = elems st" by (simp add: fun_eq_iff elems_def e)
qed

definition behaves :: "statement \<Rightarrow> objects \<Rightarrow> bool" where
  "behaves c st \<longleftrightarrow>
     (\<exists>t. statement_step c st = Done t \<and> objects_ok t \<and> elems t = value_step c (elems st)) \<or>
     statement_step c st = Thrown st"

lemma new_object_behaves:
  assumes ok: "objects_ok st" and x: "buf st x = None" and n: "length xs = unat n"
    and step: "statement_step c st = (case h_new xs (store st) of None \<Rightarrow> Thrown st
                 | Some (a, h) \<Rightarrow> Done (set_buf x (Some a) n (st\<lparr>store := h\<rparr>)))"
    and val: "value_step c (elems st) = (elems st)(x \<mapsto> xs)"
  shows "behaves c st"
proof (cases "h_new xs (store st)")
  case (Some r)
  then show ?thesis using new_object [OF ok x n] step val by (cases r) (simp add: behaves_def)
qed (simp add: behaves_def step)

lemma copy_assign_done:
  assumes ok: "objects_ok st" and p: "permitted (Copy_Assign x y g) st"
  shows "\<exists>t. statement_step (Copy_Assign x y g) st = Done t \<and> objects_ok t \<and>
     elems t = value_step (Copy_Assign x y g) (elems st)"
proof (cases "x = y")
  case True
  then show ?thesis using ok p
    by (auto simp: statement_step_def buffer_copy_assign_def permitted_def usable_def value_step_def)
next
  case False
  obtain this other where xy: "buf st x = Some this" "buf st y = Some other"
    using p by (auto simp: permitted_def usable_def)
  have room: "length (elements st other) \<le> budget (store st) + length (elements st this)"
    using p False xy by (simp add: permitted_def usable_def elems_Some)
  obtain t where t: "buffer_destroy x st = Done t" "objects_ok t" "buf t = (buf st)(x := None)"
    "elems t = (elems st)(x := None)" "budget (store t) = budget (store st) + length (elements st this)"
    using destroy_object [OF ok xy(1)] by blast
  have y: "buf t y = Some other" "elements t other = elements st other"
    using t(3,4) xy(2) False elems_Some [of t y other] elems_Some [of st y other] by simp_all
  have len: "length (elements st other) = unat (bsize other)" by (rule object_block(3) [OF ok xy(2)])
  have "buffer_copy_assign x y g st = buffer_copy_construct x y g t"
    by (rule copy_assign_splits [OF False xy t(1)]) (use room t(5) len in simp)
  moreover obtain a h where new: "h_new (elements t other) (store t) = Some (a, h)"
    using room t(5) y(2) by (auto simp: h_new_def)
  ultimately have "buffer_copy_assign x y g st = Done (set_buf x (Some a) (bsize other) (t\<lparr>store := h\<rparr>))"
    using copy_construct_is_new [OF t(2) y(1)] by simp
  moreover have "buf t x = None" "length (elements t other) = unat (bsize other)" using t(3) y(2) len by simp_all
  note new_object [OF t(2) this new]
  ultimately show ?thesis
    using t(4) y(2) xy(2) by (simp add: statement_step_def value_step_def elems_Some)
qed

lemma copy_assign_behaves: "objects_ok st \<Longrightarrow> permitted (Copy_Assign x y g) st \<Longrightarrow> behaves (Copy_Assign x y g) st"
  using copy_assign_done by (simp add: behaves_def)

lemma move_assign_behaves:
  assumes ok: "objects_ok st" and p: "permitted (Move_Assign x y) st"
  shows "behaves (Move_Assign x y) st"
proof (cases "x = y")
  case True
  then show ?thesis using ok p
    by (auto simp: behaves_def statement_step_def buffer_move_assign_def permitted_def usable_def value_step_def)
next
  case False
  obtain this other where xy: "buf st x = Some this" "buf st y = Some other"
    using p by (auto simp: permitted_def usable_def)
  obtain t where t: "buffer_destroy x st = Done t" "objects_ok t" "buf t = (buf st)(x := None)"
    "elems t = (elems st)(x := None)"
    using destroy_object [OF ok xy(1)] by blast
  have "buf t x = None" "buf t y = Some other" using t(3) xy(2) False by simp_all
  from move_object [OF t(2) this] show ?thesis
    using move_assign_splits [OF False xy t(1)] t(4) False
    by (auto simp: behaves_def statement_step_def value_step_def)
qed

lemma statement_behaves:
  assumes ok: "objects_ok st" and p: "permitted c st"
  shows "behaves c st"
proof (cases c)
  case (Construct x n g)
  then show ?thesis using p
    by (intro new_object_behaves [OF ok, of x "map g [0 ..< unat n]" n])
      (auto simp: permitted_def usable_def statement_step_def value_step_def buffer_construct_def new_array_def split: option.splits)
next
  case (Destroy x)
  then obtain b where "buf st x = Some b" using p by (auto simp: permitted_def usable_def)
  from destroy_object [OF ok this] Destroy show ?thesis
    by (auto simp: behaves_def statement_step_def value_step_def)
next
  case (Copy_Construct x y g)
  then obtain b where b: "buf st x = None" "buf st y = Some b" using p by (auto simp: permitted_def usable_def)
  then show ?thesis
    using object_block(3) [OF ok b(2)] copy_construct_is_new [OF ok b(2)] Copy_Construct
    by (intro new_object_behaves [OF ok b(1), of "elements st b" "bsize b"])
      (simp_all add: statement_step_def value_step_def elems_Some)
next
  case (Copy_Assign x y g)
  with copy_assign_behaves [OF ok] p show ?thesis by simp
next
  case (Move_Construct x y)
  then obtain b where "buf st x = None" "buf st y = Some b" using p by (auto simp: permitted_def usable_def)
  from move_object [OF ok this] Move_Construct show ?thesis
    by (auto simp: behaves_def statement_step_def value_step_def)
next
  case (Move_Assign x y)
  with move_assign_behaves [OF ok] p show ?thesis by simp
next
  case (Set x i v)
  then obtain b where b: "buf st x = Some b" using p by (auto simp: permitted_def usable_def)
  with p Set have "i < length (elements st b)" by (simp add: permitted_def usable_def elems_Some)
  from set_element [OF ok b this] Set b show ?thesis
    by (auto simp: behaves_def statement_step_def value_step_def elems_Some)
next
  case (Print_Element x i)
  then obtain b where b: "buf st x = Some b" using p by (auto simp: permitted_def usable_def)
  then have i: "i < length (elements st b)" using p Print_Element by (simp add: permitted_def usable_def elems_Some)
  then obtain a where a: "data b = Some a" by (cases "data b") (simp_all add: elements_def)
  then have "h_read (data b) i (store st) = Inr (elements st b ! i)"
    using object_block(2) [OF ok b a] i by (simp add: h_read_def)
  then show ?thesis using b ok Print_Element
    by (simp add: behaves_def statement_step_def print_def value_step_def printed_ok)
qed (use p ok in \<open>auto simp: permitted_def usable_def behaves_def statement_step_def print_def value_step_def printed_ok\<close>)

interpretation buffers: safe_statements statement_step objects_ok permitted
  by unfold_locales (use statement_behaves in \<open>force simp: behaves_def\<close>)

text \<open>When a statement throws, and what an assignment by copy that does leaves behind.\<close>

lemma copy_assign_short:
  assumes ok: "objects_ok st" and u: "usable (Copy_Assign x y g) st" and short: "\<not> finds_memory (Copy_Assign x y g) st"
  shows "\<exists>t. statement_step (Copy_Assign x y g) st = Thrown t \<and> (\<forall>z. z \<noteq> x \<longrightarrow> elems t z = elems st z) \<and>
     map_option data (buf t x) = map_option data (buf st x) \<and>
     map_option bsize (buf t x) = map_option bsize (buf st y) \<and> (\<forall>a. owns st x a \<longrightarrow> blocks (store t) a = None)"
proof -
  obtain this other where xy: "buf st x = Some this" "buf st y = Some other" "x \<noteq> y"
    using u short by (auto simp: usable_def)
  obtain t where t: "buffer_destroy x st = Done t" "elems t = (elems st)(x := None)"
    "budget (store t) = budget (store st) + length (elements st this)"
    using destroy_object [OF ok xy(1)] by blast
  obtain h where h: "h_delete (data this) (store st) = Done h" and th: "t = st\<lparr>store := h, buf := (buf st)(x := None)\<rparr>"
    using t(1) xy(1) by (cases "h_delete (data this) (store st)") (auto simp: buffer_destroy_def on_heap_def)
  let ?t = "set_buf x (data this) (bsize other) (st\<lparr>store := h\<rparr>)"
  have "budget h < unat (bsize other)"
    using short xy t(3) object_block(3) [OF ok xy(2)] by (simp add: th elems_Some)
  then have "statement_step (Copy_Assign x y g) st = Thrown ?t"
    using xy h by (simp add: statement_step_def buffer_copy_assign_def new_array_def h_new_def)
  moreover have "elems ?t z = elems st z" if "z \<noteq> x" for z
  proof -
    have "elements ?t = elements t" by (simp add: fun_eq_iff elements_def th cong: option.case_cong)
    then have "elems ?t z = elems t z" using that by (simp add: elems_def th)
    then show ?thesis using that t(2) by simp
  qed
  moreover have "blocks (store ?t) a = None" if "owns st x a" for a
    using h that xy(1) by (auto simp: owns_def h_delete_def split: option.splits)
  ultimately show ?thesis using xy by (intro exI [of _ ?t]) simp
qed

lemma throws_exactly:
  assumes ok: "objects_ok st" and p: "permitted c st"
  shows "statement_step c st = Thrown u \<longleftrightarrow> u = st \<and> budget (store st) < asks c st"
proof -
  have set: "h_write q i v h \<noteq> Thrown w" for q i v and h w :: "i32 heap" by (auto simp: h_write_def split: option.splits)
  have del: "h_delete q h \<noteq> Thrown w" for q and h w :: "i32 heap" by (auto simp: h_delete_def split: option.splits)
  show ?thesis
  proof (cases c)
    case (Copy_Construct x y g)
    then obtain b where b: "buf st y = Some b" using p by (auto simp: permitted_def usable_def)
    then show ?thesis
      using copy_construct_is_new [OF ok b, of x g] Copy_Construct
      by (auto simp: statement_step_def elems_Some h_new_def)
  next
    case (Copy_Assign x y g)
    have "\<exists>t. statement_step c st = Done t" using copy_assign_done [OF ok] p Copy_Assign by blast
    then show ?thesis using Copy_Assign by auto
  next
    case (Move_Assign x y)
    then show ?thesis
      using statement_behaves [OF ok p] del
      by (auto simp: statement_step_def buffer_move_assign_def on_heap_def split: option.splits effect.splits)
  next
    case (Set x i v)
    then show ?thesis
      using set by (auto simp: statement_step_def buffer_set_def on_heap_def split: option.splits effect.splits)
  next
    case (Destroy x)
    then show ?thesis
      using del by (auto simp: statement_step_def buffer_destroy_def on_heap_def split: option.splits effect.splits)
  qed (auto simp: statement_step_def buffer_construct_def new_array_def h_new_def buffer_move_construct_def print_def
      split: option.splits sum.splits)
qed




section \<open>Properties\<close>




text \<open>
  Property C36. Objects are values.  In a state in which every object without an array has size
  zero, every other owns an array of its size, no two the same, and no array is unowned
  (\<open>objects_ok\<close>), take a member that uses existing objects, constructs new ones, and keeps its
  index in range.  If it asks for more memory than there is, which only the two allocating
  constructors can, it throws and nothing has changed.  If it is an assignment by copy to another
  object for which the memory left and that of the old array are not enough, it throws too: the
  values of all other objects are as before, but the target's array is deleted, its pointer is
  still the old one and its size the new one.  Otherwise it is done, keeps \<open>objects_ok\<close>, and has
  the effect on the values of all objects that copying, moving or writing a list has on
  independent variables: a copy is deep, a move leaves the source empty, self-assignment changes
  nothing.
\<close>

theorem buffers_are_values:
  assumes "objects_ok st" and "usable c st"
  shows "if \<not> finds_memory c st
    then \<exists>x y g t. c = Copy_Assign x y g \<and> statement_step c st = Thrown t \<and>
           (\<forall>z. z \<noteq> x \<longrightarrow> elems t z = elems st z) \<and> (\<forall>a. owns st x a \<longrightarrow> blocks (store t) a = None) \<and>
           map_option data (buf t x) = map_option data (buf st x) \<and>
           map_option bsize (buf t x) = map_option bsize (buf st y)
    else if budget (store st) < asks c st then statement_step c st = Thrown st
    else \<exists>t. statement_step c st = Done t \<and> objects_ok t \<and> elems t = value_step c (elems st)"
proof (cases "finds_memory c st")
  case False
  then obtain x y g where "c = Copy_Assign x y g" by (cases c) auto
  with copy_assign_short [OF assms(1), of x y g] assms(2) False show ?thesis by auto
next
  case True
  then have p: "permitted c st" using assms(2) by (simp add: permitted_def)
  from statement_behaves [OF assms(1) p] throws_exactly [OF assms(1) p, of st] True show ?thesis
    by (auto simp: behaves_def)
qed

text \<open>Copy assignments with room for the new array and without.\<close>

theorem buffers_are_values_witness:
  "(\<exists>st t. elems st 1 = Some [1, 7] \<and> statement_step (Copy_Assign 2 1 (\<lambda>i. 7)) st = Done t \<and>
          elems t = (elems st)(2 \<mapsto> [1, 7])) \<and>
   (\<exists>st t. statement_step (Copy_Assign 2 1 (\<lambda>i. 7)) st = Thrown t \<and> owns st 2 1 \<and> blocks (store t) 1 = None)"
proof (intro conjI)
  let ?c = "Copy_Assign 2 1 (\<lambda>i. 7)"
  let ?pre = "[Construct 1 2 (\<lambda>i. 7), Set 1 0 1, Construct 2 3 (\<lambda>i. 7)]"
  have "case execute statement_step ?pre (objects_init 5) of
      Done st \<Rightarrow> elems st 1 = Some [1, 7] \<and> usable ?c st \<and> finds_memory ?c st
    | _ \<Rightarrow> False"
    by code_simp
  then obtain st where st: "execute statement_step ?pre (objects_init 5) = Done st" "elems st 1 = Some [1, 7]"
    "usable ?c st" "finds_memory ?c st"
    by (auto split: effect.splits)
  have "all_permitted permitted statement_step ?pre (objects_init 5)" by code_simp
  with buffers.execute_safe [OF objects_ok_init this] st(1) have "objects_ok st" by auto
  from buffers_are_values [OF this st(3)] st(4)
  obtain t where "statement_step ?c st = Done t" "elems t = value_step ?c (elems st)" by auto
  moreover from this have "elems t = (elems st)(2 \<mapsto> [1, 7])" using st(2) by (simp add: value_step_def)
  ultimately show "\<exists>st t. elems st 1 = Some [1, 7] \<and> statement_step ?c st = Done t \<and> elems t = (elems st)(2 \<mapsto> [1, 7])"
    using st(2) by blast
next
  let ?c = "Copy_Assign 2 1 (\<lambda>i. 7)"
  let ?pre = "[Construct 1 4 (\<lambda>i. 7), Construct 2 2 (\<lambda>i. 7)]"
  have "case execute statement_step ?pre (objects_init 6) of
      Done st \<Rightarrow> map_option data (buf st 2) = Some (Some 1) \<and> usable ?c st \<and> \<not> finds_memory ?c st
    | _ \<Rightarrow> False"
    by code_simp
  then obtain st where st: "execute statement_step ?pre (objects_init 6) = Done st"
    "map_option data (buf st 2) = Some (Some 1)" "usable ?c st" "\<not> finds_memory ?c st"
    by (auto split: effect.splits)
  have "all_permitted permitted statement_step ?pre (objects_init 6)" by code_simp
  with buffers.execute_safe [OF objects_ok_init this] st(1) have "objects_ok st" by auto
  moreover have "owns st 2 1" using st(2) by (auto simp: owns_def)
  ultimately show "\<exists>st t. statement_step ?c st = Thrown t \<and> owns st 2 1 \<and> blocks (store t) 1 = None"
    using buffers_are_values [OF _ st(3)] st(4) by auto
qed

text \<open>
  Property C37. Copy assignment is not exception-safe: it deletes the old array before it
  allocates the new one, so if that throws, the object keeps a pointer to the deleted array, and
  its destructor deletes it again, which is undefined.
\<close>

theorem copy_assign_bad_alloc:
  assumes "objects_ok st" and "x \<noteq> y" and "buf st x = Some this" "data this = Some a" and "buf st y = Some other"
    and "budget (store st) + unat (bsize this) < unat (bsize other)"
  shows "\<exists>t. statement_step (Copy_Assign x y g) st = Thrown t \<and>
             statement_step (Destroy x) t = Undefined Double_Free \<and>
             (0 < unat (bsize this) \<longrightarrow> statement_step (Set x 0 v) t = Undefined Use_After_Free)"
proof -
  have blk: "blocks (store st) a = Some (elements st this)" "length (elements st this) = unat (bsize this)"
    using object_block [OF assms(1,3)] assms(4) by simp_all
  let ?h = "(store st)\<lparr>blocks := (blocks (store st))(a := None), budget := budget (store st) + unat (bsize this)\<rparr>"
  let ?t = "set_buf x (Some a) (bsize other) (st\<lparr>store := ?h\<rparr>)"
  have "h_delete (data this) (store st) = Done ?h" using blk assms(4) by (simp add: h_delete_def)
  then have "statement_step (Copy_Assign x y g) st = Thrown ?t"
    using assms(2-6) by (simp add: statement_step_def buffer_copy_assign_def new_array_def h_new_def)
  moreover have "statement_step (Destroy x) ?t = Undefined Double_Free"
    by (simp add: statement_step_def buffer_destroy_def h_delete_def on_heap_def)
  moreover have "statement_step (Set x 0 v) ?t = Undefined Use_After_Free"
    by (simp add: statement_step_def buffer_set_def h_write_def on_heap_def)
  ultimately show ?thesis by blast
qed

theorem copy_assign_bad_alloc_witness:
  "\<exists>st t. statement_step (Copy_Assign 2 1 (\<lambda>i. 7)) st = Thrown t \<and>
          statement_step (Destroy 2) t = Undefined Double_Free"
proof -
  let ?pre = "[Construct 1 4 (\<lambda>i. 7), Construct 2 2 (\<lambda>i. 7)]"
  have "case execute statement_step ?pre (objects_init 6) of
      Done st \<Rightarrow> buf st 2 = Some \<lparr>data = Some 1, bsize = 2\<rparr> \<and> buf st 1 = Some \<lparr>data = Some 0, bsize = 4\<rparr> \<and>
        budget (store st) = 0
    | _ \<Rightarrow> False"
    by code_simp
  then obtain st where st: "execute statement_step ?pre (objects_init 6) = Done st"
    "buf st 2 = Some \<lparr>data = Some 1, bsize = 2\<rparr>" "buf st 1 = Some \<lparr>data = Some 0, bsize = 4\<rparr>"
    "budget (store st) = 0"
    by (auto split: effect.splits)
  have "all_permitted permitted statement_step ?pre (objects_init 6)" by code_simp
  with buffers.execute_safe [OF objects_ok_init this] st(1) have "objects_ok st" by auto
  from copy_assign_bad_alloc [OF this _ st(2) _ st(3), of 1 "\<lambda>i. 7" 0] st(4) show ?thesis by auto
qed

text \<open>
  \<open>main\<close> prints what it should, whatever the new arrays contain, and leaves no
  array behind: thirteen elements of memory are enough, and all are back at the end.
\<close>

theorem move_main_output:
  "case execute statement_step (move_main g) (objects_init 13) of
     Done t \<Rightarrow> out t = [Size 4, Element 1, Differs True, Element 2, Differs True, Null_Data False,
                       Null_Data True, Size 0, Element 1, Null_Data True, Size 0] \<and>
               budget (store t) = 13
   | _ \<Rightarrow> False"
  by code_simp

end
