(* ===== verification/Unique_Ptr.thy ===== *)
theory Unique_Ptr
  imports Cxx_Heap
begin

text \<open>
  \<open>experiments/unique_ptr.cpp\<close>: a pointer that owns what it points to.  Owners are known by
  their addresses (numbers), so \<open>this != &other\<close> compares names; an owned \<open>T\<close> is a block of one
  element on the heap of \<open>Cxx_Heap\<close>.  \<open>raws\<close> are the raw pointers the program has obtained from
  \<open>new\<close> or \<open>release\<close> and not given to an owner: what it must delete itself.
\<close>

section \<open>The members\<close>

record Point =
  px :: i32
  py :: i32

text \<open>What \<open>main\<close> lets its owners own, and what it prints of them.\<close>

datatype object = Number i32 | A_Point Point

datatype 'T shown = Value 'T | Null bool

record 'T owners =
  mem :: "'T heap"
  ptr :: "nat \<Rightarrow> pointer option"
  raws :: "address list"
  shown :: "'T shown list"

definition owners_init :: "nat \<Rightarrow> 'T owners" where
  "owners_init n = \<lparr>mem = heap_init n, ptr = (\<lambda>_. None), raws = [], shown = []\<rparr>"

definition on_mem :: "'T heap effect \<Rightarrow> 'T owners \<Rightarrow> 'T owners effect" where
  "on_mem r s =
     (case r of Done h \<Rightarrow> Done (s\<lparr>mem := h\<rparr>) | Thrown h \<Rightarrow> Thrown (s\<lparr>mem := h\<rparr>)
              | Undefined e \<Rightarrow> Undefined e)"

definition set_ptr :: "nat \<Rightarrow> pointer \<Rightarrow> 'T owners \<Rightarrow> 'T owners" where
  "set_ptr x p s = s\<lparr>ptr := (ptr s)(x \<mapsto> p)\<rparr>"

text \<open>\<open>new T(v)\<close>, a raw pointer.\<close>

definition new_raw :: "'T \<Rightarrow> 'T owners \<Rightarrow> (address \<times> 'T owners) option" where
  "new_raw v s =
     (case h_new [v] (mem s) of None \<Rightarrow> None | Some (a, h) \<Rightarrow> Some (a, s\<lparr>mem := h, raws := a # raws s\<rparr>))"

text \<open>A raw pointer passed to an owner is no longer the program's to delete.\<close>

definition give :: "pointer \<Rightarrow> 'T owners \<Rightarrow> 'T owners" where
  "give p s = (case p of None \<Rightarrow> s | Some a \<Rightarrow> s\<lparr>raws := remove1 a (raws s)\<rparr>)"

definition unique_construct :: "nat \<Rightarrow> pointer \<Rightarrow> 'T owners \<Rightarrow> 'T owners effect" where
  "unique_construct x p s = Done (set_ptr x p (give p s))"

definition unique_destroy :: "nat \<Rightarrow> 'T owners \<Rightarrow> 'T owners effect" where
  "unique_destroy x s =
     (case ptr s x of
        None \<Rightarrow> Undefined No_Object
      | Some p \<Rightarrow> and_then (on_mem (h_delete p (mem s)) s) (\<lambda>s. Done (s\<lparr>ptr := (ptr s)(x := None)\<rparr>)))"

definition unique_move_construct :: "nat \<Rightarrow> nat \<Rightarrow> 'T owners \<Rightarrow> 'T owners effect" where
  "unique_move_construct x y s =
     (case ptr s y of
        None \<Rightarrow> Undefined No_Object
      | Some p \<Rightarrow> Done (set_ptr y None (set_ptr x p s)))"

definition unique_move_assign :: "nat \<Rightarrow> nat \<Rightarrow> 'T owners \<Rightarrow> 'T owners effect" where
  "unique_move_assign x y s =
     (case (ptr s x, ptr s y) of
        (Some p, Some q) \<Rightarrow>
          if x \<noteq> y
          then and_then (on_mem (h_delete p (mem s)) s) (\<lambda>s. Done (set_ptr y None (set_ptr x q s)))
          else Done s
      | _ \<Rightarrow> Undefined No_Object)"

definition unique_get :: "nat \<Rightarrow> 'T owners \<Rightarrow> undefined_behaviour + pointer" where
  "unique_get x s = (case ptr s x of None \<Rightarrow> Inl No_Object | Some p \<Rightarrow> Inr p)"

text \<open>\<open>release\<close>: the caller has the pointer now.\<close>

definition unique_release :: "nat \<Rightarrow> 'T owners \<Rightarrow> 'T owners effect" where
  "unique_release x s =
     (case ptr s x of
        None \<Rightarrow> Undefined No_Object
      | Some p \<Rightarrow>
          Done (set_ptr x None (case p of None \<Rightarrow> s | Some a \<Rightarrow> s\<lparr>raws := a # raws s\<rparr>)))"

definition unique_reset :: "nat \<Rightarrow> pointer \<Rightarrow> 'T owners \<Rightarrow> 'T owners effect" where
  "unique_reset x p s =
     (case ptr s x of
        None \<Rightarrow> Undefined No_Object
      | Some old \<Rightarrow> and_then (on_mem (h_delete old (mem s)) s) (\<lambda>s. Done (set_ptr x p (give p s))))"

text \<open>\<open>*p\<close> and \<open>p->\<close>.\<close>

definition unique_deref :: "nat \<Rightarrow> 'T owners \<Rightarrow> undefined_behaviour + 'T" where
  "unique_deref x s = (case ptr s x of None \<Rightarrow> Inl No_Object | Some p \<Rightarrow> h_read p 0 (mem s))"

definition make_unique :: "nat \<Rightarrow> 'T \<Rightarrow> 'T owners \<Rightarrow> 'T owners effect" where
  "make_unique x v s =
     (case new_raw v s of None \<Rightarrow> Thrown s | Some (a, s) \<Rightarrow> unique_construct x (Some a) s)"

section \<open>Statements\<close>

text \<open>
  A program that passes to owners only pointers it has: \<open>k\<close> is the position of a raw pointer
  among \<open>raws\<close>.  \<open>Reset\<close> without a pointer is the default argument.
\<close>

datatype 'T owner_statement =
    New 'T | Construct nat nat | Make nat 'T | Destroy nat | Move_Construct nat nat | Move_Assign nat nat
  | Release nat | Reset nat | Reset_Raw nat nat | Print_Value nat | Print_Null nat | Print_Raw nat

definition show_value :: "undefined_behaviour + 'T \<Rightarrow> 'T owners \<Rightarrow> 'T owners effect" where
  "show_value r s =
     (case r of Inl e \<Rightarrow> Undefined e | Inr v \<Rightarrow> Done (s\<lparr>shown := shown s @ [Value v]\<rparr>))"

definition owner_step :: "'T owner_statement \<Rightarrow> 'T owners \<Rightarrow> 'T owners effect" where
  "owner_step c s =
     (case c of
        New v \<Rightarrow> (case new_raw v s of None \<Rightarrow> Thrown s | Some (a, s) \<Rightarrow> Done s)
      | Construct x k \<Rightarrow> unique_construct x (Some (raws s ! k)) s
      | Make x v \<Rightarrow> make_unique x v s
      | Destroy x \<Rightarrow> unique_destroy x s
      | Move_Construct x y \<Rightarrow> unique_move_construct x y s
      | Move_Assign x y \<Rightarrow> unique_move_assign x y s
      | Release x \<Rightarrow> unique_release x s
      | Reset x \<Rightarrow> unique_reset x None s
      | Reset_Raw x k \<Rightarrow> unique_reset x (Some (raws s ! k)) s
      | Print_Value x \<Rightarrow> show_value (unique_deref x s) s
      | Print_Null x \<Rightarrow>
          (case unique_get x s of
             Inl e \<Rightarrow> Undefined e
           | Inr p \<Rightarrow> Done (s\<lparr>shown := shown s @ [Null (p = None)]\<rparr>))
      | Print_Raw k \<Rightarrow> show_value (h_read (Some (raws s ! k)) 0 (mem s)) s)"

text \<open>
  \<open>main\<close>, with the destructors at its end: the owners 1 to 3 are \<open>ptr_x\<close>, \<open>ptr_y\<close> and \<open>ptr_z\<close>,
  4 and 5 \<open>point_ptr\<close> and \<open>point_ptr_unique\<close>.  Addresses, which it prints too, are left out.
\<close>

definition unique_main :: "object owner_statement list" where
  "unique_main =
     [New (Number 5), Construct 1 0, Print_Value 1,
      Move_Construct 2 1, Print_Value 2, Print_Null 1,
      Move_Assign 1 2, Print_Value 1, Print_Null 2,
      Release 1, Print_Raw 0,
      New (Number 10), Construct 3 0, Reset 3, Print_Null 3,
      New (A_Point \<lparr>px = 1, py = 2\<rparr>), Construct 4 0, Print_Value 4,
      Make 5 (A_Point \<lparr>px = 1, py = 2\<rparr>), Print_Value 5,
      Destroy 5, Destroy 4, Destroy 3, Destroy 2, Destroy 1]"

text \<open>
  Where a statement may stand: owners it uses exist, those it constructs do not, the raw pointers
  it names are the program's, and what it prints is there.
\<close>

definition may_stand :: "'T owner_statement \<Rightarrow> 'T owners \<Rightarrow> bool" where
  "may_stand c s =
     (case c of
        New v \<Rightarrow> True
      | Construct x k \<Rightarrow> ptr s x = None \<and> k < length (raws s)
      | Make x v \<Rightarrow> ptr s x = None
      | Destroy x \<Rightarrow> ptr s x \<noteq> None
      | Move_Construct x y \<Rightarrow> ptr s x = None \<and> ptr s y \<noteq> None
      | Move_Assign x y \<Rightarrow> ptr s x \<noteq> None \<and> ptr s y \<noteq> None
      | Release x \<Rightarrow> ptr s x \<noteq> None
      | Reset x \<Rightarrow> ptr s x \<noteq> None
      | Reset_Raw x k \<Rightarrow> ptr s x \<noteq> None \<and> k < length (raws s)
      | Print_Value x \<Rightarrow> (case ptr s x of Some (Some a) \<Rightarrow> True | _ \<Rightarrow> False)
      | Print_Null x \<Rightarrow> ptr s x \<noteq> None
      | Print_Raw k \<Rightarrow> k < length (raws s))"

section \<open>Ownership\<close>

definition owned_by :: "'T owners \<Rightarrow> nat \<Rightarrow> address \<Rightarrow> bool" where
  "owned_by s x a \<longleftrightarrow> ptr s x = Some (Some a)"

text \<open>
  Every owned and every raw pointer is to a block of one element, all are different, and every
  block is owned or raw.
\<close>

definition owners_ok :: "'T owners \<Rightarrow> bool" where
  "owners_ok s \<longleftrightarrow>
     heap_ok (mem s) \<and> distinct (raws s) \<and>
     (\<forall>x a. owned_by s x a \<longrightarrow> a \<notin> set (raws s)) \<and>
     (\<forall>x y a. owned_by s x a \<longrightarrow> owned_by s y a \<longrightarrow> x = y) \<and>
     (\<forall>a. a \<in> set (raws s) \<or> (\<exists>x. owned_by s x a) \<longrightarrow> (\<exists>v. blocks (mem s) a = Some [v])) \<and>
     (\<forall>a. blocks (mem s) a \<noteq> None \<longrightarrow> a \<in> set (raws s) \<or> (\<exists>x. owned_by s x a))"

text \<open>What an owner owns, if it exists (outer option) and is not empty (inner option).\<close>

definition pointee :: "'T owners \<Rightarrow> address \<Rightarrow> 'T" where
  "pointee s a = hd (the (blocks (mem s) a))"

definition owned :: "'T owners \<Rightarrow> nat \<Rightarrow> 'T option option" where
  "owned s x = map_option (map_option (pointee s)) (ptr s x)"

definition raw_values :: "'T owners \<Rightarrow> 'T list" where
  "raw_values s = map (pointee s) (raws s)"

lemma owners_okD:
  assumes "owners_ok s"
  shows "heap_ok (mem s)" "distinct (raws s)" "owned_by s x a \<Longrightarrow> a \<notin> set (raws s)"
    "owned_by s x a \<Longrightarrow> owned_by s y a \<Longrightarrow> x = y"
    "a \<in> set (raws s) \<Longrightarrow> blocks (mem s) a = Some [pointee s a]"
    "owned_by s x a \<Longrightarrow> blocks (mem s) a = Some [pointee s a]"
    "blocks (mem s) a \<noteq> None \<Longrightarrow> a \<in> set (raws s) \<or> (\<exists>x. owned_by s x a)"
proof -
  have "\<exists>v. blocks (mem s) a = Some [v]" if "a \<in> set (raws s) \<or> (\<exists>x. owned_by s x a)" for a
    using that assms unfolding owners_ok_def by blast
  then show "a \<in> set (raws s) \<Longrightarrow> blocks (mem s) a = Some [pointee s a]"
    "owned_by s x a \<Longrightarrow> blocks (mem s) a = Some [pointee s a]"
    unfolding pointee_def by (metis list.sel(1) option.sel)+
qed (use assms in \<open>unfold owners_ok_def; blast\<close>)+

lemma owners_ok_init: "owners_ok (owners_init n)"
  by (simp add: owners_ok_def owners_init_def heap_ok_init owned_by_def) (simp add: heap_init_def)

lemma set_ptr_simps [simp]:
  "mem (set_ptr x p s) = mem s" "ptr (set_ptr x p s) = (ptr s)(x \<mapsto> p)" "raws (set_ptr x p s) = raws s"
  "shown (set_ptr x p s) = shown s"
  by (simp_all add: set_ptr_def)

lemma give_simps [simp]:
  "mem (give p s) = mem s" "ptr (give p s) = ptr s" "shown (give p s) = shown s" "give None s = s"
  by (cases p; simp add: give_def)+

lemma remove1_nth: "distinct xs \<Longrightarrow> k < length xs \<Longrightarrow> remove1 (xs ! k) xs = take k xs @ drop (Suc k) xs"
proof (induction xs arbitrary: k)
  case (Cons x xs)
  then show ?case by (cases k) auto
qed simp

text \<open>The owner gives up what it owns: the block is deleted and the owner is empty.\<close>

lemma delete_owned:
  assumes ok: "owners_ok s" and x: "ptr s x = Some p"
  shows "\<exists>h. h_delete p (mem s) = Done h \<and> owners_ok (set_ptr x None (s\<lparr>mem := h\<rparr>)) \<and>
             owned (set_ptr x None (s\<lparr>mem := h\<rparr>)) = (owned s)(x \<mapsto> None) \<and>
             raw_values (set_ptr x None (s\<lparr>mem := h\<rparr>)) = raw_values s"
proof (cases p)
  case None
  have "set_ptr x None (s\<lparr>mem := mem s\<rparr>) = s" using x None by (simp add: set_ptr_def fun_upd_idem)
  moreover have "(owned s)(x \<mapsto> None) = owned s" using x None by (simp add: owned_def fun_upd_idem)
  ultimately show ?thesis using ok None by (simp add: h_delete_def)
next
  case (Some a)
  let ?h = "(mem s)\<lparr>blocks := (blocks (mem s))(a := None), budget := budget (mem s) + 1\<rparr>"
  let ?t = "set_ptr x None (s\<lparr>mem := ?h\<rparr>)"
  have a: "owned_by s x a" using x Some by (simp add: owned_by_def)
  note blk = owners_okD(6) [OF ok a]
  have del: "h_delete p (mem s) = Done ?h" using blk Some by (simp add: h_delete_def)
  have t: "owned_by ?t y b \<longleftrightarrow> y \<noteq> x \<and> owned_by s y b" "raws ?t = raws s" for y b
    by (auto simp: owned_by_def set_ptr_def)
  have old: "b \<noteq> a" if "b \<in> set (raws s) \<or> (\<exists>y. y \<noteq> x \<and> owned_by s y b)" for b
    using that owners_okD(3) [OF ok a] owners_okD(4) [OF ok a] by blast
  have bl: "blocks (mem ?t) = (blocks (mem s))(a := None)" by (simp add: set_ptr_def)
  have "owners_ok ?t"
    unfolding owners_ok_def t
  proof (intro conjI allI impI)
    show "heap_ok (mem ?t)" using h_delete_ok [OF owners_okD(1) [OF ok] del] by (simp add: set_ptr_def)
    show "distinct (raws s)" by (rule owners_okD(2) [OF ok])
    show "b \<notin> set (raws s)" if "y \<noteq> x \<and> owned_by s y b" for y b using that owners_okD(3) [OF ok] by blast
    show "y = z" if "y \<noteq> x \<and> owned_by s y b" "z \<noteq> x \<and> owned_by s z b" for y z b
      using that owners_okD(4) [OF ok] by blast
    show "\<exists>v. blocks (mem ?t) b = Some [v]" if b: "b \<in> set (raws s) \<or> (\<exists>y. y \<noteq> x \<and> owned_by s y b)" for b
    proof -
      have "blocks (mem s) b = Some [pointee s b]" using b owners_okD(5,6) [OF ok] by blast
      then show ?thesis using old [OF b] by simp
    qed
    show "b \<in> set (raws s) \<or> (\<exists>y. y \<noteq> x \<and> owned_by s y b)" if b: "blocks (mem ?t) b \<noteq> None" for b
    proof -
      have "b \<noteq> a" "blocks (mem s) b \<noteq> None" using b by (auto simp: bl split: if_splits)
      moreover have "\<not> owned_by s x b" using x Some calculation(1) by (simp add: owned_by_def)
      ultimately show ?thesis using owners_okD(7) [OF ok, of b] by auto
    qed
  qed
  moreover have val: "pointee ?t b = pointee s b" if "b \<noteq> a" for b using that by (simp add: pointee_def bl)
  have "owned ?t y = ((owned s)(x \<mapsto> None)) y" for y
  proof (cases "y = x")
    case False
    have "map_option (pointee ?t) q = map_option (pointee s) q" if "ptr s y = Some q" for q
      using that val old False by (cases q) (auto simp: owned_by_def)
    then show ?thesis using False by (cases "ptr s y") (simp_all add: owned_def set_ptr_def)
  qed (simp add: owned_def set_ptr_def)
  moreover have "raw_values ?t = raw_values s" using val old by (simp add: raw_values_def t)
  ultimately show ?thesis using del by blast
qed

text \<open>A new block, which the program has a raw pointer to.\<close>

lemma new_raw_ok:
  assumes ok: "owners_ok s" and new: "new_raw v s = Some (a, t)"
  shows "owners_ok t" "owned t = owned s" "raw_values t = v # raw_values s" "raws t = a # raws s" "ptr t = ptr s"
proof -
  have a: "a = fresh (mem s)" and t: "raws t = a # raws s" "ptr t = ptr s" "blocks (mem t) = (blocks (mem s))(a \<mapsto> [v])"
    and h: "h_new [v] (mem s) = Some (a, mem t)"
    using new by (auto simp: new_raw_def h_new_def split: if_splits)
  have own: "owned_by t x b = owned_by s x b" for x b by (simp add: owned_by_def t)
  have no: "blocks (mem s) a = None" using fresh_free [OF owners_okD(1) [OF ok]] a by simp
  have old: "b \<noteq> a" if "b \<in> set (raws s) \<or> (\<exists>x. owned_by s x b)" for b
  proof
    assume "b = a"
    then have "blocks (mem s) a = Some [pointee s a]" using that owners_okD(5,6) [OF ok] by blast
    then show False using no by simp
  qed
  show "owners_ok t"
    unfolding owners_ok_def own
  proof (intro conjI allI impI)
    show "heap_ok (mem t)" by (rule h_new_ok [OF owners_okD(1) [OF ok] h])
    show "distinct (raws t)" using owners_okD(2) [OF ok] old by (auto simp: t)
    show "b \<notin> set (raws t)" if "owned_by s x b" for x b using that owners_okD(3) [OF ok that] old by (auto simp: t)
    show "x = y" if "owned_by s x b" "owned_by s y b" for x y b using that owners_okD(4) [OF ok] by blast
    show "\<exists>w. blocks (mem t) b = Some [w]" if b: "b \<in> set (raws t) \<or> (\<exists>x. owned_by s x b)" for b
    proof (cases "b = a")
      case False
      then have "blocks (mem s) b = Some [pointee s b]" using b owners_okD(5,6) [OF ok] by (auto simp: t)
      then show ?thesis using False by (simp add: t)
    qed (simp add: t)
    show "b \<in> set (raws t) \<or> (\<exists>x. owned_by s x b)" if "blocks (mem t) b \<noteq> None" for b
    proof (cases "b = a")
      case False
      then have "blocks (mem s) b \<noteq> None" using that by (simp add: t)
      then show ?thesis using owners_okD(7) [OF ok] by (auto simp: t)
    qed (simp add: t)
  qed
  have val: "pointee t b = pointee s b" if "b \<noteq> a" for b using that by (simp add: pointee_def t)
  show "owned t = owned s"
  proof
    fix x
    have "map_option (pointee t) q = map_option (pointee s) q" if "ptr s x = Some q" for q
      using that val old by (cases q) (auto simp: owned_by_def)
    then show "owned t x = owned s x" by (cases "ptr s x") (simp_all add: owned_def t)
  qed
  have "pointee t a = v" by (simp add: pointee_def t)
  then show "raw_values t = v # raw_values s" using val old by (simp add: raw_values_def t)
qed (use new in \<open>auto simp: new_raw_def split: option.splits\<close>)

text \<open>A raw pointer goes to an owner that is new or empty.\<close>

lemma give_ok:
  assumes ok: "owners_ok s" and x: "ptr s x = None \<or> ptr s x = Some None" and k: "k < length (raws s)"
  shows "owners_ok (set_ptr x (Some (raws s ! k)) (give (Some (raws s ! k)) s))" (is "owners_ok ?t")
    and "owned (set_ptr x (Some (raws s ! k)) (give (Some (raws s ! k)) s)) = (owned s)(x \<mapsto> Some (raw_values s ! k))"
    and "raw_values (set_ptr x (Some (raws s ! k)) (give (Some (raws s ! k)) s)) =
           take k (raw_values s) @ drop (Suc k) (raw_values s)"
proof -
  let ?a = "raws s ! k"
  have t: "mem ?t = mem s" "raws ?t = remove1 ?a (raws s)" by (simp_all add: give_def)
  have g: "raws (give (Some ?a) s) = remove1 ?a (raws s)" by (simp add: give_def)
  have own: "owned_by ?t y b \<longleftrightarrow> (if y = x then b = ?a else owned_by s y b)" for y b
    by (auto simp: owned_by_def give_def)
  have a: "?a \<in> set (raws s)" using k by simp
  have rest: "set (remove1 ?a (raws s)) = set (raws s) - {?a}" using owners_okD(2) [OF ok] by simp
  have nx: "\<not> owned_by s x b" for b using x by (auto simp: owned_by_def)
  have free: "\<not> owned_by s y ?a" for y using owners_okD(3) [OF ok] a by blast
  have same: "b \<in> set (raws ?t) \<or> (\<exists>y. owned_by ?t y b) \<longleftrightarrow> b \<in> set (raws s) \<or> (\<exists>y. owned_by s y b)" for b
  proof
    assume "b \<in> set (raws s) \<or> (\<exists>y. owned_by s y b)"
    then consider "b = ?a" | "b \<in> set (raws s) - {?a}" | y where "owned_by s y b" "y \<noteq> x" using nx by blast
    then show "b \<in> set (raws ?t) \<or> (\<exists>y. owned_by ?t y b)"
      by cases (use own rest in \<open>auto simp: g\<close>)
  qed (use a rest own in \<open>auto simp: g split: if_splits\<close>)
  show "owners_ok ?t"
    unfolding owners_ok_def same unfolding t own
  proof (intro conjI allI impI)
    show "heap_ok (mem s)" by (rule owners_okD(1) [OF ok])
    show "distinct (remove1 ?a (raws s))" using owners_okD(2) [OF ok] by simp
    show "b \<notin> set (remove1 ?a (raws s))" if "if y = x then b = ?a else owned_by s y b" for y b
      using that rest owners_okD(3) [OF ok, of y b] by (auto split: if_splits)
    show "y = z" if "if y = x then b = ?a else owned_by s y b" "if z = x then b = ?a else owned_by s z b" for y z b
      using that free owners_okD(4) [OF ok, of y b z] by (auto split: if_splits)
    show "\<exists>v. blocks (mem s) b = Some [v]" if "b \<in> set (raws s) \<or> (\<exists>y. owned_by s y b)" for b
      using that owners_okD(5,6) [OF ok] by blast
    show "b \<in> set (raws s) \<or> (\<exists>y. owned_by s y b)" if "blocks (mem s) b \<noteq> None" for b
      using that owners_okD(7) [OF ok] by blast
  qed
  have val: "pointee ?t = pointee s" by (simp add: fun_eq_iff pointee_def t)
  show "owned ?t = (owned s)(x \<mapsto> Some (raw_values s ! k))"
    using k by (simp add: fun_eq_iff owned_def val raw_values_def)
  show "raw_values ?t = take k (raw_values s) @ drop (Suc k) (raw_values s)"
    unfolding raw_values_def val t remove1_nth [OF owners_okD(2) [OF ok] k] by (simp add: take_map drop_map)
qed

text \<open>
  The pointers change hands but none is lost, found or shared: from an owner to an empty one, to
  the program, or an empty owner goes.
\<close>

lemma rearrange_ok:
  assumes ok: "owners_ok s" and mem: "mem t = mem s"
    and all: "\<And>b. b \<in> set (raws t) \<or> (\<exists>y. owned_by t y b) \<longleftrightarrow> b \<in> set (raws s) \<or> (\<exists>y. owned_by s y b)"
    and one: "distinct (raws t)" "\<And>y b. owned_by t y b \<Longrightarrow> b \<notin> set (raws t)"
      "\<And>y z b. owned_by t y b \<Longrightarrow> owned_by t z b \<Longrightarrow> y = z"
  shows "owners_ok t"
  unfolding owners_ok_def all mem
proof (intro conjI allI impI)
  show "heap_ok (mem s)" by (rule owners_okD(1) [OF ok])
  show "\<exists>v. blocks (mem s) b = Some [v]" if "b \<in> set (raws s) \<or> (\<exists>y. owned_by s y b)" for b
    using that owners_okD(5,6) [OF ok] by blast
  show "b \<in> set (raws s) \<or> (\<exists>y. owned_by s y b)" if "blocks (mem s) b \<noteq> None" for b
    using that owners_okD(7) [OF ok] by blast
qed (use one in blast)+

lemma pointee_mem: "mem t = mem s \<Longrightarrow> pointee t = pointee s"
  by (simp add: fun_eq_iff pointee_def)

lemma move_ok:
  assumes ok: "owners_ok s" and x: "ptr s x = None \<or> ptr s x = Some None" and y: "ptr s y = Some p" and xy: "x \<noteq> y"
  shows "owners_ok (set_ptr y None (set_ptr x p s))"
    and "owned (set_ptr y None (set_ptr x p s)) = (owned s)(x := owned s y, y \<mapsto> None)"
    and "raw_values (set_ptr y None (set_ptr x p s)) = raw_values s"
proof -
  let ?t = "set_ptr y None (set_ptr x p s)"
  have own: "owned_by ?t z b \<longleftrightarrow> z \<noteq> y \<and> owned_by s (if z = x then y else z) b" for z b
    using y by (auto simp: owned_by_def)
  have nx: "\<not> owned_by s x b" for b using x by (auto simp: owned_by_def)
  show "owners_ok ?t"
  proof (rule rearrange_ok [OF ok])
    show "b \<in> set (raws ?t) \<or> (\<exists>z. owned_by ?t z b) \<longleftrightarrow> b \<in> set (raws s) \<or> (\<exists>z. owned_by s z b)" for b
      unfolding own using xy nx [of b] by (simp add: set_ptr_def) metis
    show "b \<notin> set (raws ?t)" if "owned_by ?t z b" for z b
      using that owners_okD(3) [OF ok, of "if z = x then y else z" b] unfolding own by simp
    show "z = w" if "owned_by ?t z b" "owned_by ?t w b" for z w b
      using that owners_okD(4) [OF ok, of _ b] unfolding own by (auto split: if_splits)
  qed (use owners_okD(2) [OF ok] in simp_all)
  show "owned ?t = (owned s)(x := owned s y, y \<mapsto> None)"
    using y xy by (auto simp: fun_eq_iff owned_def pointee_mem [of ?t s])
  show "raw_values ?t = raw_values s" by (simp add: raw_values_def pointee_mem [of ?t s])
qed

lemma release_ok:
  assumes ok: "owners_ok s" and x: "ptr s x = Some (Some a)"
  shows "owners_ok (set_ptr x None (s\<lparr>raws := a # raws s\<rparr>))"
    and "owned (set_ptr x None (s\<lparr>raws := a # raws s\<rparr>)) = (owned s)(x \<mapsto> None)"
    and "raw_values (set_ptr x None (s\<lparr>raws := a # raws s\<rparr>)) = pointee s a # raw_values s"
proof -
  let ?t = "set_ptr x None (s\<lparr>raws := a # raws s\<rparr>)"
  have own: "owned_by ?t y b \<longleftrightarrow> y \<noteq> x \<and> owned_by s y b" for y b by (auto simp: owned_by_def)
  have a: "owned_by s x a" using x by (simp add: owned_by_def)
  have only: "b = a" if "owned_by s x b" for b using that x by (simp add: owned_by_def)
  show "owners_ok ?t"
  proof (rule rearrange_ok [OF ok])
    show "b \<in> set (raws ?t) \<or> (\<exists>y. owned_by ?t y b) \<longleftrightarrow> b \<in> set (raws s) \<or> (\<exists>y. owned_by s y b)" for b
    proof (cases "b = a")
      case True
      then show ?thesis using a by auto
    next
      case False
      then have "\<not> owned_by s x b" using only by blast
      then show ?thesis using False unfolding own by auto
    qed
    show "distinct (raws ?t)" using owners_okD(2) [OF ok] owners_okD(3) [OF ok a] by simp
    show "b \<notin> set (raws ?t)" if "owned_by ?t y b" for y b
      using that owners_okD(3) [OF ok, of y b] owners_okD(4) [OF ok a, of y] unfolding own by auto
    show "y = z" if "owned_by ?t y b" "owned_by ?t z b" for y z b
      using that owners_okD(4) [OF ok, of y b z] unfolding own by blast
  qed simp
  show "owned ?t = (owned s)(x \<mapsto> None)" by (auto simp: fun_eq_iff owned_def pointee_mem [of ?t s])
  show "raw_values ?t = pointee s a # raw_values s" by (simp add: raw_values_def pointee_mem [of ?t s])
qed

lemma drop_empty_ok:
  assumes ok: "owners_ok s" and x: "ptr s x = Some None"
  shows "owners_ok (s\<lparr>ptr := (ptr s)(x := None)\<rparr>)"
    and "owned (s\<lparr>ptr := (ptr s)(x := None)\<rparr>) = (owned s)(x := None)"
    and "raw_values (s\<lparr>ptr := (ptr s)(x := None)\<rparr>) = raw_values s"
proof -
  let ?t = "s\<lparr>ptr := (ptr s)(x := None)\<rparr>"
  have own: "owned_by ?t = owned_by s" using x by (auto simp: fun_eq_iff owned_by_def)
  show "owners_ok ?t"
    by (rule rearrange_ok [OF ok]) (use owners_okD(2-4) [OF ok] in \<open>auto simp: own\<close>)
  show "owned ?t = (owned s)(x := None)" by (auto simp: fun_eq_iff owned_def pointee_mem [of ?t s])
  show "raw_values ?t = raw_values s" by (simp add: raw_values_def pointee_mem [of ?t s])
qed

section \<open>Owners as values\<close>

text \<open>
  Without pointers: each owner holds a value or nothing, the program holds values it must delete,
  and values move between them.
\<close>

type_synonym 'T ownership = "(nat \<Rightarrow> 'T option option) \<times> 'T list \<times> 'T shown list"

definition ownership :: "'T owners \<Rightarrow> 'T ownership" where
  "ownership s = (owned s, raw_values s, shown s)"

definition without :: "nat \<Rightarrow> 'a list \<Rightarrow> 'a list" where
  "without k xs = take k xs @ drop (Suc k) xs"

definition ownership_step :: "'T owner_statement \<Rightarrow> 'T ownership \<Rightarrow> 'T ownership" where
  "ownership_step c = (\<lambda>(V, R, P).
     (case c of
        New v \<Rightarrow> (V, v # R, P)
      | Construct x k \<Rightarrow> (V(x \<mapsto> Some (R ! k)), without k R, P)
      | Make x v \<Rightarrow> (V(x \<mapsto> Some v), R, P)
      | Destroy x \<Rightarrow> (V(x := None), R, P)
      | Move_Construct x y \<Rightarrow> (V(x := V y, y \<mapsto> None), R, P)
      | Move_Assign x y \<Rightarrow> (if x = y then V else V(x := V y, y \<mapsto> None), R, P)
      | Release x \<Rightarrow> (V(x \<mapsto> None), (case the (V x) of None \<Rightarrow> R | Some v \<Rightarrow> v # R), P)
      | Reset x \<Rightarrow> (V(x \<mapsto> None), R, P)
      | Reset_Raw x k \<Rightarrow> (V(x \<mapsto> Some (R ! k)), without k R, P)
      | Print_Value x \<Rightarrow> (V, R, P @ [Value (the (the (V x)))])
      | Print_Null x \<Rightarrow> (V, R, P @ [Null (the (V x) = None)])
      | Print_Raw k \<Rightarrow> (V, R, P @ [Value (R ! k)])))"

text \<open>A statement has its meaning, or \<open>new\<close> has thrown and nothing has happened.\<close>

definition owner_behaves :: "'T owner_statement \<Rightarrow> 'T owners \<Rightarrow> bool" where
  "owner_behaves c s \<longleftrightarrow>
     (\<exists>t. owner_step c s = Done t \<and> owners_ok t \<and> ownership t = ownership_step c (ownership s)) \<or>
     owner_step c s = Thrown s"

lemma on_mem_Done [simp]: "on_mem (Done h) s = Done (s\<lparr>mem := h\<rparr>)"
  by (simp add: on_mem_def)

lemma shown_more [simp]:
  "owners_ok s \<Longrightarrow> owners_ok (s\<lparr>shown := ps\<rparr>)" "owned (s\<lparr>shown := ps\<rparr>) = owned s"
  "raw_values (s\<lparr>shown := ps\<rparr>) = raw_values s"
proof -
  have own: "owned_by (s\<lparr>shown := ps\<rparr>) = owned_by s" by (simp add: fun_eq_iff owned_by_def)
  show "owners_ok s \<Longrightarrow> owners_ok (s\<lparr>shown := ps\<rparr>)" by (simp add: owners_ok_def own)
  have val: "pointee (s\<lparr>shown := ps\<rparr>) = pointee s" by (rule pointee_mem) simp
  show "owned (s\<lparr>shown := ps\<rparr>) = owned s" by (simp add: fun_eq_iff owned_def val)
  show "raw_values (s\<lparr>shown := ps\<rparr>) = raw_values s" by (simp add: raw_values_def val)
qed

text \<open>After the deletion an owner takes another pointer, or none, or goes.\<close>

lemma delete_then:
  assumes "owners_ok s" and "ptr s x = Some p"
  obtains h where "h_delete p (mem s) = Done h"
    "owners_ok (set_ptr x None (s\<lparr>mem := h\<rparr>))" "ptr (set_ptr x None (s\<lparr>mem := h\<rparr>)) x = Some None"
    "owned (set_ptr x None (s\<lparr>mem := h\<rparr>)) = (owned s)(x \<mapsto> None)"
    "raw_values (set_ptr x None (s\<lparr>mem := h\<rparr>)) = raw_values s"
proof -
  obtain h where "h_delete p (mem s) = Done h" "owners_ok (set_ptr x None (s\<lparr>mem := h\<rparr>))"
    "owned (set_ptr x None (s\<lparr>mem := h\<rparr>)) = (owned s)(x \<mapsto> None)"
    "raw_values (set_ptr x None (s\<lparr>mem := h\<rparr>)) = raw_values s"
    using delete_owned [OF assms] by blast
  moreover have "ptr (set_ptr x None (s\<lparr>mem := h\<rparr>)) x = Some None" by simp
  ultimately show thesis using that by blast
qed

lemma set_ptr_twice [simp]:
  "set_ptr x p (set_ptr x q s) = set_ptr x p s"
  "set_ptr x p (give r (set_ptr x q s)) = set_ptr x p (give r s)"
  "(set_ptr x q s)\<lparr>ptr := (ptr (set_ptr x q s))(x := None)\<rparr> = s\<lparr>ptr := (ptr s)(x := None)\<rparr>"
  by (cases r; simp add: set_ptr_def give_def)+

lemma destroy_behaves:
  assumes ok: "owners_ok s" and x: "ptr s x = Some p"
  shows "owner_behaves (Destroy x) s"
proof -
  obtain h where del: "h_delete p (mem s) = Done h" and t: "owners_ok (set_ptr x None (s\<lparr>mem := h\<rparr>))"
    "ptr (set_ptr x None (s\<lparr>mem := h\<rparr>)) x = Some None"
    "owned (set_ptr x None (s\<lparr>mem := h\<rparr>)) = (owned s)(x \<mapsto> None)"
    "raw_values (set_ptr x None (s\<lparr>mem := h\<rparr>)) = raw_values s"
    by (rule delete_then [OF ok x])
  from drop_empty_ok [OF t(1,2)] show ?thesis
    unfolding t(3,4) set_ptr_twice
    by (simp add: owner_behaves_def owner_step_def unique_destroy_def x del ownership_def ownership_step_def)
qed

lemma reset_behaves:
  assumes ok: "owners_ok s" and x: "ptr s x = Some p"
  shows "owner_behaves (Reset x) s"
  using delete_owned [OF ok x] x
  by (auto simp: owner_behaves_def owner_step_def unique_reset_def ownership_def ownership_step_def)

lemma reset_raw_behaves:
  assumes ok: "owners_ok s" and x: "ptr s x = Some p" and k: "k < length (raws s)"
  shows "owner_behaves (Reset_Raw x k) s"
proof -
  obtain h where del: "h_delete p (mem s) = Done h" and t: "owners_ok (set_ptr x None (s\<lparr>mem := h\<rparr>))"
    "ptr (set_ptr x None (s\<lparr>mem := h\<rparr>)) x = Some None"
    "owned (set_ptr x None (s\<lparr>mem := h\<rparr>)) = (owned s)(x \<mapsto> None)"
    "raw_values (set_ptr x None (s\<lparr>mem := h\<rparr>)) = raw_values s"
    by (rule delete_then [OF ok x])
  have raws: "raws (set_ptr x None (s\<lparr>mem := h\<rparr>)) = raws s" by simp
  from give_ok [OF t(1), of x k] t(2) k show ?thesis
    unfolding t(3,4) raws set_ptr_twice
    by (simp add: owner_behaves_def owner_step_def unique_reset_def x del ownership_def ownership_step_def without_def)
qed

lemma owner_move_assign_behaves:
  assumes ok: "owners_ok s" and x: "ptr s x = Some p" and y: "ptr s y = Some q"
  shows "owner_behaves (Move_Assign x y) s"
proof (cases "x = y")
  case True
  then show ?thesis using ok x
    by (simp add: owner_behaves_def owner_step_def unique_move_assign_def ownership_def ownership_step_def)
next
  case False
  obtain h where del: "h_delete p (mem s) = Done h" and t: "owners_ok (set_ptr x None (s\<lparr>mem := h\<rparr>))"
    "ptr (set_ptr x None (s\<lparr>mem := h\<rparr>)) x = Some None"
    "owned (set_ptr x None (s\<lparr>mem := h\<rparr>)) = (owned s)(x \<mapsto> None)"
    "raw_values (set_ptr x None (s\<lparr>mem := h\<rparr>)) = raw_values s"
    by (rule delete_then [OF ok x])
  have "ptr (set_ptr x None (s\<lparr>mem := h\<rparr>)) y = Some q" using y False by simp
  from move_ok [OF t(1) _ this False] t(2) show ?thesis
    unfolding t(3,4) set_ptr_twice using False
    by (simp add: owner_behaves_def owner_step_def unique_move_assign_def x y del ownership_def ownership_step_def)
qed

lemma raw_is_there:
  assumes ok: "owners_ok s" and k: "k < length (raws s)"
  shows "h_read (Some (raws s ! k)) 0 (mem s) = Inr (raw_values s ! k)"
proof -
  have "blocks (mem s) (raws s ! k) = Some [pointee s (raws s ! k)]" using owners_okD(5) [OF ok] k by simp
  then show ?thesis using k by (simp add: h_read_def raw_values_def)
qed

lemma new_raw_behaves:
  assumes ok: "owners_ok s"
  shows "owner_behaves (New v) s"
proof (cases "new_raw v s")
  case (Some r)
  then obtain a t where r: "new_raw v s = Some (a, t)" by (cases r) auto
  have "shown t = shown s" using r by (auto simp: new_raw_def split: option.splits)
  then show ?thesis using new_raw_ok [OF ok r] r
    by (simp add: owner_behaves_def owner_step_def ownership_def ownership_step_def)
qed (simp add: owner_behaves_def owner_step_def)

lemma make_behaves:
  assumes ok: "owners_ok s" and x: "ptr s x = None"
  shows "owner_behaves (Make x v) s"
proof (cases "new_raw v s")
  case (Some r)
  then obtain a t where r: "new_raw v s = Some (a, t)" by (cases r) auto
  have "shown t = shown s" using r by (auto simp: new_raw_def split: option.splits)
  moreover note t = new_raw_ok [OF ok r]
  have "ptr t x = None \<or> ptr t x = Some None" "0 < length (raws t)" using t x by simp_all
  note give_ok [OF t(1) this]
  ultimately show ?thesis using r t
    by (simp add: owner_behaves_def owner_step_def make_unique_def unique_construct_def ownership_def ownership_step_def)
qed (simp add: owner_behaves_def owner_step_def make_unique_def)

lemma release_behaves:
  assumes ok: "owners_ok s" and x: "ptr s x = Some p"
  shows "owner_behaves (Release x) s"
proof (cases p)
  case None
  then have "set_ptr x None s = s" using x by (simp add: set_ptr_def fun_upd_idem)
  moreover have own: "owned s x = Some None" using x None by (simp add: owned_def)
  then have "(owned s)(x \<mapsto> None) = owned s" by (simp add: fun_upd_idem)
  ultimately show ?thesis using ok x None own
    by (simp add: owner_behaves_def owner_step_def unique_release_def ownership_def ownership_step_def)
next
  case (Some a)
  then have "ptr s x = Some (Some a)" using x by simp
  moreover have "owned s x = Some (Some (pointee s a))" using calculation by (simp add: owned_def)
  ultimately show ?thesis using release_ok [OF ok, of x a]
    by (simp add: owner_behaves_def owner_step_def unique_release_def ownership_def ownership_step_def)
qed

lemma owner_statement_behaves:
  assumes ok: "owners_ok s" and p: "may_stand c s"
  shows "owner_behaves c s"
proof (cases c)
  case (Construct x k)
  then have "ptr s x = None \<or> ptr s x = Some None" "k < length (raws s)" using p by (simp_all add: may_stand_def)
  note give_ok [OF ok this]
  with Construct show ?thesis
    by (simp add: owner_behaves_def owner_step_def unique_construct_def ownership_def ownership_step_def without_def)
next
  case (Move_Construct x y)
  then obtain q where "ptr s x = None" "ptr s y = Some q" using p by (auto simp: may_stand_def)
  moreover from this have "x \<noteq> y" by auto
  ultimately show ?thesis using move_ok [OF ok, of x y q] Move_Construct
    by (simp add: owner_behaves_def owner_step_def unique_move_construct_def ownership_def ownership_step_def)
next
  case (Move_Assign x y)
  then show ?thesis using p owner_move_assign_behaves [OF ok] by (auto simp: may_stand_def)
next
  case (Reset_Raw x k)
  then show ?thesis using p reset_raw_behaves [OF ok] by (auto simp: may_stand_def)
next
  case (Print_Value x)
  then obtain a where a: "ptr s x = Some (Some a)" using p by (auto simp: may_stand_def split: option.splits)
  then have "unique_deref x s = Inr (pointee s a)" "owned s x = Some (Some (pointee s a))"
    using owners_okD(6) [OF ok, of x a] by (simp_all add: unique_deref_def h_read_def owned_def owned_by_def)
  then show ?thesis using ok Print_Value
    by (simp add: owner_behaves_def owner_step_def show_value_def ownership_def ownership_step_def)
next
  case (Print_Null x)
  then obtain q where "ptr s x = Some q" using p by (auto simp: may_stand_def)
  then show ?thesis using ok Print_Null
    by (simp add: owner_behaves_def owner_step_def unique_get_def ownership_def ownership_step_def owned_def)
next
  case (Print_Raw k)
  then show ?thesis using p ok
    by (simp add: owner_behaves_def owner_step_def show_value_def ownership_def ownership_step_def
        raw_is_there may_stand_def)
qed (use p new_raw_behaves [OF ok] make_behaves [OF ok] destroy_behaves [OF ok] release_behaves [OF ok]
      reset_behaves [OF ok] in \<open>auto simp: may_stand_def\<close>)

interpretation unique_owners: safe_statements owner_step owners_ok may_stand
  by unfold_locales (use owner_statement_behaves in \<open>force simp: owner_behaves_def\<close>)

text \<open>The destructors of any existing owners, in any order; the raw pointers stay the program's.\<close>

lemma destroy_owners:
  "owners_ok t \<Longrightarrow> distinct xs \<Longrightarrow> (\<And>x. x \<in> set xs \<Longrightarrow> ptr t x \<noteq> None) \<Longrightarrow>
     \<exists>u. execute owner_step (map Destroy xs) t = Done u \<and> owners_ok u \<and> raws u = raws t \<and>
         (\<forall>x. ptr u x = (if x \<in> set xs then None else ptr t x))"
proof (induction xs arbitrary: t)
  case (Cons x xs)
  have "ptr t x \<noteq> None" by (rule Cons.prems(3)) simp
  then obtain p where x: "ptr t x = Some p" by blast
  obtain h where del: "h_delete p (mem t) = Done h" and h: "owners_ok (set_ptr x None (t\<lparr>mem := h\<rparr>))"
    "ptr (set_ptr x None (t\<lparr>mem := h\<rparr>)) x = Some None"
    by (rule delete_then [OF Cons.prems(1) x])
  let ?v = "t\<lparr>mem := h, ptr := (ptr t)(x := None)\<rparr>"
  have v: "owner_step (Destroy x) t = Done ?v" by (simp add: owner_step_def unique_destroy_def x del)
  have ok: "owners_ok ?v" using drop_empty_ok(1) [OF h] unfolding set_ptr_twice by simp
  have "\<exists>u. execute owner_step (map Destroy xs) ?v = Done u \<and> owners_ok u \<and> raws u = raws ?v \<and>
      (\<forall>y. ptr u y = (if y \<in> set xs then None else ptr ?v y))"
    by (rule Cons.IH [OF ok]) (use Cons.prems(2,3) in auto)
  with v show ?case by auto
qed simp

lemma all_owners_destroyed:
  assumes "owners_ok t" and "distinct xs" and "set xs = {x. ptr t x \<noteq> None}"
  shows "\<exists>u. execute owner_step (map Destroy xs) t = Done u \<and> (\<forall>a. blocks (mem u) a \<noteq> None \<longleftrightarrow> a \<in> set (raws t))"
proof -
  have "ptr t x \<noteq> None" if "x \<in> set xs" for x using that assms(3) by simp
  from destroy_owners [OF assms(1,2) this] obtain u where
    u: "execute owner_step (map Destroy xs) t = Done u" "owners_ok u" "raws u = raws t"
      "\<forall>x. ptr u x = (if x \<in> set xs then None else ptr t x)" by blast
  have "ptr u x = None" for x using u(4) assms(3) by auto
  then have "\<not> owned_by u x a" for x a by (simp add: owned_by_def)
  then have "blocks (mem u) a \<noteq> None \<longleftrightarrow> a \<in> set (raws t)" for a
    using owners_okD(5,7) [OF u(2), of a] u(3) by auto
  with u(1) show ?thesis by blast
qed

text \<open>
  A pointer that an owner already has, given to an owner: with \<open>reset\<close> of itself, of another, or
  to a new one, two destructors delete the same block.
\<close>

lemma reset_owned_twice:
  assumes ok: "owners_ok s" and y: "owned_by s y a" and x: "ptr s x = Some p"
  shows "\<exists>t. unique_reset x (Some a) s = Done t \<and>
     execute owner_step (map Destroy (if x = y then [x] else [x, y])) t = Undefined Double_Free"
proof -
  obtain h where del: "h_delete p (mem s) = Done h" using delete_owned [OF ok x] by blast
  have blk: "blocks (mem s) a = Some [pointee s a]" by (rule owners_okD(6) [OF ok y])
  have py: "ptr s y = Some (Some a)" using y by (simp add: owned_by_def)
  show ?thesis
  proof (cases "x = y")
    case True
    then have "blocks h a = None" using del x py blk by (auto simp: h_delete_def)
    then show ?thesis using True x del
      by (simp add: unique_reset_def owner_step_def unique_destroy_def h_delete_def on_mem_def)
  next
    case False
    have "p \<noteq> Some a" using False owners_okD(4) [OF ok y, of x] x by (auto simp: owned_by_def)
    then have "blocks h a = Some [pointee s a]" using del blk by (cases p) (auto simp: h_delete_def split: option.splits)
    then show ?thesis using False x py del
      by (simp add: unique_reset_def owner_step_def unique_destroy_def h_delete_def on_mem_def)
  qed
qed

lemma construct_owned_twice:
  assumes ok: "owners_ok s" and y: "owned_by s y a" and x: "ptr s x = None"
  shows "\<exists>t. unique_construct x (Some a) s = Done t \<and>
     execute owner_step (map Destroy [x, y]) t = Undefined Double_Free"
proof -
  have "blocks (mem s) a = Some [pointee s a]" by (rule owners_okD(6) [OF ok y])
  moreover have "ptr s y = Some (Some a)" "x \<noteq> y" using x y by (auto simp: owned_by_def)
  ultimately show ?thesis
    by (simp add: unique_construct_def owner_step_def unique_destroy_def h_delete_def on_mem_def)
qed

text \<open>Only \<open>new\<close> throws, and only without memory.\<close>

fun allocates :: "'T owner_statement \<Rightarrow> bool" where
  "allocates (New v) = True"
| "allocates (Make x v) = True"
| "allocates c = False"

lemma owner_throws_exactly: "owner_step c s = Thrown t \<longleftrightarrow> allocates c \<and> budget (mem s) = 0 \<and> t = s"
proof (cases c)
  case (New v)
  then show ?thesis by (auto simp: owner_step_def new_raw_def h_new_def)
next
  case (Make x v)
  then show ?thesis by (auto simp: owner_step_def make_unique_def unique_construct_def new_raw_def h_new_def)
qed (auto simp: owner_step_def unique_construct_def unique_destroy_def unique_move_construct_def unique_move_assign_def
    unique_release_def unique_reset_def show_value_def on_mem_def h_delete_def split: option.splits sum.splits)

section \<open>Properties\<close>

text \<open>
  Property C13. Ownership is unique.  Take any sequence of the members, \<open>new\<close> and prints in which
  every statement that is reached uses owners that exist, constructs ones that do not, passes to a
  constructor or to \<open>reset\<close> only a raw pointer the program has from \<open>new\<close> or \<open>release\<close> and has not
  given to an owner since (so not \<open>p.reset(p.get())\<close>), and prints only values that are there.  It
  runs to its end or to the first \<open>std::bad_alloc\<close>, and nothing on the way is undefined - nothing is
  deleted twice or used after it was deleted.  Then a block on the heap is either owned by exactly
  one owner, or one the program itself holds a raw pointer to; no owner dangles; and the
  destructors of all owners that exist, in any order, are defined and leave exactly the blocks the
  program holds raw pointers to.  The condition on raw pointers is needed: \<open>reset\<close> of any owner, or
  construction of a new one, with a pointer that an owner has, its own included, is followed by
  a double deletion in the destructors.
\<close>

theorem owners_are_unique:
  assumes "all_permitted may_stand owner_step cs (owners_init n)"
  shows "\<exists>t. (execute owner_step cs (owners_init n) = Done t \<or> execute owner_step cs (owners_init n) = Thrown t) \<and>
             (\<forall>a. blocks (mem t) a \<noteq> None \<longrightarrow> (a \<in> set (raws t)) \<noteq> (\<exists>!x. unique_get x t = Inr (Some a))) \<and>
             (\<forall>x a. unique_get x t = Inr (Some a) \<longrightarrow> blocks (mem t) a \<noteq> None) \<and>
             (\<forall>xs. distinct xs \<and> set xs = {x. ptr t x \<noteq> None} \<longrightarrow>
                (\<exists>u. execute owner_step (map Destroy xs) t = Done u \<and>
                     (\<forall>a. blocks (mem u) a \<noteq> None \<longleftrightarrow> a \<in> set (raws t)))) \<and>
             (\<forall>x y a. unique_get y t = Inr (Some a) \<longrightarrow>
                (\<exists>u. (if ptr t x = None then unique_construct x (Some a) t else unique_reset x (Some a) t) = Done u \<and>
                     execute owner_step (map Destroy (if x = y then [x] else [x, y])) u = Undefined Double_Free))"
proof -
  obtain t where t: "execute owner_step cs (owners_init n) = Done t \<or> execute owner_step cs (owners_init n) = Thrown t"
    and ok: "owners_ok t"
    using unique_owners.execute_safe [OF owners_ok_init assms] by blast
  have get: "unique_get x u = Inr (Some a) \<longleftrightarrow> owned_by u x a" for x a u
    by (auto simp: unique_get_def owned_by_def split: option.splits)
  have "(a \<in> set (raws t)) \<noteq> (\<exists>!x. owned_by t x a)" if "blocks (mem t) a \<noteq> None" for a
    using owners_okD(7) [OF ok that] owners_okD(3) [OF ok, of _ a] owners_okD(4) [OF ok, of _ a] by blast
  moreover have "blocks (mem t) a \<noteq> None" if "owned_by t x a" for x a using owners_okD(6) [OF ok that] by simp
  moreover have "\<exists>u. (if ptr t x = None then unique_construct x (Some a) t else unique_reset x (Some a) t) = Done u \<and>
      execute owner_step (map Destroy (if x = y then [x] else [x, y])) u = Undefined Double_Free"
    if y: "owned_by t y a" for x y a
  proof (cases "ptr t x")
    case None
    then have "x \<noteq> y" using y by (auto simp: owned_by_def)
    with construct_owned_twice [OF ok y None] None show ?thesis by simp
  qed (use reset_owned_twice [OF ok y] in simp)
  ultimately show ?thesis using t all_owners_destroyed [OF ok] unfolding get by blast
qed

lemma unique_main_permitted: "all_permitted may_stand owner_step unique_main (owners_init 3)"
  by code_simp

theorem owners_are_unique_witness:
  "\<exists>t. execute owner_step unique_main (owners_init 3) = Done t \<and>
       (\<forall>a. blocks (mem t) a \<noteq> None \<longrightarrow> (a \<in> set (raws t)) \<noteq> (\<exists>!x. unique_get x t = Inr (Some a)))"
proof -
  have "case execute owner_step unique_main (owners_init 3) of Done t \<Rightarrow> True | _ \<Rightarrow> False" by code_simp
  then show ?thesis using owners_are_unique [OF unique_main_permitted] by (auto split: effect.splits)
qed

text \<open>
  Property C35. Owners are values that move.  In a state in which every block is owned by one owner
  or held by the program, none dangles (\<open>owners_ok\<close>), take a member that uses existing owners,
  constructs new ones, passes only raw pointers the program holds (so not \<open>p.reset(p.get())\<close>), and
  prints only what is there.  If it is \<open>new\<close> or \<open>make_unique\<close> and there is no memory, it throws and
  nothing has changed.  Otherwise it is done, keeps \<open>owners_ok\<close>, and has the effect of the value
  semantics on every owner, on the values the program holds and on what is printed: a move empties
  its source and the old value of the target is deleted, a self-move changes nothing, \<open>release\<close>
  hands the value to the program, \<open>reset\<close> replaces it.
\<close>

theorem owners_are_values:
  assumes "owners_ok s" and "may_stand c s"
  shows "if allocates c \<and> budget (mem s) = 0 then owner_step c s = Thrown s
         else \<exists>t. owner_step c s = Done t \<and> owners_ok t \<and> ownership t = ownership_step c (ownership s)"
  using owner_statement_behaves [OF assms] owner_throws_exactly [of c s s] by (auto simp: owner_behaves_def)

theorem owners_are_values_witness:
  "\<exists>s t. owned s 1 = Some (Some (7::i32)) \<and> owned s 2 = Some (Some 9) \<and> owner_step (Move_Assign 1 2) s = Done t \<and>
         owned t 1 = Some (Some 9) \<and> owned t 2 = Some None"
proof -
  let ?pre = "[Make 1 7, Make 2 9] :: i32 owner_statement list"
  have "case execute owner_step ?pre (owners_init 2) of
      Done s \<Rightarrow> owned s 1 = Some (Some 7) \<and> owned s 2 = Some (Some 9) \<and> may_stand (Move_Assign 1 2) s \<and>
        (case owner_step (Move_Assign 1 2) s of Done t \<Rightarrow> True | _ \<Rightarrow> False)
    | _ \<Rightarrow> False"
    by code_simp
  then obtain s t where s: "execute owner_step ?pre (owners_init 2) = Done s"
    "owned s 1 = Some (Some 7)" "owned s 2 = Some (Some 9)" "may_stand (Move_Assign 1 2) s"
    "owner_step (Move_Assign 1 2) s = Done t"
    by (auto split: effect.splits)
  have "all_permitted may_stand owner_step ?pre (owners_init 2)" by code_simp
  with unique_owners.execute_safe [OF owners_ok_init this] s(1) have "owners_ok s" by auto
  from owners_are_values [OF this s(4)] s have "ownership t = ownership_step (Move_Assign 1 2) (ownership s)" by simp
  with s show ?thesis by (auto simp: ownership_def ownership_step_def)
qed

text \<open>
  \<open>main\<close> prints what it announces, in three elements of memory, but leaks: the
  number that \<open>ptr_x.release()\<close> handed to \<open>raw_ptr\<close> is still on the heap when all owners are gone.
\<close>

theorem unique_main_leaks:
  "case execute owner_step unique_main (owners_init 3) of
     Done t \<Rightarrow> shown t = [Value (Number 5), Value (Number 5), Null True, Value (Number 5), Null True, Value (Number 5),
                        Null True, Value (A_Point \<lparr>px = 1, py = 2\<rparr>), Value (A_Point \<lparr>px = 1, py = 2\<rparr>)] \<and>
               raw_values t = [Number 5] \<and> budget (mem t) = 2
   | _ \<Rightarrow> False"
  by code_simp

text \<open>
  \<open>reset\<close> deletes what the owner has before it stores the new pointer, without
  comparing them: after \<open>p.reset(p.get())\<close> the owner points to a deleted block, so that using it
  is undefined, and so is its destructor.
\<close>

theorem reset_to_itself:
  assumes "owners_ok s" and "unique_get x s = Inr (Some a)"
  shows "\<exists>t. unique_reset x (Some a) s = Done t \<and> unique_get x t = Inr (Some a) \<and>
             unique_deref x t = Inl Use_After_Free \<and> unique_destroy x t = Undefined Double_Free"
proof -
  have x: "ptr s x = Some (Some a)" using assms(2) by (simp add: unique_get_def split: option.splits)
  then have "blocks (mem s) a = Some [pointee s a]" using owners_okD(6) [OF assms(1)] by (simp add: owned_by_def)
  with x show ?thesis
    by (simp add: unique_reset_def h_delete_def unique_get_def unique_deref_def h_read_def unique_destroy_def on_mem_def)
qed

theorem reset_to_itself_witness:
  "\<exists>s t. unique_get 1 s = Inr (Some 0) \<and> unique_reset 1 (Some 0) s = Done (t :: i32 owners) \<and>
         unique_destroy 1 t = Undefined Double_Free"
proof -
  have "case owner_step (Make 1 (7::i32)) (owners_init 1) of Done s \<Rightarrow> unique_get 1 s = Inr (Some 0) | _ \<Rightarrow> False"
    by code_simp
  then obtain s where s: "owner_step (Make 1 (7::i32)) (owners_init 1) = Done s" "unique_get 1 s = Inr (Some 0)"
    by (auto split: effect.splits)
  have "may_stand (Make 1 (7::i32)) (owners_init 1)" by code_simp
  with owner_statement_behaves [OF owners_ok_init] s(1) have "owners_ok s" by (fastforce simp: owner_behaves_def)
  from reset_to_itself [OF this s(2)] s(2) show ?thesis by blast
qed

end
