(* ===== verification/Spec2Isabelle.thy ===== *)
theory Spec2Isabelle
  imports Fair_Transfer Fair_Head_To_Head Fair_Pingpong Fair_Spinlock Cxx_Layout Counter_Bench Aba_Races Move_Semantics Unique_Ptr
begin

text \<open>
  A verification library for MarketDataPipeline: the lock-free single-producer
  single-consumer ring buffer \<open>spsc/SpscQueue.h\<close>, the benchmarks that drive it, and the
  synchronisation and ownership experiments beside it.

  \<^bold>\<open>The program.\<close>  The queue is a header; \<open>bench/spsc_bench.cpp\<close> and
  \<open>bench/spsc_head_to_head.cpp\<close> run it between two threads, the latter also against four
  libraries behind wrappers with the same two members.  \<open>bench/pingpong_bench.cpp\<close>,
  \<open>bench/counter_bench.cpp\<close> and \<open>experiments/cas_spinlock.cpp\<close> measure the primitives a
  queue is built from: a flag handed back and forth, counting with a mutex or with atomics, a
  spinlock.  \<open>experiments/broken_aba.cpp\<close> shows a lock-free stack failing,
  \<open>experiments/move_semantics.cpp\<close> and \<open>experiments/unique_ptr.cpp\<close> are exercises in
  ownership.  \<open>bench/bench_utils.h\<close> holds what the benchmarks share.

  \<^bold>\<open>Foundations.\<close>
  \<open>Pipeline_Prelude\<close>: transition systems as step functions over explicit choices (which thread
  moves, which value a load returns, whether a weak exchange fails), the invariant rule and the
  bound on runs (locales \<open>machine\<close>, \<open>terminating_machine\<close>), machine integers.
  \<open>Cxx_Memory\<close>: the release/acquire part of the C++20 memory model as an executable semantics,
  with stale reads, spurious failures, data-race detection, joins and mutexes.
  \<open>Cxx_Double\<close>: \<open>double\<close> as rational numbers with the rounding of binary64, its error bound and
  the integers it represents exactly.
  \<open>Cxx_Heap\<close>: \<open>new\<close>, \<open>delete\<close> and pointers, with undefined behaviour and \<open>std::bad_alloc\<close> as
  explicit results (locale \<open>safe_statements\<close>).
  \<open>Bounded_Fifo\<close>: the contract of a bounded queue (locale \<open>bounded_fifo\<close>), which \<open>SpscQueue\<close>
  is shown to have and the clients rely on.
  \<open>Fair_Runs\<close>: infinite schedules, weak fairness, visibility of stores, and the rule that brings
  termination under them down to conditions on single steps (locale \<open>fair_machine\<close>).
  \<open>Sampling\<close>: the percentile functions of three files.

  \<^bold>\<open>The queue.\<close>
  \<open>Spsc_Queue\<close>: the class as a record with the fields of the source and its members as
  functions; wrapping 64-bit indices; the members append and remove at the two ends, equal the
  members without cached indices, and provide \<open>bounded_fifo\<close>.
  \<open>Spsc_Concurrent\<close>: both members with every access of a shared field a step, and the invariant
  of the two threads.
  \<open>Spsc_Guarantees\<close>: what follows for every execution - no data race, first in first out and
  exactly once, refinement of the abstract queue, bounds, exact answers after a reload,
  wait-freedom, \<open>size()\<close> and \<open>empty()\<close> from each thread, and that every
  uninterrupted concurrent call is the sequential one on the index values it reads.
  \<open>Spsc_Progress\<close>: how far a call is from its effect, and that accesses which load the newest
  index bring it closer.

  \<^bold>\<open>Its clients.\<close>
  \<open>Spsc_Bench\<close>: the worker loops as one client of the concurrent queue (locale
  \<open>transfer_client\<close>, interpreted at the sizes of the test and of the benchmark): the assertion
  cannot fail, the threads can always finish; \<open>size_test\<close>, \<open>run_benchmark\<close> and \<open>main\<close>.
  \<open>Fair_Transfer\<close>: under a fair scheduler these loops do finish (locale \<open>waiting_transfer\<close>).
  \<open>Head_To_Head\<close>: the wrappers, the loops of the three test cases over any queue with the
  contract (locale \<open>head_to_head\<close>, interpreted at the five sizes \<open>main\<close> accepts), dispatch and
  exit code.
  \<open>Stepwise_Fifo\<close>: the same loops over a queue whose calls take several steps that the threads
  interleave (locale \<open>stepwise_fifo\<close>); they simulate the loops over atomic calls and can always
  finish (locale \<open>stepwise_loops\<close>, which gives \<open>head_to_head\<close>).
  \<open>Spsc_Head_To_Head\<close>: the concurrent queue provides that contract, so all three test cases run
  on it, access by access, without a race, in order and to their end.
  \<open>Fair_Loops\<close>, \<open>Fair_Head_To_Head\<close>: under a fair scheduler all three test cases finish, over any
  queue with a further contract (locale \<open>fair_fifo\<close>) that the concurrent queue provides.
  \<open>Bench_Utils\<close>: arguments, frequency files, pinning, time-stamp counter and its calibration.
  \<open>Cxx_Layout\<close>: the layout of the classes with \<open>alignas\<close> and which members share a cache line.

  \<^bold>\<open>The other concurrent programs.\<close>
  \<open>Pingpong\<close>: the flag orders all accesses of the plain counter, the exit code is zero, and the
  nanoseconds printed are the cycles converted at the calibrated rate up to one, with all roundings
  of \<open>double\<close>.  \<open>Fair_Pingpong\<close>: a fair
  scheduler brings it to its end.
  \<open>Cas_Spinlock\<close>: mutual exclusion without a race, and exactly \<open>NUM_ROUND_TRIPS\<close> increments.
  \<open>Fair_Spinlock\<close>: the program ends if spurious failures of the exchange do not go on for ever,
  whoever gets the lock (locale \<open>spinlock_size\<close>).
  \<open>Counter_Bench\<close>: all four variants stop under every schedule with the exact count, so no run is
  reported incorrect.
  \<open>Broken_Aba\<close>: without reuse of nodes the stack is correct in every execution that has no data
  race; with reuse one schedule of the program corrupts it, another does not; \<open>pop_vulnerable\<close>
  dereferences null on an empty stack.
  \<open>Aba_Races\<close>: where the races are.  A pop whose exchange takes a wrong \<open>next\<close> has raced on it,
  whatever the program; without reuse the only race is the read of \<open>next\<close> in \<open>pop_normal\<close>, and with
  an acquire failure order there is none, so the stack is then correct in every execution.

  \<^bold>\<open>Ownership.\<close>
  \<open>Move_Semantics\<close> and \<open>Unique_Ptr\<close>: sequences of the members of \<open>Buffer\<close> and of \<open>UniquePtr\<close> in
  which objects are used while they exist, indices are in range and owners get only raw pointers
  the program holds.  They are free of undefined behaviour up to their end or the first
  \<open>std::bad_alloc\<close>, each block has exactly one owner then, and the destructors are safe; each
  member refines what it means for plain values.  The exceptions are proved as such: a copy
  assignment that throws leaves a dangling object, \<open>reset\<close> with a pointer an owner has (its own
  included) ends in a double deletion, and \<open>main\<close> of \<open>unique_ptr.cpp\<close> leaks.

  \<^bold>\<open>Bounds.\<close>  No fuel is used.  Loops that spin are steps of a machine.  That they end is stated as
  a bound on the length of every run where no thread waits for another (mutex and atomic variants),
  as a bound on the accesses of a call (\<open>spsc_wait_free\<close>), and otherwise for every infinite schedule
  that is weakly fair and in which stores become visible - what a scheduler and an implementation
  of atomic objects owe the program, and no more: neither an order of the threads nor the time at
  which a store is seen is assumed.  Capacities, item counts,
  threads and rounds are parameters; theorems hold for all, with the constants of the sources as
  instances.

  \<^bold>\<open>Not modelled.\<close>  Fences and sequentially consistent orders do not occur in the sources.  New
  messages are appended to modification orders.  The third-party queues are parameters.  Pause
  instructions, sleeps and printing of addresses have no effect on what is proved: clock values
  are inputs, sleeps only select among schedules; pinning is modelled as a function of its own
  and not a step of the threads.  Floating point is a parameter, with the bounds that are needed;
  for the calibration and the printed nanoseconds it is binary64 (\<open>Cxx_Double\<close>), without overflow,
  subnormal numbers, infinities and NaNs, which do not occur there.  The plotting scripts,
  build files and notes hold no logic of the program, and the directories \<open>feed\<close>, \<open>lob\<close> and
  \<open>pipeline\<close> are empty.
\<close>

section \<open>From the command line to the queue\<close>

lemma main_sizes: "C \<in> {64, 128, 256, 512, 1024} \<Longrightarrow> capacity_ok C \<and> C \<noteq> 0"
  by (elim insertE emptyE; simp only:; code_simp)

text \<open>The worker loops \<open>main\<close> runs then, and what they start with.\<close>

abbreviation "mine_test qsize \<equiv>
  stream_steps (push_access (of_int qsize)) (pop_access (of_int qsize)) BENCH_ITERATION_COUNT_TC1"

abbreviation "mine_start g v \<equiv> stream_init (spsc_init g) v"

text \<open>
  Property C7. Called as \<open>spsc_head_to_head mine 1 SIZE\<close> with a size it accepts, the program runs
  test case 1 on a queue of that capacity and returns zero.  Under every schedule of the two
  threads, access by access and however stale the indices they read, there is at no time a data
  race or a failed assertion; and if the schedule passes over no thread forever and stores become
  visible, the loops end, with all ten million values received.
\<close>

theorem mine_stream_run:
  assumes "qsize \<in> {64, 128, 256, 512, 1024}"
  shows "head_to_head_main [prog, ''mine'', to_string 1, to_string qsize] =
           Inr (0, Stream_Test Mine qsize BENCH_ITERATION_COUNT_TC1) \<and>
         (\<forall>schedule i. let s = execution (mine_test qsize) schedule (mine_start g v) i
            in \<not> race (qmem (st_queue s)) \<and> \<not> st_failed s) \<and>
         (\<forall>schedule.
            weakly_fair (mine_test qsize) fst (\<lambda>c s. True) (mine_start g v) schedule \<longrightarrow>
            visible (mine_test qsize) (stream_loads push_reads pop_reads) (\<lambda>s. index_messages (st_queue s))
              (mine_start g v) schedule \<longrightarrow>
            (\<exists>i. let s = execution (mine_test qsize) schedule (mine_start g v) i
               in st_sent s = 10000000 \<and> st_got s = 10000000))"
proof -
  have "int_min \<le> qsize" "qsize \<le> int_max" using assms by (auto simp: int_min_def int_max_def)
  then have read: "stoi (to_string qsize) = Inr qsize" by (rule stoi_to_string)
  have "stoi (to_string 1) = Inr 1" by (rule stoi_to_string) (simp_all add: int_min_def int_max_def)
  then have main: "head_to_head_main [prog, ''mine'', to_string 1, to_string qsize] =
      Inr (0, Stream_Test Mine qsize BENCH_ITERATION_COUNT_TC1)"
    using assms read by (auto simp: head_to_head_main_def run_for_target_def run_test_case_def)
  have "(of_int qsize :: u64) \<in> {64, 128, 256, 512, 1024}" using assms by auto
  note size = main_sizes [OF this, THEN conjunct1] main_sizes [OF this, THEN conjunct2]
  show ?thesis
    using main spsc_stream_in_order [OF size execution_reach] spsc_stream_ends [OF size, of BENCH_ITERATION_COUNT_TC1 g v]
    unfolding BENCH_ITERATION_COUNT_TC1_def Let_def by blast
qed

theorem mine_stream_run_witness:
  "\<exists>schedule.
     let run = execution (mine_test 64) schedule (mine_start (\<lambda>_. 9) 9)
     in head_to_head_main [''spsc_head_to_head'', ''mine'', to_string 1, to_string 64] =
          Inr (0, Stream_Test Mine 64 BENCH_ITERATION_COUNT_TC1) \<and>
        (\<exists>i. st_sent (run i) = 10000000 \<and> st_got (run i) = 10000000 \<and>
             \<not> race (qmem (st_queue (run i))) \<and> \<not> st_failed (run i))"
proof -
  have size: "capacity_ok (of_int 64)" "(of_int 64 :: u64) \<noteq> 0" using main_sizes [of "of_int 64"] by simp_all
  obtain schedule where fair:
    "weakly_fair (mine_test 64) fst (\<lambda>c s. True) (mine_start (\<lambda>_. 9) 9) schedule"
    "visible (mine_test 64) (stream_loads push_reads pop_reads) (\<lambda>s. index_messages (st_queue s))
       (mine_start (\<lambda>_. 9) 9) schedule"
    using fair_stream_exists [OF size, of BENCH_ITERATION_COUNT_TC1 "\<lambda>_. 9" 9] by blast
  from mine_stream_run [of 64 "''spsc_head_to_head''" "\<lambda>_. 9" 9] fair show ?thesis unfolding Let_def by blast
qed

end
